theory Spec2Isabelle
  imports Main "HOL-Library.Word" "HOL-Library.Monad_Syntax"
begin

unbundle bit_operations_syntax

section \<open>Errors\<close>

text \<open>
  The editor reports a failure by storing a message with \<open>set_error_msg\<close> and returning
  \<open>false\<close>, \<open>0\<close> or a negative number. The model returns the error as a value;
  \<open>error_msg\<close> gives the stored text.
\<close>

datatype error =
    LineTooLong
  | MemoryExhausted
  | RegexError string

fun error_msg :: "error \<Rightarrow> string" where
  "error_msg LineTooLong = ''Line too long''"
| "error_msg MemoryExhausted = ''Memory exhausted''"
| "error_msg (RegexError txt) = txt"

section \<open>signal.c: the growable buffer\<close>

text \<open>
  \<open>resize_buffer (buf, size, min_size)\<close>: \<open>*size\<close> is an \<open>int\<close> and \<open>min_size\<close> an
  \<open>unsigned\<close>, both 32 bits wide. The model keeps the bit pattern of \<open>*size\<close> in a word,
  so that the cast \<open>(unsigned)*size\<close> is the identity. The first argument says whether
  \<open>malloc\<close>/\<open>realloc\<close> returns a block. The result is the new value of \<open>*size\<close>.
\<close>

definition INT_MAX :: "32 word" where
  "INT_MAX = 0x7FFFFFFF"

definition resize_buffer :: "bool \<Rightarrow> 32 word \<Rightarrow> 32 word \<Rightarrow> error + 32 word" where
  "resize_buffer alloc_ok sz min_size =
     (if sz < min_size then
        if min_size \<ge> INT_MAX then Inl LineTooLong
        else
          let new_size = (if min_size < 512 then 512
                          else if min_size > INT_MAX div 2 then INT_MAX
                          else (min_size div 512) * 1024)
          in if \<not> alloc_ok then Inl MemoryExhausted else Inr new_size
      else Inr sz)"

section \<open>signal.c: the window size\<close>

text \<open>
  \<open>struct winsize\<close> holds two \<open>unsigned short\<close> fields; the statics \<open>window_lines_\<close> and
  \<open>window_columns_\<close> are \<open>int\<close> (the fields \<open>window_lines\<close> and \<open>window_columns\<close>). The first argument of \<open>sigwinch_handler\<close> is what
  \<open>ioctl (0, TIOCGWINSZ, &ws)\<close> delivers: \<open>None\<close> when it fails.
\<close>

record winsize =
  ws_row :: "16 word"
  ws_col :: "16 word"

record window =
  window_lines :: int
  window_columns :: int

definition initial_window :: window where
  "initial_window = \<lparr>window_lines = 22, window_columns = 72\<rparr>"

definition sigwinch_handler :: "winsize option \<Rightarrow> window \<Rightarrow> window" where
  "sigwinch_handler io w =
     (case io of
        None \<Rightarrow> w
      | Some ws \<Rightarrow>
          let w1 = (if uint (ws_row ws) > 2 \<and> uint (ws_row ws) < 600
                    then w\<lparr>window_lines := uint (ws_row ws) - 2\<rparr> else w);
              w2 = (if uint (ws_col ws) > 8 \<and> uint (ws_col ws) < 1800
                    then w1\<lparr>window_columns := uint (ws_col ws) - 8\<rparr> else w1)
          in w2)"

definition set_window_lines :: "int \<Rightarrow> window \<Rightarrow> window" where
  "set_window_lines lines w = w\<lparr>window_lines := lines\<rparr>"

section \<open>sh.cpp: the highlighter's output copy\<close>

text \<open>
  \<open>highlight\<close> pushes the line into the static stream \<open>ips\<close>, lets the library write to
  the static stream \<open>ops\<close>, and copies from \<open>ops\<close> into \<open>out\<close>. The library is a
  parameter \<open>srchilite\<close>: the bytes it emits for the bytes it reads. \<open>clear ()\<close> resets
  the streams' error flags only, so what an earlier call left unread in \<open>ops\<close> is still
  there. A store outside \<open>out\<close> is the value \<open>None\<close>.
\<close>

type_synonym byte = "8 word"

record streams =
  ips :: "byte list"
  ops :: "byte list"

definition store_byte :: "byte list \<Rightarrow> nat \<Rightarrow> byte \<Rightarrow> byte list option" where
  "store_byte out i c = (if i < length out then Some (out[i := c]) else None)"

text \<open>
  The loop \<open>for (char c; ops.get (c) && bytesWritten < 999; ) out[bytesWritten++] = c\<close>:
  \<open>get\<close> is called first, so the byte read at \<open>bytesWritten = 999\<close> is consumed and dropped.
  The result is what is left in \<open>ops\<close>, the buffer and \<open>bytesWritten\<close>.
\<close>

fun copy_loop :: "byte list \<Rightarrow> byte list \<Rightarrow> nat \<Rightarrow> (byte list \<times> byte list \<times> nat) option" where
  "copy_loop [] out n = Some ([], out, n)"
| "copy_loop (c # rest) out n =
     (if n < 999
      then (case store_byte out n c of
              None \<Rightarrow> None
            | Some out' \<Rightarrow> copy_loop rest out' (Suc n))
      else Some (rest, out, n))"

definition highlight ::
  "(byte list \<Rightarrow> byte list) \<Rightarrow> byte list \<Rightarrow> int \<Rightarrow> byte list \<Rightarrow> streams
     \<Rightarrow> (byte list \<times> int \<times> streams) option" where
  "highlight srchilite input ilen out st =
     (let ips1 = ips st @ take (nat ilen) input;
          ops1 = ops st @ srchilite ips1
      in case copy_loop ops1 out 0 of
           None \<Rightarrow> None
         | Some (rest, out1, n) \<Rightarrow>
             (case store_byte out1 n 0 of
                None \<Rightarrow> None
              | Some out2 \<Rightarrow> Some (out2, int n, \<lparr>ips = [], ops = rest\<rparr>)))"

section \<open>regex.c: the pool of compiled expressions\<close>

text \<open>
  \<open>store\<close> is the static array of three \<open>regex_t\<close>; a slot holds \<open>Some r\<close> when it
  contains a compiled expression. \<open>last_regexp\<close> and \<open>subst_regexp\<close> are null or point
  to a slot, given by its index. \<open>regcomp\<close> is the C library's; it is a parameter that
  returns the compiled expression or the text \<open>regerror\<close> gives, and a failed call
  leaves no compiled expression in the slot it was given.
\<close>

record 're regex_cache =
  store :: "'re option list"
  last_regexp :: "nat option"
  subst_regexp :: "nat option"

text \<open>
  The loop \<open>for (n = 0; n < 3; ++n) if ((exp = &store[n]) != last_regexp && exp != subst_regexp) break\<close>,
  unrolled; the value is the index \<open>exp\<close> points to afterwards.
\<close>

definition pick_slot :: "nat option \<Rightarrow> nat option \<Rightarrow> nat" where
  "pick_slot l s =
     (if Some 0 \<noteq> l \<and> Some 0 \<noteq> s then 0
      else if Some 1 \<noteq> l \<and> Some 1 \<noteq> s then 1
      else 2)"

definition regfree :: "nat \<Rightarrow> 're option list \<Rightarrow> 're option list" where
  "regfree i st = st[i := None]"

definition compile_regex ::
  "(string \<Rightarrow> bool \<Rightarrow> bool \<Rightarrow> string + 're) \<Rightarrow> bool \<Rightarrow> string \<Rightarrow> bool \<Rightarrow> 're regex_cache
     \<Rightarrow> (error + nat) \<times> 're regex_cache" where
  "compile_regex regcomp extended_regexp pat ignore_case rc =
     (let exp = pick_slot (last_regexp rc) (subst_regexp rc)
      in case regcomp pat extended_regexp ignore_case of
           Inl txt \<Rightarrow> (Inl (RegexError txt), rc\<lparr>store := (store rc)[exp := None]\<rparr>)
         | Inr r \<Rightarrow>
             (let st1 = (store rc)[exp := Some r];
                  st2 = (case last_regexp rc of
                           None \<Rightarrow> st1
                         | Some l \<Rightarrow> if last_regexp rc \<noteq> subst_regexp rc then regfree l st1 else st1)
              in (Inr exp, rc\<lparr>store := st2, last_regexp := Some exp\<rparr>)))"

section \<open>ed.h and buffer.c: line nodes, the editor state\<close>

text \<open>
  A \<open>line_t\<close> lives at an address; the heap maps addresses to nodes. Address 0 is
  \<open>&buffer_head\<close> and address 1 is \<open>&yank_buffer_head\<close>. A pointer that may be null is an
  \<open>addr option\<close>.
\<close>

type_synonym addr = nat

record line_t =
  q_forw :: addr
  q_back :: addr
  pos :: int
  len :: int

definition buffer_head :: addr where
  "buffer_head = 0"

definition yank_buffer_head :: addr where
  "yank_buffer_head = 1"

datatype utype = UADD | UDEL | UMOV | VMOV

text \<open>\<open>type ^= 1\<close> on the values \<open>UADD = 0\<close>, \<open>UDEL = 1\<close>, \<open>UMOV = 2\<close>, \<open>VMOV = 3\<close>.\<close>

fun xor1 :: "utype \<Rightarrow> utype" where
  "xor1 UADD = UDEL"
| "xor1 UDEL = UADD"
| "xor1 UMOV = VMOV"
| "xor1 VMOV = UMOV"

record undo_t =
  type :: utype
  head :: addr
  tail :: addr

text \<open>
  The statics of buffer.c, global.c, io.c and main_loop.c that the modelled functions use.
  \<open>ustack\<close> holds the entries below \<open>u_idx\<close>, so \<open>u_idx\<close> is its length;
  \<open>ustack_null\<close> says that the pointer \<open>ustack\<close> is null. \<open>active_list\<close> holds the entries
  below \<open>active_len\<close>. \<open>lp_cache\<close> and \<open>o_addr\<close> are the statics of \<open>search_line_node\<close>.
  \<open>sfile\<close> is the content of the scratch file and \<open>sbuf_bufsz\<close> the static \<open>bufsz\<close>
  of \<open>get_sbuf_line\<close>.

  Memory: \<open>malloc\<close> hands out the addresses from \<open>brk\<close> upwards and never an address
  again; \<open>free\<close> leaves the heap as it is. Whether the next calls of \<open>malloc\<close> or
  \<open>realloc\<close> succeed is read from \<open>alloc_oracle\<close>, one entry for each call; when the
  list is used up, every call succeeds. Signals are not modelled: no interrupt arrives.
\<close>

record ed_state =
  heap :: "addr \<Rightarrow> line_t"
  brk :: addr
  alloc_oracle :: "bool list"
  current_addr :: int
  last_addr :: int
  isbinary :: bool
  modified :: bool
  lp_cache :: addr
  o_addr :: int
  ustack :: "undo_t list"
  ustack_null :: bool
  usize :: int
  u_current_addr :: int
  u_last_addr :: int
  u_modified :: bool
  active_list :: "addr option list"
  active_idx :: int
  active_idxm :: int
  mark :: "addr option list"
  markno :: int
  unterminated_line :: "addr option"
  sfile :: "byte list"
  sfpos :: int
  seek_write :: bool
  sbuf_bufsz :: "32 word"
  errmsg :: string
  first_addr :: int
  second_addr :: int
  def_filename :: string
  verbose :: bool
  prompt_on :: bool
  stdin :: string
  stdin_error :: bool
  linenum :: int
  bufsz :: "string \<Rightarrow> 32 word"
  rcache :: "nat regex_cache"
  rbuf :: "string option"
  s_pflags :: int
  s_pmask :: int
  s_snum :: int
  shcmd :: string
  win :: window
  fs :: "string \<rightharpoonup> byte list"

definition int_max :: int where
  "int_max = 2147483647"

definition set_error_msg :: "string \<Rightarrow> ed_state \<Rightarrow> ed_state" where
  "set_error_msg msg s = s\<lparr>errmsg := take 79 msg\<rparr>"

definition mem_msg :: string where
  "mem_msg = ''Memory exhausted''"

definition malloc :: "ed_state \<Rightarrow> addr option \<times> ed_state" where
  "malloc s =
     (case alloc_oracle s of
        [] \<Rightarrow> (Some (brk s), s\<lparr>brk := Suc (brk s)\<rparr>)
      | ok # rest \<Rightarrow>
          if ok then (Some (brk s), s\<lparr>brk := Suc (brk s), alloc_oracle := rest\<rparr>)
          else (None, s\<lparr>alloc_oracle := rest\<rparr>))"

text \<open>An allocation of something that is not a line node: only its success matters.\<close>

definition alloc_block :: "ed_state \<Rightarrow> bool \<times> ed_state" where
  "alloc_block s =
     (case alloc_oracle s of
        [] \<Rightarrow> (True, s)
      | ok # rest \<Rightarrow> (ok, s\<lparr>alloc_oracle := rest\<rparr>))"

definition inc_addr :: "int \<Rightarrow> ed_state \<Rightarrow> int" where
  "inc_addr a s = (if a + 1 > last_addr s then 0 else a + 1)"

definition dec_addr :: "int \<Rightarrow> ed_state \<Rightarrow> int" where
  "dec_addr a s = (if a - 1 < 0 then last_addr s else a - 1)"

definition link_nodes :: "addr \<Rightarrow> addr \<Rightarrow> (addr \<Rightarrow> line_t) \<Rightarrow> (addr \<Rightarrow> line_t)" where
  "link_nodes prev nxt h =
     (let h1 = h(prev := (h prev)\<lparr>q_forw := nxt\<rparr>)
      in h1(nxt := (h1 nxt)\<lparr>q_back := prev\<rparr>))"

definition insert_node :: "addr \<Rightarrow> addr \<Rightarrow> (addr \<Rightarrow> line_t) \<Rightarrow> (addr \<Rightarrow> line_t)" where
  "insert_node lp prev h = link_nodes prev lp (link_nodes lp (q_forw (h prev)) h)"

definition too_many_lines :: "ed_state \<Rightarrow> bool \<times> ed_state" where
  "too_many_lines s =
     (if last_addr s < int_max - 1 then (False, s)
      else (True, set_error_msg ''Too many lines in buffer'' s))"

text \<open>\<open>walk_forw h lp k\<close> is \<open>lp\<close> after \<open>k\<close> times \<open>lp = lp->q_forw\<close>.\<close>

fun walk_forw :: "(addr \<Rightarrow> line_t) \<Rightarrow> addr \<Rightarrow> nat \<Rightarrow> addr" where
  "walk_forw h lp 0 = lp"
| "walk_forw h lp (Suc k) = walk_forw h (q_forw (h lp)) k"

fun walk_back :: "(addr \<Rightarrow> line_t) \<Rightarrow> addr \<Rightarrow> nat \<Rightarrow> addr" where
  "walk_back h lp 0 = lp"
| "walk_back h lp (Suc k) = walk_back h (q_back (h lp)) k"

text \<open>
  \<open>search_line_node\<close>: each of the four loops steps \<open>o_addr\<close> by one until it meets
  \<open>addr\<close>, so it runs \<open>|addr - o_addr|\<close> times, or not at all when \<open>o_addr\<close> is already
  past \<open>addr\<close>.
\<close>

definition search_line_node :: "int \<Rightarrow> ed_state \<Rightarrow> addr \<times> ed_state" where
  "search_line_node a s =
     (let h = heap s in
      if o_addr s < a then
        if o_addr s + last_addr s \<ge> 2 * a then
          (let lp = walk_forw h (lp_cache s) (nat (a - o_addr s))
           in (lp, s\<lparr>lp_cache := lp, o_addr := a\<rparr>))
        else
          (let k = nat (last_addr s - a);
               lp = walk_back h (q_back (h buffer_head)) k
           in (lp, s\<lparr>lp_cache := lp, o_addr := last_addr s - int k\<rparr>))
      else if o_addr s \<le> 2 * a then
        (let lp = walk_back h (lp_cache s) (nat (o_addr s - a))
         in (lp, s\<lparr>lp_cache := lp, o_addr := a\<rparr>))
      else
        (let lp = walk_forw h buffer_head (nat a)
         in (lp, s\<lparr>lp_cache := lp, o_addr := int (nat a)\<rparr>)))"

definition add_line_node :: "addr \<Rightarrow> ed_state \<Rightarrow> ed_state" where
  "add_line_node lp s =
     (let (prev, s1) = search_line_node (current_addr s) s;
          s2 = s1\<lparr>heap := insert_node lp prev (heap s1)\<rparr>
      in s2\<lparr>current_addr := current_addr s2 + 1, last_addr := last_addr s2 + 1\<rparr>)"

text \<open>
  \<open>dup_line_node\<close>: a fresh node, with \<open>pos\<close> and \<open>len\<close> copied from \<open>lp\<close> unless \<open>lp\<close> is
  null. What \<open>show_strerror\<close> prints is not modelled.
\<close>

definition dup_line_node :: "addr option \<Rightarrow> ed_state \<Rightarrow> addr option \<times> ed_state" where
  "dup_line_node lp s =
     (case malloc s of
        (None, s1) \<Rightarrow> (None, set_error_msg mem_msg s1)
      | (Some p, s1) \<Rightarrow>
          (case lp of
             None \<Rightarrow> (Some p, s1)
           | Some l \<Rightarrow>
               (Some p, s1\<lparr>heap := (heap s1)(p := (heap s1 p)\<lparr>pos := pos (heap s1 l),
                                                                len := len (heap s1 l)\<rparr>)\<rparr>)))"

subsection \<open>The yank buffer\<close>

text \<open>
  A loop that follows pointers until it meets a given node ends only if the links lead
  there. Such a loop is a \<open>partial_function\<close>, and the functions that run one return an
  \<open>option\<close>: \<open>None\<close> says that the loop does not end.
\<close>

partial_function (option) clear_yank_loop :: "addr \<Rightarrow> (addr \<Rightarrow> line_t) \<Rightarrow> (addr \<Rightarrow> line_t) option" where
  "clear_yank_loop lp h =
     (if lp \<noteq> yank_buffer_head
      then (let p = q_forw (h lp);
                h1 = link_nodes (q_back (h lp)) (q_forw (h lp)) h
            in clear_yank_loop p h1)
      else Some h)"

declare clear_yank_loop.simps [code]

definition clear_yank_buffer :: "ed_state \<Rightarrow> ed_state option" where
  "clear_yank_buffer s =
     do { h \<leftarrow> clear_yank_loop (q_forw (heap s yank_buffer_head)) (heap s);
          Some (s\<lparr>heap := h\<rparr>) }"

partial_function (option) yank_loop :: "addr \<Rightarrow> addr \<Rightarrow> addr \<Rightarrow> ed_state \<Rightarrow> (bool \<times> ed_state) option" where
  "yank_loop bp ep lp s =
     (if bp \<noteq> ep
      then (case dup_line_node (Some bp) s of
              (None, s1) \<Rightarrow> Some (False, s1)
            | (Some p, s1) \<Rightarrow>
                (let s2 = s1\<lparr>heap := insert_node p lp (heap s1)\<rparr>
                 in yank_loop (q_forw (heap s2 bp)) ep p s2))
      else Some (True, s))"

declare yank_loop.simps [code]

definition yank_lines :: "int \<Rightarrow> int \<Rightarrow> ed_state \<Rightarrow> (bool \<times> ed_state) option" where
  "yank_lines from to s =
     (let (ep, s1) = search_line_node (inc_addr to s) s;
          (bp, s2) = search_line_node from s1
      in do { s3 \<leftarrow> clear_yank_buffer s2;
              yank_loop bp ep yank_buffer_head s3 })"

subsection \<open>main_loop.c, io.c and global.c: marks, the unterminated line, the active list\<close>

text \<open>
  \<open>unmark_line_node\<close>: the loop \<open>for (i = 0; markno && i < 26; ++i)\<close>; the first argument
  counts the iterations that are left.
\<close>

fun unmark_loop :: "nat \<Rightarrow> nat \<Rightarrow> addr \<Rightarrow> addr option list \<Rightarrow> int \<Rightarrow> addr option list \<times> int" where
  "unmark_loop 0 i lp mk mno = (mk, mno)"
| "unmark_loop (Suc k) i lp mk mno =
     (if mno \<noteq> 0
      then (if mk ! i = Some lp
            then unmark_loop k (Suc i) lp (mk[i := None]) (mno - 1)
            else unmark_loop k (Suc i) lp mk mno)
      else (mk, mno))"

definition unmark_line_node :: "addr \<Rightarrow> ed_state \<Rightarrow> ed_state" where
  "unmark_line_node lp s =
     (let (mk, mno) = unmark_loop 26 0 lp (mark s) (markno s)
      in s\<lparr>mark := mk, markno := mno\<rparr>)"

definition unmark_unterminated_line :: "addr \<Rightarrow> ed_state \<Rightarrow> ed_state" where
  "unmark_unterminated_line lp s =
     (if unterminated_line s = Some lp then s\<lparr>unterminated_line := None\<rparr> else s)"

definition clear_active_list :: "ed_state \<Rightarrow> ed_state" where
  "clear_active_list s = s\<lparr>active_list := [], active_idx := 0, active_idxm := 0\<rparr>"

text \<open>
  The inner loop of \<open>unset_active_nodes\<close>, at most \<open>active_len\<close> iterations; the first
  argument counts the iterations that are left.
\<close>

fun unset_scan :: "nat \<Rightarrow> addr \<Rightarrow> addr option list \<Rightarrow> int \<Rightarrow> addr option list \<times> int" where
  "unset_scan 0 bp al idxm = (al, idxm)"
| "unset_scan (Suc k) bp al idxm =
     (let idxm1 = (if idxm + 1 \<ge> int (length al) then 0 else idxm + 1)
      in if al ! nat idxm1 = Some bp
         then (al[nat idxm1 := None], idxm1)
         else unset_scan k bp al idxm1)"

partial_function (option) unset_active_nodes :: "addr \<Rightarrow> addr \<Rightarrow> ed_state \<Rightarrow> ed_state option" where
  "unset_active_nodes bp ep s =
     (if bp \<noteq> ep
      then (let (al, idxm) = unset_scan (length (active_list s)) bp (active_list s) (active_idxm s)
            in unset_active_nodes (q_forw (heap s bp)) ep (s\<lparr>active_list := al, active_idxm := idxm\<rparr>))
      else Some s)"

declare unset_active_nodes.simps [code]

subsection \<open>The undo stack\<close>

text \<open>The inner loop of \<open>clear_undo_stack\<close>, which frees the nodes of a deleted range.\<close>

partial_function (option) free_range :: "addr \<Rightarrow> addr \<Rightarrow> ed_state \<Rightarrow> ed_state option" where
  "free_range bp ep s =
     (if bp \<noteq> ep
      then (let lp = q_forw (heap s bp);
                s1 = unmark_line_node bp s;
                s2 = unmark_unterminated_line bp s1
            in free_range lp ep s2)
      else Some s)"

declare free_range.simps [code]

text \<open>The loop \<open>while (u_idx--)\<close> visits the atoms from the top of the stack down.\<close>

fun clear_undo_atoms :: "undo_t list \<Rightarrow> ed_state \<Rightarrow> ed_state option" where
  "clear_undo_atoms [] s = Some s"
| "clear_undo_atoms (u # us) s =
     (if type u = UDEL
      then do { s1 \<leftarrow> free_range (head u) (q_forw (heap s (tail u))) s;
                clear_undo_atoms us s1 }
      else clear_undo_atoms us s)"

definition clear_undo_stack :: "ed_state \<Rightarrow> ed_state option" where
  "clear_undo_stack s =
     do { s1 \<leftarrow> clear_undo_atoms (rev (ustack s)) s;
          Some (s1\<lparr>ustack := [],
                   u_current_addr := current_addr s1,
                   u_last_addr := last_addr s1,
                   u_modified := modified s1\<rparr>) }"

definition reset_undo_state :: "ed_state \<Rightarrow> ed_state option" where
  "reset_undo_state s =
     do { s1 \<leftarrow> clear_undo_stack s;
          Some (s1\<lparr>u_current_addr := - 1, u_last_addr := - 1, u_modified := False\<rparr>) }"

definition free_undo_stack :: "ed_state \<Rightarrow> ed_state option" where
  "free_undo_stack s =
     (if \<not> ustack_null s
      then do { s1 \<leftarrow> clear_undo_stack s;
                Some (s1\<lparr>ustack_null := True, usize := 0, ustack := [],
                         u_current_addr := - 1, u_last_addr := - 1\<rparr>) }
      else Some s)"

text \<open>
  \<open>sizeof (undo_t)\<close> is 24 where pointers have 8 bytes and the enum 4. \<open>min_size\<close> is an
  \<open>unsigned\<close> of 32 bits, and \<open>(unsigned)usize\<close> keeps the bits of \<open>usize\<close>.
\<close>

definition sizeof_undo_t :: int where
  "sizeof_undo_t = 24"

text \<open>
  \<open>push_undo_atom\<close> returns the index of the new atom, for the pointer \<open>ustack + u_idx\<close>,
  or \<open>None\<close> for the null pointer.
\<close>

definition push_undo_atom :: "utype \<Rightarrow> int \<Rightarrow> int \<Rightarrow> ed_state \<Rightarrow> (nat option \<times> ed_state) option" where
  "push_undo_atom ty from to s =
     (let min_size = (word_of_int ((int (length (ustack s)) + 1) * sizeof_undo_t) :: 32 word);
          store_atom = (\<lambda>s0.
            let (t, s1) = search_line_node to s0;
                (h, s2) = search_line_node from s1
            in Some (Some (length (ustack s2)),
                     s2\<lparr>ustack := ustack s2 @ [\<lparr>type = ty, head = h, tail = t\<rparr>]\<rparr>))
      in if (word_of_int (usize s) :: 32 word) < min_size then
           if min_size \<ge> INT_MAX then
             do { s1 \<leftarrow> free_undo_stack (set_error_msg ''Undo stack too long'' s);
                  Some (None, s1) }
           else
             (let new_size = (if min_size < 512 then 512
                              else if min_size > INT_MAX div 2 then INT_MAX
                              else (min_size div 512) * 1024)
              in case alloc_block s of
                   (False, s1) \<Rightarrow>
                     do { s2 \<leftarrow> free_undo_stack (set_error_msg mem_msg s1);
                          Some (None, s2) }
                 | (True, s1) \<Rightarrow>
                     store_atom (s1\<lparr>usize := sint new_size, ustack_null := False\<rparr>))
         else store_atom s)"

subsection \<open>Deleting lines\<close>

definition delete_lines :: "int \<Rightarrow> int \<Rightarrow> bool \<Rightarrow> ed_state \<Rightarrow> (bool \<times> ed_state) option" where
  "delete_lines from to isglobal s =
     do { (ok, s1) \<leftarrow> yank_lines from to s;
          if \<not> ok then Some (False, s1)
          else do {
            (up, s2) \<leftarrow> push_undo_atom UDEL from to s1;
            if up = None then Some (False, s2)
            else do {
              let (n, s3) = search_line_node (inc_addr to s2) s2;
              let (p, s4) = search_line_node (from - 1) s3;
              s5 \<leftarrow> (if isglobal then unset_active_nodes (q_forw (heap s4 p)) n s4 else Some s4);
              let s6 = s5\<lparr>heap := link_nodes p n (heap s5)\<rparr>;
              let s7 = s6\<lparr>last_addr := last_addr s6 - (to - from + 1)\<rparr>;
              let s8 = s7\<lparr>current_addr := min from (last_addr s7)\<rparr>;
              Some (True, s8\<lparr>modified := True\<rparr>) } } }"

subsection \<open>Undo\<close>

text \<open>
  The first loop of \<open>undo\<close>. For a \<open>UMOV\<close> or \<open>VMOV\<close> atom at index 0 the code reads
  \<open>ustack[-1]\<close>; the model returns \<open>None\<close> there.
\<close>

function undo_loop :: "int \<Rightarrow> undo_t list \<Rightarrow> (addr \<Rightarrow> line_t) \<Rightarrow> (undo_t list \<times> (addr \<Rightarrow> line_t)) option" where
  "undo_loop n us h =
     (if n \<ge> 0 then
        (let u = us ! nat n in
         case type u of
           UADD \<Rightarrow>
             (let h1 = link_nodes (q_back (h (head u))) (q_forw (h (tail u))) h
              in undo_loop (n - 1) (us[nat n := u\<lparr>type := xor1 (type u)\<rparr>]) h1)
         | UDEL \<Rightarrow>
             (let h1 = link_nodes (q_back (h (head u))) (head u) h;
                  h2 = link_nodes (tail u) (q_forw (h1 (tail u))) h1
              in undo_loop (n - 1) (us[nat n := u\<lparr>type := xor1 (type u)\<rparr>]) h2)
         | _ \<Rightarrow>
             (if n - 1 < 0 then None
              else
                (let v = us ! nat (n - 1);
                     h1 = link_nodes (head v) (q_forw (h (head u))) h;
                     h2 = link_nodes (q_back (h1 (tail u))) (tail v) h1;
                     h3 = link_nodes (head u) (tail u) h2
                 in undo_loop (n - 2) (us[nat (n - 1) := v\<lparr>type := xor1 (type v)\<rparr>]) h3)))
      else Some (us, h))"
  by pat_completeness auto
termination
  by (relation "measure (\<lambda>(n, us, h). nat (n + 1))") auto

text \<open>The second loop of \<open>undo\<close>, which swaps the entries \<open>n\<close> and \<open>u_idx - 1 - n\<close>.\<close>

function reverse_ustack :: "int \<Rightarrow> undo_t list \<Rightarrow> undo_t list" where
  "reverse_ustack n us =
     (if 2 * n < int (length us) - 1
      then (let tmp = us ! nat n;
                us1 = us[nat n := us ! nat (int (length us) - 1 - n)];
                us2 = us1[nat (int (length us) - 1 - n) := tmp]
            in reverse_ustack (n + 1) us2)
      else us)"
  by pat_completeness auto
termination
  by (relation "measure (\<lambda>(n, us). nat (int (length us) - 2 * n))") auto

declare undo_loop.simps [simp del] reverse_ustack.simps [simp del]

definition undo :: "bool \<Rightarrow> ed_state \<Rightarrow> (bool \<times> ed_state) option" where
  "undo isglobal s =
     (let o_current_addr = current_addr s;
          o_last_addr = last_addr s;
          o_modified = modified s
      in if int (length (ustack s)) \<le> 0 \<or> u_current_addr s < 0 \<or> u_last_addr s < 0
         then Some (False, set_error_msg ''Nothing to undo'' s)
         else
           (let (lp0, s1) = search_line_node 0 s
            in case undo_loop (int (length (ustack s1)) - 1) (ustack s1) (heap s1) of
                 None \<Rightarrow> None
               | Some (us, h) \<Rightarrow>
                   (let s2 = s1\<lparr>heap := h, ustack := reverse_ustack 0 us\<rparr>;
                        s3 = (if isglobal then clear_active_list s2 else s2);
                        s4 = s3\<lparr>current_addr := u_current_addr s3, u_current_addr := o_current_addr\<rparr>;
                        s5 = s4\<lparr>last_addr := u_last_addr s4, u_last_addr := o_last_addr\<rparr>;
                        s6 = s5\<lparr>modified := u_modified s5, u_modified := o_modified\<rparr>
                    in Some (True, s6))))"

section \<open>io.c: writing lines to a stream\<close>

text \<open>
  \<open>resize_buffer\<close> on a static buffer whose size is in the state: \<open>malloc\<close> or
  \<open>realloc\<close> is called only when the buffer has to grow and the size is in range.
\<close>

definition resize_static :: "32 word \<Rightarrow> 32 word \<Rightarrow> ed_state \<Rightarrow> 32 word option \<times> ed_state" where
  "resize_static sz min_size s =
     (let (ok, s1) = (if sz < min_size \<and> \<not> min_size \<ge> INT_MAX then alloc_block s else (True, s))
      in case resize_buffer ok sz min_size of
           Inl e \<Rightarrow> (None, set_error_msg (error_msg e) s1)
         | Inr c \<Rightarrow> (Some c, s1))"

text \<open>
  \<open>get_sbuf_line\<close> returns the \<open>len\<close> bytes of the line, or \<open>None\<close> for the null pointer.
  The scratch file: \<open>fseek\<close> fails for a negative position, and \<open>fread\<close> delivers the
  bytes that the file has from the position on, which may be fewer than \<open>len\<close>.
\<close>

definition get_sbuf_line :: "addr \<Rightarrow> ed_state \<Rightarrow> byte list option \<times> ed_state" where
  "get_sbuf_line lp s =
     (if lp = buffer_head then (None, s)
      else
        (let s1 = s\<lparr>seek_write := True\<rparr>;
             (seek_ok, s2) =
               (if sfpos s1 \<noteq> pos (heap s1 lp)
                then (let s' = s1\<lparr>sfpos := pos (heap s1 lp)\<rparr>
                      in if sfpos s' < 0 then (False, set_error_msg ''Cannot seek temp file'' s')
                         else (True, s'))
                else (True, s1))
         in if \<not> seek_ok then (None, s2)
            else
              (let n = len (heap s2 lp)
               in case resize_static (sbuf_bufsz s2) (word_of_int (n + 1)) s2 of
                    (None, s3) \<Rightarrow> (None, s3)
                  | (Some c, s3) \<Rightarrow>
                      (let s4 = s3\<lparr>sbuf_bufsz := c\<rparr>;
                           got = take (nat n) (drop (nat (sfpos s4)) (sfile s4))
                       in if n < 0 \<or> sfpos s4 < 0 \<or> int (length got) \<noteq> n
                          then (None, set_error_msg ''Cannot read temp file'' s4)
                          else (Some got, s4\<lparr>sfpos := sfpos s4 + n\<rparr>)))))"

definition unterminated_last_line :: "ed_state \<Rightarrow> bool \<times> ed_state" where
  "unterminated_last_line s =
     (if unterminated_line s \<noteq> None
      then (let (lp, s1) = search_line_node (last_addr s) s
            in (unterminated_line s1 = Some lp, s1))
      else (False, s))"

text \<open>
  The stream written to. \<open>fputc\<close> fails when the stream has no room left; a stream with
  \<open>room = None\<close> never fails.
\<close>

record ostream =
  written :: "byte list"
  room :: "nat option"

definition fputc :: "byte \<Rightarrow> ostream \<Rightarrow> ostream option" where
  "fputc c fp =
     (case room fp of
        None \<Rightarrow> Some (fp\<lparr>written := written fp @ [c]\<rparr>)
      | Some 0 \<Rightarrow> None
      | Some (Suc n) \<Rightarrow> Some (fp\<lparr>written := written fp @ [c], room := Some n\<rparr>))"

text \<open>The loop \<open>while (--len >= 0) if (fputc (*p++, fp) == EOF) ...\<close>.\<close>

fun put_bytes :: "byte list \<Rightarrow> ostream \<Rightarrow> bool \<times> ostream" where
  "put_bytes [] fp = (True, fp)"
| "put_bytes (c # cs) fp =
     (case fputc c fp of
        None \<Rightarrow> (False, fp)
      | Some fp1 \<Rightarrow> put_bytes cs fp1)"

text \<open>
  The loop of \<open>write_stream\<close>. The result is \<open>Some size\<close>, or \<open>None\<close> for the return
  value \<open>-1\<close>.
\<close>

function write_loop ::
  "int \<Rightarrow> int \<Rightarrow> addr \<Rightarrow> int \<Rightarrow> ostream \<Rightarrow> ed_state \<Rightarrow> int option \<times> ostream \<times> ed_state" where
  "write_loop from to lp sz fp s =
     (if from \<noteq> 0 \<and> from \<le> to then
        (case get_sbuf_line lp s of
           (None, s1) \<Rightarrow> (None, fp, s1)
         | (Some p, s1) \<Rightarrow>
             (let (nl, s2) =
                    (if from \<noteq> last_addr s1 \<or> \<not> isbinary s1 then (True, s1)
                     else (let (u, s') = unterminated_last_line s1 in (\<not> u, s')));
                  bytes = (if nl then p @ [10] else p);
                  sz1 = sz + int (length bytes)
              in case put_bytes bytes fp of
                   (False, fp1) \<Rightarrow> (None, fp1, set_error_msg ''Cannot write file'' s2)
                 | (True, fp1) \<Rightarrow> write_loop (from + 1) to (q_forw (heap s2 lp)) sz1 fp1 s2))
      else (Some sz, fp, s))"
  by pat_completeness auto
termination
  by (relation "measure (\<lambda>(from, to, lp, sz, fp, s). nat (to - from + 1))") auto

declare write_loop.simps [simp del]

definition write_stream :: "int \<Rightarrow> int \<Rightarrow> ostream \<Rightarrow> ed_state \<Rightarrow> int option \<times> ostream \<times> ed_state" where
  "write_stream from to fp s =
     (let (lp, s1) = search_line_node from s
      in write_loop from to lp 0 fp s1)"

text \<open>
  What \<open>write_stream\<close> is to write for the line at an address: its bytes in the scratch
  file, and a newline unless the line is the last one of a binary buffer and
  \<open>unterminated_line\<close> points to it.
\<close>

definition node_text :: "ed_state \<Rightarrow> addr \<Rightarrow> byte list" where
  "node_text s lp = take (nat (len (heap s lp))) (drop (nat (pos (heap s lp))) (sfile s))"

definition written_line :: "ed_state \<Rightarrow> addr list \<Rightarrow> int \<Rightarrow> byte list" where
  "written_line s ns a =
     node_text s ((buffer_head # ns) ! nat a) @
     (if a = last_addr s \<and> isbinary s \<and> unterminated_line s = Some ((buffer_head # ns) ! nat a)
      then [] else [10])"

text \<open>A line node can be read: its text lies in the scratch file and its length is in range.\<close>

definition readable :: "ed_state \<Rightarrow> addr \<Rightarrow> bool" where
  "readable s lp \<longleftrightarrow>
     0 \<le> pos (heap s lp) \<and> 0 \<le> len (heap s lp) \<and>
     pos (heap s lp) + len (heap s lp) \<le> int (length (sfile s)) \<and>
     len (heap s lp) + 1 < int_max"

text \<open>Two states with the same lines: the same nodes, scratch file, line count and binary marks.\<close>

definition same_buffer :: "ed_state \<Rightarrow> ed_state \<Rightarrow> bool" where
  "same_buffer s s' \<longleftrightarrow>
     heap s' = heap s \<and> last_addr s' = last_addr s \<and> isbinary s' = isbinary s \<and>
     unterminated_line s' = unterminated_line s \<and> sfile s' = sfile s"

text \<open>The state of \<open>get_sbuf_line\<close> after its \<open>fseek\<close> to the position of the line.\<close>

definition after_seek :: "addr \<Rightarrow> ed_state \<Rightarrow> ed_state" where
  "after_seek lp s =
     (if sfpos s \<noteq> pos (heap s lp) then s\<lparr>seek_write := True, sfpos := pos (heap s lp)\<rparr>
      else s\<lparr>seek_write := True\<rparr>)"

section \<open>buffer.c and io.c: adding lines\<close>

text \<open>
  \<open>resize_buffer\<close> on the static buffer of the function \<open>owner\<close>, whose size is
  \<open>bufsz owner\<close>.
\<close>

definition resize_buf :: "string \<Rightarrow> int \<Rightarrow> ed_state \<Rightarrow> bool \<times> ed_state" where
  "resize_buf owner min_size s =
     (case resize_static (bufsz s owner) (word_of_int min_size) s of
        (None, s1) \<Rightarrow> (False, s1)
      | (Some c, s1) \<Rightarrow> (True, s1\<lparr>bufsz := (bufsz s1)(owner := c)\<rparr>))"

text \<open>
  The command buffer is a string; reading at its end gives the terminating NUL.
  \<open>line_size\<close> is the loop \<open>for (size = 0; (*ibufpp)[size++] != '\n'; )\<close>, for a buffer
  that holds a newline.
\<close>

definition NUL :: char where
  "NUL = CHR 0x00"

definition NL :: char where
  "NL = CHR 0x0A"

definition peek :: "string \<Rightarrow> char" where
  "peek ib = (case ib of [] \<Rightarrow> NUL | c # cs \<Rightarrow> c)"

definition line_size :: "string \<Rightarrow> int" where
  "line_size ib = int (length (takeWhile (\<lambda>c. c \<noteq> NL) ib)) + 1"

definition bytes_of :: "string \<Rightarrow> byte list" where
  "bytes_of ib = map of_char ib"

text \<open>
  \<open>get_stdin_line\<close>: the characters that \<open>getchar\<close> delivers are those of \<open>stdin\<close>; at
  its end \<open>ferror\<close> holds if \<open>stdin_error\<close> is set, and \<open>feof\<close> otherwise. The result is
  the buffer, or \<open>None\<close> for the null pointer, and the size.
\<close>

fun get_stdin_chars :: "string \<Rightarrow> string \<Rightarrow> ed_state \<Rightarrow> string option \<times> int \<times> ed_state" where
  "get_stdin_chars [] acc s =
     (case resize_buf ''get_stdin_line'' (int (length acc) + 2) (s\<lparr>stdin := []\<rparr>) of
        (False, s1) \<Rightarrow> (None, 0, s1)
      | (True, s1) \<Rightarrow>
          if stdin_error s1
          then (None, 0, (set_error_msg ''Cannot read stdin'' s1)\<lparr>stdin_error := False\<rparr>)
          else (Some [], 0,
                (set_error_msg ''Unexpected end-of-file'' s1)
                  \<lparr>linenum := (if acc \<noteq> [] then linenum s1 + 1 else linenum s1)\<rparr>))"
| "get_stdin_chars (c # cs) acc s =
     (case resize_buf ''get_stdin_line'' (int (length acc) + 2) (s\<lparr>stdin := cs\<rparr>) of
        (False, s1) \<Rightarrow> (None, 0, s1)
      | (True, s1) \<Rightarrow>
          (let s2 = (if c = NUL then s1\<lparr>isbinary := True\<rparr> else s1)
           in if c \<noteq> NL then get_stdin_chars cs (acc @ [c]) s2
              else (Some (acc @ [c]), int (length acc) + 1, s2\<lparr>linenum := linenum s2 + 1\<rparr>)))"

definition get_stdin_line :: "ed_state \<Rightarrow> string option \<times> int \<times> ed_state" where
  "get_stdin_line s = get_stdin_chars (stdin s) [] s"

text \<open>
  \<open>memchr (buf, c, n)\<close>: the index of the first \<open>c\<close> among the first \<open>n\<close> bytes.
  \<open>fwrite\<close> puts the bytes into the scratch file at the position \<open>sfpos\<close>.
\<close>

definition memchr :: "byte list \<Rightarrow> byte \<Rightarrow> int \<Rightarrow> nat option" where
  "memchr buf c n =
     (let pre = take (nat n) buf
      in if c \<in> set pre then Some (length (takeWhile (\<lambda>b. b \<noteq> c) pre)) else None)"

definition fwrite :: "byte list \<Rightarrow> ed_state \<Rightarrow> ed_state" where
  "fwrite bs s =
     s\<lparr>sfile := take (nat (sfpos s)) (sfile s) @ bs @ drop (nat (sfpos s) + length bs) (sfile s)\<rparr>"

text \<open>
  \<open>put_sbuf_line\<close> returns the text that follows the newline, or \<open>None\<close> for the null
  pointer. \<open>fseek\<close> to the end of the scratch file does not fail, and \<open>fwrite\<close> fails
  only at a negative position.
\<close>

definition put_sbuf_line :: "byte list \<Rightarrow> int \<Rightarrow> ed_state \<Rightarrow> byte list option \<times> ed_state" where
  "put_sbuf_line buf sz s =
     (case memchr buf 10 sz of
        None \<Rightarrow>
          (None, set_error_msg ''internal error: unterminated line passed to put_sbuf_line'' s)
      | Some n \<Rightarrow>
          (case too_many_lines s of
             (True, s1) \<Rightarrow> (None, s1)
           | (False, s1) \<Rightarrow>
               (let s2 = (if seek_write s1
                          then s1\<lparr>sfpos := int (length (sfile s1)), seek_write := False\<rparr>
                          else s1)
                in if sfpos s2 < 0
                   then (None, set_error_msg ''Cannot write temp file'' (s2\<lparr>sfpos := - 1\<rparr>))
                   else
                     (case dup_line_node None (fwrite (take n buf) s2) of
                        (None, s3) \<Rightarrow> (None, s3)
                      | (Some lp, s3) \<Rightarrow>
                          (let s4 = s3\<lparr>heap := (heap s3)(lp := (heap s3 lp)\<lparr>pos := sfpos s3,
                                                                               len := int n\<rparr>)\<rparr>;
                               s5 = add_line_node lp s4
                           in (Some (drop (Suc n) buf), s5\<lparr>sfpos := sfpos s5 + int n\<rparr>))))))"

text \<open>\<open>up->tail = lp\<close> for the undo atom at the index \<open>up\<close>.\<close>

definition set_tail :: "nat \<Rightarrow> addr \<Rightarrow> ed_state \<Rightarrow> ed_state" where
  "set_tail up lp s = s\<lparr>ustack := (ustack s)[up := (ustack s ! up)\<lparr>tail := lp\<rparr>]\<rparr>"

text \<open>
  The loop of \<open>append_lines\<close>. The result is the value returned, the command buffer
  \<open>*ibufpp\<close> and the state.
\<close>

partial_function (option) append_loop ::
  "bool \<Rightarrow> string \<Rightarrow> bool \<Rightarrow> nat option \<Rightarrow> ed_state \<Rightarrow> (bool \<times> string \<times> ed_state) option" where
  "append_loop isglobal ib ins up s =
     (case (if \<not> isglobal
            then (case get_stdin_line s of
                    (None, sz, s1) \<Rightarrow> Inl (False, [], s1)
                  | (Some l, sz, s1) \<Rightarrow>
                      if sz \<le> 0 then Inl (True, l, s1) else Inr (l, sz, s1))
            else (if peek ib = NUL then Inl (True, ib, s) else Inr (ib, line_size ib, s))) of
        Inl r \<Rightarrow> Some r
      | Inr (ib1, sz, s1) \<Rightarrow>
          if sz = 2 \<and> peek ib1 = CHR ''.'' then Some (True, drop (nat sz) ib1, s1)
          else
            (let s2 = (if ins \<and> current_addr s1 > 0
                       then s1\<lparr>current_addr := current_addr s1 - 1\<rparr> else s1)
             in case put_sbuf_line (bytes_of ib1) sz s2 of
                  (None, s3) \<Rightarrow> Some (False, ib1, s3)
                | (Some rest, s3) \<Rightarrow>
                    do { (up1, s4) \<leftarrow>
                           (case up of
                              Some u \<Rightarrow>
                                (let (lp, s') = search_line_node (current_addr s3) s3
                                 in Some (up, set_tail u lp s'))
                            | None \<Rightarrow> push_undo_atom UADD (current_addr s3) (current_addr s3) s3);
                         if up1 = None then Some (False, ib1, s4)
                         else append_loop isglobal (drop (nat sz) ib1) False up1
                                (s4\<lparr>modified := True\<rparr>) }))"

declare append_loop.simps [code]

definition append_lines ::
  "string \<Rightarrow> int \<Rightarrow> bool \<Rightarrow> bool \<Rightarrow> ed_state \<Rightarrow> (bool \<times> string \<times> ed_state) option" where
  "append_lines ib addr ins isglobal s =
     append_loop isglobal ib ins None (s\<lparr>current_addr := addr\<rparr>)"

text \<open>The inner loop of \<open>copy_lines\<close>, \<open>for ( ; n-- > 0; np = np->q_forw)\<close>.\<close>

fun copy_range ::
  "nat \<Rightarrow> addr \<Rightarrow> nat option \<Rightarrow> ed_state \<Rightarrow> (bool \<times> addr \<times> nat option \<times> ed_state) option" where
  "copy_range 0 np up s = Some (True, np, up, s)"
| "copy_range (Suc n) np up s =
     (case too_many_lines s of
        (True, s1) \<Rightarrow> Some (False, np, up, s1)
      | (False, s1) \<Rightarrow>
          (case dup_line_node (Some np) s1 of
             (None, s2) \<Rightarrow> Some (False, np, up, s2)
           | (Some lp, s2) \<Rightarrow>
               (let s3 = add_line_node lp s2
                in do { (up1, s4) \<leftarrow>
                          (case up of
                             Some u \<Rightarrow> Some (up, set_tail u lp s3)
                           | None \<Rightarrow> push_undo_atom UADD (current_addr s3) (current_addr s3) s3);
                        if up1 = None then Some (False, np, up1, s4)
                        else copy_range n (q_forw (heap s4 np)) up1 (s4\<lparr>modified := True\<rparr>) })))"

text \<open>
  \<open>copy_lines\<close>: the outer loop runs once, or twice when the destination lies in the
  range; \<open>search_line_node (current_addr_ + 1)\<close> is called after each round.
\<close>

definition copy_lines :: "int \<Rightarrow> int \<Rightarrow> int \<Rightarrow> ed_state \<Rightarrow> (bool \<times> ed_state) option" where
  "copy_lines first second addr s =
     (let (np, s1) = search_line_node first s;
          s2 = s1\<lparr>current_addr := addr\<rparr>;
          (n, m) = (if addr \<ge> first \<and> addr < second
                    then (addr - first + 1, second - addr)
                    else (second - first + 1, 0))
      in if n > 0 then
           do { (ok, np1, up, s3) \<leftarrow> copy_range (nat n) np None s2;
                if \<not> ok then Some (False, s3)
                else
                  (let (np2, s4) = search_line_node (current_addr s3 + 1) s3
                   in if m > 0 then
                        do { (ok2, np3, up2, s5) \<leftarrow> copy_range (nat m) np2 up s4;
                             if \<not> ok2 then Some (False, s5)
                             else Some (True, snd (search_line_node (current_addr s5 + 1) s5)) }
                      else Some (True, s4)) }
         else Some (True, s2))"

definition move_lines :: "int \<Rightarrow> int \<Rightarrow> int \<Rightarrow> bool \<Rightarrow> ed_state \<Rightarrow> (bool \<times> ed_state) option" where
  "move_lines first second addr isglobal s =
     (let n = inc_addr second s;
          p = first - 1
      in if addr = first - 1 \<or> addr = second then
           (let (a2, s1) = search_line_node n s;
                (b2, s2) = search_line_node p s1;
                s3 = s2\<lparr>current_addr := second\<rparr>
            in do { s4 \<leftarrow> (if isglobal then unset_active_nodes (q_forw (heap s3 b2)) a2 s3
                           else Some s3);
                    Some (True, s4\<lparr>modified := True\<rparr>) })
         else
           do { (u1, s1) \<leftarrow> push_undo_atom UMOV p n s;
                if u1 = None then Some (False, s1)
                else do {
                  (u2, s2) \<leftarrow> push_undo_atom UMOV addr (inc_addr addr s1) s1;
                  if u2 = None then Some (False, s2)
                  else
                    (let (a1, s3) = search_line_node n s2;
                         (b1, b2, s4) =
                           (if addr < first
                            then (let (b1, t1) = search_line_node p s3;
                                      (b2, t2) = search_line_node addr t1
                                  in (b1, b2, t2))
                            else (let (b2, t1) = search_line_node addr s3;
                                      (b1, t2) = search_line_node p t1
                                  in (b1, b2, t2)));
                         a2 = q_forw (heap s4 b2);
                         h1 = link_nodes b2 (q_forw (heap s4 b1)) (heap s4);
                         h2 = link_nodes (q_back (h1 a1)) a2 h1;
                         h3 = link_nodes b1 a1 h2;
                         s5 = s4\<lparr>heap := h3,
                                 current_addr := addr + (if addr < first then second - first + 1 else 0)\<rparr>
                     in do { s6 \<leftarrow> (if isglobal then unset_active_nodes (q_forw (heap s5 b2)) a2 s5
                                    else Some s5);
                             Some (True, s6\<lparr>modified := True\<rparr>) }) } })"

text \<open>The first loop of \<open>join_lines\<close>, which collects the text of the lines.\<close>

partial_function (option) join_loop ::
  "addr \<Rightarrow> addr \<Rightarrow> byte list \<Rightarrow> ed_state \<Rightarrow> (byte list option \<times> ed_state) option" where
  "join_loop bp ep buf s =
     (if bp \<noteq> ep then
        (case get_sbuf_line bp s of
           (None, s1) \<Rightarrow> Some (None, s1)
         | (Some t, s1) \<Rightarrow>
             (let (ok, s2) = resize_buf ''join_lines'' (int (length buf) + len (heap s1 bp)) s1
              in if \<not> ok then Some (None, s2)
                 else join_loop (q_forw (heap s2 bp)) ep (buf @ t) s2))
      else Some (Some buf, s))"

declare join_loop.simps [code]

definition join_lines :: "int \<Rightarrow> int \<Rightarrow> bool \<Rightarrow> ed_state \<Rightarrow> (bool \<times> ed_state) option" where
  "join_lines from to isglobal s =
     (let (ep, s1) = search_line_node (inc_addr to s) s;
          (bp, s2) = search_line_node from s1
      in do { (r, s3) \<leftarrow> join_loop bp ep [] s2;
              case r of
                None \<Rightarrow> Some (False, s3)
              | Some buf \<Rightarrow>
                  (case resize_buf ''join_lines'' (int (length buf) + 2) s3 of
                     (False, s4) \<Rightarrow> Some (False, s4)
                   | (True, s4) \<Rightarrow>
                       do { (ok, s5) \<leftarrow> delete_lines from to isglobal s4;
                            if \<not> ok then Some (False, s5)
                            else
                              (case put_sbuf_line (buf @ [10, 0]) (int (length buf) + 2)
                                      (s5\<lparr>current_addr := from - 1\<rparr>) of
                                 (None, s6) \<Rightarrow> Some (False, s6)
                               | (Some rest, s6) \<Rightarrow>
                                   do { (up, s7) \<leftarrow> push_undo_atom UADD (current_addr s6)
                                                      (current_addr s6) s6;
                                        if up = None then Some (False, s7)
                                        else Some (True, s7\<lparr>modified := True\<rparr>) }) }) })"

text \<open>The loop of \<open>put_lines\<close> over the yank buffer.\<close>

partial_function (option) put_loop ::
  "addr \<Rightarrow> nat option \<Rightarrow> ed_state \<Rightarrow> (bool \<times> ed_state) option" where
  "put_loop lp up s =
     (if lp \<noteq> yank_buffer_head then
        (let (many, s1) = too_many_lines s
         in if many then Some (False, s1)
            else
              (case dup_line_node (Some lp) s1 of
                 (None, s2) \<Rightarrow> Some (False, s2)
               | (Some p, s2) \<Rightarrow>
                   (let s3 = add_line_node p s2
                    in do { (up1, s4) \<leftarrow>
                              (case up of
                                 Some u \<Rightarrow> Some (up, set_tail u p s3)
                               | None \<Rightarrow> push_undo_atom UADD (current_addr s3) (current_addr s3) s3);
                            if up1 = None then Some (False, s4)
                            else put_loop (q_forw (heap s4 lp)) up1 (s4\<lparr>modified := True\<rparr>) })))
      else Some (True, s))"

declare put_loop.simps [code]

definition put_lines :: "int \<Rightarrow> ed_state \<Rightarrow> (bool \<times> ed_state) option" where
  "put_lines addr s =
     (let lp = q_forw (heap s yank_buffer_head)
      in if lp = yank_buffer_head then Some (False, set_error_msg ''Nothing to put'' s)
         else put_loop lp None (s\<lparr>current_addr := addr\<rparr>))"

text \<open>
  \<open>get_line_node_addr\<close>: the loop
  \<open>while (p != lp && (p = p->q_forw) != &buffer_head) ++addr\<close>; \<open>lp\<close> may be null.
\<close>

partial_function (option) line_addr_loop ::
  "addr \<Rightarrow> addr option \<Rightarrow> int \<Rightarrow> (addr \<Rightarrow> line_t) \<Rightarrow> (addr \<times> int) option" where
  "line_addr_loop p lp a h =
     (if Some p \<noteq> lp
      then (let p1 = q_forw (h p)
            in if p1 \<noteq> buffer_head then line_addr_loop p1 lp (a + 1) h else Some (p1, a))
      else Some (p, a))"

declare line_addr_loop.simps [code]

definition invalid_address :: "ed_state \<Rightarrow> ed_state" where
  "invalid_address s = set_error_msg ''Invalid address'' s"

definition get_line_node_addr :: "addr option \<Rightarrow> ed_state \<Rightarrow> (int \<times> ed_state) option" where
  "get_line_node_addr lp s =
     do { (p, a) \<leftarrow> line_addr_loop buffer_head lp 0 (heap s);
          if a \<noteq> 0 \<and> p = buffer_head then Some (- 1, invalid_address s) else Some (a, s) }"

text \<open>
  \<open>close_sbuf\<close> and \<open>open_sbuf\<close>: \<open>fclose\<close> and \<open>tmpfile\<close> succeed, and the new scratch
  file is empty.
\<close>

definition close_sbuf :: "ed_state \<Rightarrow> (bool \<times> ed_state) option" where
  "close_sbuf s =
     do { s1 \<leftarrow> clear_yank_buffer s;
          s2 \<leftarrow> clear_undo_stack s1;
          Some (True, s2\<lparr>sfpos := 0, seek_write := False\<rparr>) }"

definition open_sbuf :: "ed_state \<Rightarrow> bool \<times> ed_state" where
  "open_sbuf s = (True, s\<lparr>isbinary := False, unterminated_line := None, sfile := []\<rparr>)"

section \<open>The environment of the editor\<close>

text \<open>
  The command line flags of main.c and what the editor gets from the C library and the
  operating system. \<open>regcomp_lib\<close> compiles a pattern to a compiled expression, here a
  number, or gives the text of \<open>regerror\<close>; \<open>regexec_lib\<close> says whether a text matches;
  \<open>replace_lib\<close> gives, for a compiled expression, a replacement template, the count
  \<open>snum\<close>, \<open>isbinary\<close> and the text of a line, the text that \<open>line_replace\<close> produces: a message when
  it fails, \<open>None\<close> when nothing is replaced. \<open>pathconf_lib\<close> is the value of
  \<open>pathconf ("/", _PC_PATH_MAX)\<close> with the \<open>errno\<close> it leaves. \<open>popen_r\<close> is the output
  of a shell command, \<open>None\<close> when \<open>popen\<close> fails, \<open>popen_w\<close> says whether \<open>popen\<close> for
  writing succeeds, \<open>fopen_w\<close> whether a file can be opened for writing, \<open>read_fails\<close>
  whether reading a file or pipe ends in an error, \<open>close_fails\<close> whether \<open>fclose\<close> or
  \<open>pclose\<close> fails, \<open>file_room\<close> how many bytes can be written (\<open>None\<close>: no limit), and
  \<open>system_lib\<close> is the value of \<open>system\<close>. \<open>global_lib\<close> stands for \<open>build_active_list\<close>
  and \<open>exec_global\<close>, which re-enter the dispatcher for each line of the active list:
  it gives the status, the print flags, the command buffer and the state.
  What the editor prints is not modelled.
\<close>

record env =
  traditional :: bool
  restricted :: bool
  scripted :: bool
  strip_cr :: bool
  extended_regexp :: bool
  regcomp_lib :: "string \<Rightarrow> bool \<Rightarrow> bool \<Rightarrow> string + nat"
  regexec_lib :: "nat \<Rightarrow> byte list \<Rightarrow> bool"
  replace_lib :: "nat \<Rightarrow> string \<Rightarrow> int \<Rightarrow> bool \<Rightarrow> byte list \<Rightarrow> string + byte list option"
  pathconf_lib :: "int \<times> bool"
  popen_r :: "string \<Rightarrow> byte list option"
  popen_w :: "string \<Rightarrow> bool"
  fopen_w :: "string \<Rightarrow> bool"
  read_fails :: "string \<Rightarrow> bool"
  close_fails :: "string \<Rightarrow> bool"
  file_room :: "string \<Rightarrow> nat option"
  system_lib :: "string \<Rightarrow> int"
  global_lib :: "char \<Rightarrow> string \<Rightarrow> ed_state \<Rightarrow> (int \<times> int \<times> string \<times> ed_state) option"

section \<open>io.c: printing, reading and writing\<close>

definition pf_l :: int where "pf_l = 1"
definition pf_n :: int where "pf_n = 2"
definition pf_p :: int where "pf_p = 4"

partial_function (option) print_loop ::
  "addr \<Rightarrow> addr \<Rightarrow> int \<Rightarrow> ed_state \<Rightarrow> (bool \<times> ed_state) option" where
  "print_loop bp ep from s =
     (if bp \<noteq> ep then
        (case get_sbuf_line bp s of
           (None, s1) \<Rightarrow> Some (False, s1)
         | (Some t, s1) \<Rightarrow>
             print_loop (q_forw (heap s1 bp)) ep (from + 1) (s1\<lparr>current_addr := from\<rparr>))
      else Some (True, s))"

declare print_loop.simps [code]

definition print_lines :: "int \<Rightarrow> int \<Rightarrow> int \<Rightarrow> ed_state \<Rightarrow> (bool \<times> ed_state) option" where
  "print_lines from to pflags s =
     (let (ep, s1) = search_line_node (inc_addr to s) s;
          (bp, s2) = search_line_node from s1
      in if from = 0 then Some (False, invalid_address s2)
         else print_loop bp ep from s2)"

definition BSL :: char where
  "BSL = CHR 0x5C"

text \<open>\<open>trailing_escape\<close>: whether the first \<open>n\<close> characters end in an odd number of backslashes.\<close>

definition trailing_escape :: "string \<Rightarrow> int \<Rightarrow> bool" where
  "trailing_escape t n = odd (length (takeWhile (\<lambda>c. c = BSL) (rev (take (nat n) t))))"

text \<open>
  \<open>--len; buf[len-1] = '\n'; if (strip_escaped_newlines) --len\<close> on a buffer that ends in
  a backslash and a newline.
\<close>

definition strip_trailing_esc :: "bool \<Rightarrow> string \<Rightarrow> string" where
  "strip_trailing_esc strip buf = take (length buf - 2) buf @ (if strip then [] else [NL])"

partial_function (option) extended_loop ::
  "bool \<Rightarrow> string \<Rightarrow> ed_state \<Rightarrow> (string option \<times> ed_state) option" where
  "extended_loop strip buf s =
     (case get_stdin_line s of
        (None, len2, s1) \<Rightarrow> Some (None, s1)
      | (Some l, len2, s1) \<Rightarrow>
          if len2 \<le> 0 then Some (None, s1)
          else
            (let (ok, s2) = resize_buf ''get_extended_line'' (int (length buf) + len2 + 1) s1
             in if \<not> ok then Some (None, s2)
                else if len2 < 2 \<or> \<not> trailing_escape (buf @ l) (int (length (buf @ l)) - 1)
                then Some (Some (buf @ l), s2)
                else extended_loop strip (strip_trailing_esc strip (buf @ l)) s2))"

declare extended_loop.simps [code]

text \<open>
  \<open>get_extended_line\<close> gives the value returned, the command buffer \<open>*ibufpp\<close>, the
  length \<open>*lenp\<close> and the state.
\<close>

definition get_extended_line ::
  "string \<Rightarrow> bool \<Rightarrow> ed_state \<Rightarrow> (bool \<times> string \<times> int \<times> ed_state) option" where
  "get_extended_line ib strip s =
     (let n = line_size ib
      in if n < 2 \<or> \<not> trailing_escape ib (n - 1) then Some (True, ib, n, s)
         else
           (let (ok, s1) = resize_buf ''get_extended_line'' (n + 1) s
            in if \<not> ok then Some (False, ib, 0, s1)
               else do { (r, s2) \<leftarrow> extended_loop strip (strip_trailing_esc strip (take (nat n) ib)) s1;
                         case r of
                           None \<Rightarrow> Some (False, ib, 0, s2)
                         | Some buf \<Rightarrow> Some (True, buf, int (length buf), s2) }))"

text \<open>\<open>strip_escapes\<close>, from signal.c.\<close>

fun unescape :: "string \<Rightarrow> string" where
  "unescape [] = []"
| "unescape (c # cs) =
     (if c = BSL then (case cs of [] \<Rightarrow> [] | d # ds \<Rightarrow> d # unescape ds)
      else c # unescape cs)"

definition strip_escapes :: "string \<Rightarrow> ed_state \<Rightarrow> string option \<times> ed_state" where
  "strip_escapes p s =
     (case resize_buf ''strip_escapes'' (int (length p) + 1) s of
        (False, s1) \<Rightarrow> (None, s1)
      | (True, s1) \<Rightarrow> (Some (unescape p), s1))"

text \<open>
  \<open>read_stream_line\<close> on a stream with the bytes \<open>cs\<close> left: the result is the buffer,
  or \<open>None\<close> for the null pointer, the size, \<open>*newline_addedp\<close>, the rest of the stream
  and the state.
\<close>

fun read_stream_chars ::
  "env \<Rightarrow> bool \<Rightarrow> byte list \<Rightarrow> byte list \<Rightarrow> bool \<Rightarrow> ed_state
    \<Rightarrow> byte list option \<times> int \<times> bool \<times> byte list \<times> ed_state" where
  "read_stream_chars E rerr [] acc na s =
     (case resize_buf ''read_stream_line'' (int (length acc) + 2) s of
        (False, s1) \<Rightarrow> (None, 0, na, [], s1)
      | (True, s1) \<Rightarrow>
          if rerr then (None, 0, na, [], set_error_msg ''Cannot read input file'' s1)
          else if acc \<noteq> []
          then (Some (acc @ [10]),
                (if \<not> isbinary s1 then int (length acc) + 1 else int (length acc)), True, [], s1)
          else (Some [], 0, na, [], s1))"
| "read_stream_chars E rerr (c # cs) acc na s =
     (case resize_buf ''read_stream_line'' (int (length acc) + 2) s of
        (False, s1) \<Rightarrow> (None, 0, na, c # cs, s1)
      | (True, s1) \<Rightarrow>
          if c = 0 then read_stream_chars E rerr cs (acc @ [c]) na (s1\<lparr>isbinary := True\<rparr>)
          else if c = 10 then
            (if strip_cr E \<and> length acc > 0 \<and> last acc = 13
             then (Some (butlast acc @ [10]), int (length acc), na, cs, s1)
             else (Some (acc @ [10]), int (length acc) + 1, na, cs, s1))
          else read_stream_chars E rerr cs (acc @ [c]) na s1)"

definition read_stream_line ::
  "env \<Rightarrow> bool \<Rightarrow> byte list \<Rightarrow> bool \<Rightarrow> ed_state
    \<Rightarrow> byte list option \<times> int \<times> bool \<times> byte list \<times> ed_state" where
  "read_stream_line E rerr fp na s = read_stream_chars E rerr fp [] na s"

text \<open>The loop of \<open>read_stream\<close>; the result is the total size, or \<open>None\<close> for \<open>-1\<close>.\<close>

partial_function (option) read_loop ::
  "env \<Rightarrow> bool \<Rightarrow> byte list \<Rightarrow> addr \<Rightarrow> nat option \<Rightarrow> int \<Rightarrow> bool \<Rightarrow> ed_state
    \<Rightarrow> (int option \<times> bool \<times> ed_state) option" where
  "read_loop E rerr fp lp up tot na s =
     (case read_stream_line E rerr fp na s of
        (None, sz, na1, fp1, s1) \<Rightarrow> Some (None, na1, s1)
      | (Some t, sz, na1, fp1, s1) \<Rightarrow>
          if sz \<le> 0 then Some (Some tot, na1, s1)
          else
            (case put_sbuf_line t (sz + (if na1 then 1 else 0)) s1 of
               (None, s2) \<Rightarrow> Some (None, na1, s2)
             | (Some rest, s2) \<Rightarrow>
                 do { (up1, s3) \<leftarrow>
                        (case up of
                           Some u \<Rightarrow> Some (up, set_tail u (q_forw (heap s2 lp)) s2)
                         | None \<Rightarrow> push_undo_atom UADD (current_addr s2) (current_addr s2) s2);
                      if up1 = None then Some (None, na1, s3)
                      else read_loop E rerr fp1 (q_forw (heap s2 lp)) up1 (tot + sz) na1 s3 }))"

declare read_loop.simps [code]

definition read_stream :: "env \<Rightarrow> bool \<Rightarrow> byte list \<Rightarrow> int \<Rightarrow> ed_state \<Rightarrow> (int option \<times> ed_state) option" where
  "read_stream E rerr fp addr s =
     (let (lp, s1) = search_line_node addr s;
          o_isbinary = isbinary s1;
          appended = (addr = last_addr s1);
          (o_unterminated_last_line, s2) = unterminated_last_line s1;
          s3 = s2\<lparr>current_addr := addr\<rparr>
      in do { (r, newline_added, s4) \<leftarrow> read_loop E rerr fp lp None 0 False s3;
              case r of
                None \<Rightarrow> Some (None, s4)
              | Some tot \<Rightarrow>
                  (let total1 = (if \<not> appended \<and> isbinary s4 \<and> \<not> o_isbinary \<and> newline_added
                                 then tot + 1 else tot);
                       s5 = (if appended \<and> isbinary s4 \<and> (newline_added \<or> total1 = 0)
                             then (let (l, s') = search_line_node (last_addr s4) s4
                                   in s'\<lparr>unterminated_line := Some l\<rparr>)
                             else s4)
                   in Some (Some total1, s5)) })"

text \<open>
  \<open>read_file\<close>: a name that begins with \<open>!\<close> is a shell command, whose output \<open>popen\<close>
  delivers; another name is looked up in the files \<open>fs\<close>.
\<close>

definition read_file :: "env \<Rightarrow> string \<Rightarrow> int \<Rightarrow> ed_state \<Rightarrow> (int \<times> ed_state) option" where
  "read_file E filename addr s =
     (case (if peek filename = CHR ''!'' then (Some (popen_r E (tl filename)), s)
            else (case strip_escapes filename s of
                    (None, s1) \<Rightarrow> (None, s1)
                  | (Some stripped_name, s1) \<Rightarrow> (Some (fs s1 stripped_name), s1))) of
        (None, s1) \<Rightarrow> Some (- 2, s1)
      | (Some None, s1) \<Rightarrow> Some (- 1, set_error_msg ''Cannot open input file'' s1)
      | (Some (Some fp), s1) \<Rightarrow>
          do { (sz, s2) \<leftarrow> read_stream E (read_fails E filename) fp addr s1;
               if sz = None then Some (- 2, s2)
               else if close_fails E filename
               then Some (- 2, set_error_msg ''Cannot close input file'' s2)
               else Some (current_addr s2 - addr, s2) })"

text \<open>
  \<open>write_file\<close>: the bytes written to a file are stored in \<open>fs\<close>, after its content when
  the mode is \<open>a\<close>; those written to a shell command are not kept.
\<close>

definition write_file :: "env \<Rightarrow> string \<Rightarrow> string \<Rightarrow> int \<Rightarrow> int \<Rightarrow> ed_state \<Rightarrow> (int \<times> ed_state) option" where
  "write_file E filename mode from to s =
     (case (if peek filename = CHR ''!''
            then (Some (if popen_w E (tl filename) then Some (None, []) else None), s)
            else (case strip_escapes filename s of
                    (None, s1) \<Rightarrow> (None, s1)
                  | (Some stripped_name, s1) \<Rightarrow>
                      (Some (if fopen_w E stripped_name
                             then Some (Some stripped_name,
                                        if mode = ''a''
                                        then (case fs s1 stripped_name of None \<Rightarrow> [] | Some c \<Rightarrow> c)
                                        else [])
                             else None), s1))) of
        (None, s1) \<Rightarrow> Some (- 1, s1)
      | (Some None, s1) \<Rightarrow> Some (- 1, set_error_msg ''Cannot open output file'' s1)
      | (Some (Some (name, old)), s1) \<Rightarrow>
          (case write_stream from to \<lparr>written = old, room = file_room E filename\<rparr> s1 of
             (sz, fp, s2) \<Rightarrow>
               (let s3 = (case name of None \<Rightarrow> s2 | Some f \<Rightarrow> s2\<lparr>fs := (fs s2)(f \<mapsto> written fp)\<rparr>)
                in if sz = None then Some (- 1, s3)
                   else if close_fails E filename
                   then Some (- 1, set_error_msg ''Cannot close output file'' s3)
                   else Some ((if from \<noteq> 0 \<and> from \<le> to then to - from + 1 else 0), s3))))"

section \<open>regex.c: patterns, searching and substituting\<close>

definition subst_regex :: "ed_state \<Rightarrow> bool" where
  "subst_regex s \<longleftrightarrow> subst_regexp (rcache s) \<noteq> None"

definition nul_to_newline :: "byte list \<Rightarrow> byte list" where
  "nul_to_newline t = map (\<lambda>b. if b = 0 then 10 else b) t"

text \<open>
  \<open>parse_char_class\<close> returns the text from the closing bracket on, or \<open>None\<close> for the
  null pointer. \<open>In_class d c\<close> is the inner loop, for a class \<open>[d ... d]\<close> with the
  character \<open>c\<close> read last. A command buffer ends with a newline; at the end of one
  without it the result is \<open>None\<close>.
\<close>

datatype class_mode = Out_class | In_class char char

fun class_loop :: "class_mode \<Rightarrow> string \<Rightarrow> string option" where
  "class_loop m [] = None"
| "class_loop Out_class (x # xs) =
     (if x = CHR '']'' then Some (x # xs)
      else if x = NL then None
      else if x = CHR ''['' \<and> (peek xs = CHR ''.'' \<or> peek xs = CHR '':'' \<or> peek xs = CHR ''='')
      then class_loop (In_class (peek xs) (peek (tl xs))) (tl xs)
      else class_loop Out_class xs)"
| "class_loop (In_class d c) (x # xs) =
     (if x = CHR '']'' \<and> c = d then class_loop Out_class xs
      else if x = NL then None
      else class_loop (In_class d x) xs)"

definition parse_char_class :: "string \<Rightarrow> string option" where
  "parse_char_class p =
     (let p1 = (if peek p = CHR ''^'' then tl p else p);
          p2 = (if peek p1 = CHR '']'' then tl p1 else p1)
      in class_loop Out_class p2)"

text \<open>
  The loop of \<open>extract_pattern\<close> that looks for the end \<open>nd\<close> of the pattern: the result
  is an error message or the text from \<open>nd\<close> on.
\<close>

partial_function (option) pattern_end :: "char \<Rightarrow> string \<Rightarrow> (string + string) option" where
  "pattern_end delimiter nd =
     (if peek nd \<noteq> delimiter \<and> peek nd \<noteq> NL then
        (if peek nd = CHR ''['' then
           (case parse_char_class (tl nd) of
              None \<Rightarrow> Some (Inl ''Unbalanced brackets ([])'')
            | Some r \<Rightarrow> pattern_end delimiter (tl r))
         else if peek nd = BSL \<and> peek (tl nd) = NL then Some (Inl (''Trailing backslash ('' @ [BSL] @ '')''))
         else if peek nd = BSL then pattern_end delimiter (tl (tl nd))
         else pattern_end delimiter (tl nd))
      else Some (Inr nd))"

declare pattern_end.simps [code]

text \<open>
  \<open>extract_pattern\<close> gives the pattern, or \<open>None\<close> for the null pointer, and the command
  buffer.
\<close>

definition extract_pattern ::
  "string \<Rightarrow> char \<Rightarrow> ed_state \<Rightarrow> (string option \<times> string \<times> ed_state) option" where
  "extract_pattern ib delimiter s =
     do { r \<leftarrow> pattern_end delimiter ib;
          case r of
            Inl msg \<Rightarrow> Some (None, ib, set_error_msg msg s)
          | Inr nd \<Rightarrow>
              (let n = length ib - length nd
               in case resize_buf ''extract_pattern'' (int n + 1) s of
                    (False, s1) \<Rightarrow> Some (None, ib, s1)
                  | (True, s1) \<Rightarrow>
                      Some (Some (if isbinary s1
                                  then map (\<lambda>c. if c = NUL then NL else c) (take n ib)
                                  else take n ib), nd, s1)) }"

text \<open>\<open>compile_regex\<close> with the flags, the library and the pool of the state.\<close>

definition compile_re :: "env \<Rightarrow> string \<Rightarrow> bool \<Rightarrow> ed_state \<Rightarrow> nat option \<times> ed_state" where
  "compile_re E pat ignore_case s =
     (case compile_regex (regcomp_lib E) (extended_regexp E) pat ignore_case (rcache s) of
        (Inl e, rc) \<Rightarrow> (None, set_error_msg (error_msg e) (s\<lparr>rcache := rc\<rparr>))
      | (Inr exp, rc) \<Rightarrow> (Some exp, s\<lparr>rcache := rc\<rparr>))"

definition inv_i_suf :: string where
  "inv_i_suf = ''Suffix 'I' not allowed on empty regexp''"

definition inv_pat_del :: string where
  "inv_pat_del = ''Invalid pattern delimiter''"

definition mis_pat_del :: string where
  "mis_pat_del = ''Missing pattern delimiter''"

definition no_match :: string where
  "no_match = ''No match''"

definition no_prev_pat :: string where
  "no_prev_pat = ''No previous pattern''"

definition no_prev_subst :: string where
  "no_prev_subst = ''No previous substitution''"

text \<open>
  \<open>get_compiled_regex\<close> gives the slot of the compiled expression, or \<open>None\<close> for the
  null pointer, and the command buffer.
\<close>

definition get_compiled_regex ::
  "env \<Rightarrow> string \<Rightarrow> ed_state \<Rightarrow> (nat option \<times> string \<times> ed_state) option" where
  "get_compiled_regex E ib s =
     (let delimiter = peek ib
      in if delimiter = CHR '' '' \<or> delimiter = NL then Some (None, ib, set_error_msg inv_pat_del s)
         else
           (let ib1 = tl ib
            in if peek ib1 = delimiter \<or> peek ib1 = NL then
                 (if last_regexp (rcache s) = None then Some (None, ib1, set_error_msg no_prev_pat s)
                  else if peek ib1 = delimiter \<and> peek (tl ib1) = CHR ''I''
                  then Some (None, tl ib1, set_error_msg inv_i_suf s)
                  else Some (last_regexp (rcache s),
                             (if peek ib1 = delimiter then tl ib1 else ib1), s))
               else
                 do { (pat, ib2, s1) \<leftarrow> extract_pattern ib1 delimiter s;
                      case pat of
                        None \<Rightarrow> Some (None, ib2, s1)
                      | Some pt \<Rightarrow>
                          (if peek ib2 = delimiter
                           then (if peek (tl ib2) = CHR ''I''
                                 then (case compile_re E pt True s1 of
                                         (r, s2) \<Rightarrow> Some (r, tl (tl ib2), s2))
                                 else (case compile_re E pt False s1 of
                                         (r, s2) \<Rightarrow> Some (r, tl ib2, s2)))
                           else (case compile_re E pt False s1 of
                                   (r, s2) \<Rightarrow> Some (r, ib2, s2))) }))"

text \<open>\<open>get_pattern_for_s\<close> gives the pattern, or \<open>None\<close> for the null pointer.\<close>

definition get_pattern_for_s ::
  "string \<Rightarrow> ed_state \<Rightarrow> (string option \<times> string \<times> ed_state) option" where
  "get_pattern_for_s ib s =
     (let delimiter = peek ib
      in if delimiter = CHR '' '' \<or> delimiter = NL then Some (None, ib, set_error_msg inv_pat_del s)
         else if peek (tl ib) = delimiter then
           (if last_regexp (rcache s) = None then Some (None, tl ib, set_error_msg no_prev_pat s)
            else Some (Some [], tl ib, s))
         else
           do { (pat, ib2, s1) \<leftarrow> extract_pattern (tl ib) delimiter s;
                if pat = None then Some (None, ib2, s1)
                else if peek ib2 \<noteq> delimiter then Some (None, ib2, set_error_msg mis_pat_del s1)
                else Some (pat, ib2, s1) })"

text \<open>\<open>set_subst_regex\<close>, for a pattern that is not null.\<close>

definition set_subst_regex :: "env \<Rightarrow> string \<Rightarrow> bool \<Rightarrow> ed_state \<Rightarrow> bool \<times> ed_state" where
  "set_subst_regex E pat ignore_case s =
     (if pat = [] \<and> ignore_case then (False, set_error_msg inv_i_suf s)
      else
        (let (exp, s1) = (if pat \<noteq> [] then compile_re E pat ignore_case s
                          else (last_regexp (rcache s), s))
         in case exp of
              None \<Rightarrow> (False, s1)
            | Some e \<Rightarrow>
                if exp \<noteq> subst_regexp (rcache s1)
                then (let rc = rcache s1;
                          st = (case subst_regexp rc of None \<Rightarrow> store rc | Some i \<Rightarrow> regfree i (store rc))
                      in (True, s1\<lparr>rcache := rc\<lparr>store := st, subst_regexp := exp\<rparr>\<rparr>))
                else (True, s1)))"

definition replace_subst_re_by_search_re :: "ed_state \<Rightarrow> bool \<times> ed_state" where
  "replace_subst_re_by_search_re s =
     (let rc = rcache s
      in if last_regexp rc = None then (False, set_error_msg no_prev_pat s)
         else if last_regexp rc \<noteq> subst_regexp rc
         then (let st = (case subst_regexp rc of None \<Rightarrow> store rc | Some i \<Rightarrow> regfree i (store rc))
               in (True, s\<lparr>rcache := rc\<lparr>store := st, subst_regexp := last_regexp rc\<rparr>\<rparr>))
         else (True, s))"

text \<open>
  \<open>regexec\<close> on the expression in a slot of the pool; a slot without a compiled
  expression matches nothing.
\<close>

definition regexec :: "env \<Rightarrow> nat \<Rightarrow> byte list \<Rightarrow> ed_state \<Rightarrow> bool" where
  "regexec E exp t s =
     (case store (rcache s) ! exp of None \<Rightarrow> False | Some r \<Rightarrow> regexec_lib E r t)"

text \<open>The loop of \<open>next_matching_node_addr\<close>; the result is the address, or \<open>-1\<close>.\<close>

partial_function (option) match_loop ::
  "env \<Rightarrow> bool \<Rightarrow> nat \<Rightarrow> int \<Rightarrow> ed_state \<Rightarrow> (int \<times> ed_state) option" where
  "match_loop E forward exp addr s =
     (let a = (if forward then inc_addr addr s else dec_addr addr s)
      in if a \<noteq> 0 then
           (let (lp, s1) = search_line_node a s
            in case get_sbuf_line lp s1 of
                 (None, s2) \<Rightarrow> Some (- 1, s2)
               | (Some t, s2) \<Rightarrow>
                   if regexec E exp (if isbinary s2 then nul_to_newline t else t) s2
                   then Some (a, s2)
                   else if a \<noteq> current_addr s2 then match_loop E forward exp a s2
                   else Some (- 1, set_error_msg no_match s2))
         else if a \<noteq> current_addr s then match_loop E forward exp a s
         else Some (- 1, set_error_msg no_match s))"

declare match_loop.simps [code]

definition next_matching_node_addr ::
  "env \<Rightarrow> string \<Rightarrow> ed_state \<Rightarrow> (int \<times> string \<times> ed_state) option" where
  "next_matching_node_addr E ib s =
     do { (exp, ib1, s1) \<leftarrow> get_compiled_regex E ib s;
          case exp of
            None \<Rightarrow> Some (- 1, ib1, s1)
          | Some e \<Rightarrow>
              do { (a, s2) \<leftarrow> match_loop E (peek ib = CHR ''/'') e (current_addr s1) s1;
                   Some (a, ib1, s2) } }"

text \<open>
  The loop of \<open>extract_replacement\<close>: the result is the text copied, or \<open>None\<close> when the
  function returns false, and the command buffer.
\<close>

partial_function (option) replacement_loop ::
  "char \<Rightarrow> bool \<Rightarrow> string \<Rightarrow> string \<Rightarrow> ed_state \<Rightarrow> (string option \<times> string \<times> ed_state) option" where
  "replacement_loop delimiter isglobal ib buf s =
     (if peek ib \<noteq> delimiter \<and> \<not> (peek ib = NL \<and> (\<not> isglobal \<or> peek (tl ib) = NUL)) then
        (let (ok, s1) = resize_buf ''extract_replacement'' (int (length buf) + 2) s
         in if \<not> ok then Some (None, ib, s1)
            else if peek ib = BSL then
              (if peek (tl ib) = NL \<and> \<not> isglobal then
                 (case get_stdin_line s1 of
                    (None, sz, s2) \<Rightarrow> Some (None, [], s2)
                  | (Some l, sz, s2) \<Rightarrow>
                      if sz \<le> 0 then Some (None, l, s2)
                      else replacement_loop delimiter isglobal l (buf @ [BSL, NL]) s2)
               else replacement_loop delimiter isglobal (tl (tl ib)) (buf @ [BSL, peek (tl ib)]) s1)
            else replacement_loop delimiter isglobal (tl ib) (buf @ [peek ib]) s1)
      else Some (Some buf, ib, s))"

declare replacement_loop.simps [code]

definition extract_replacement ::
  "string \<Rightarrow> bool \<Rightarrow> ed_state \<Rightarrow> (bool \<times> string \<times> ed_state) option" where
  "extract_replacement ib isglobal s =
     (let delimiter = peek ib
      in if delimiter = NL then Some (False, ib, set_error_msg mis_pat_del s)
         else
           (let ib1 = tl ib
            in if peek ib1 = CHR ''%'' \<and>
                  (peek (tl ib1) = delimiter \<or>
                   (peek (tl ib1) = NL \<and> (\<not> isglobal \<or> peek (tl (tl ib1)) = NUL)))
               then (if rbuf s = None then Some (False, tl ib1, set_error_msg no_prev_subst s)
                     else Some (True, tl ib1, s))
               else
                 do { (r, ib2, s1) \<leftarrow> replacement_loop delimiter isglobal ib1 [] s;
                      case r of
                        None \<Rightarrow> Some (False, ib2, s1)
                      | Some buf \<Rightarrow>
                          (case resize_buf ''extract_replacement'' (int (length buf) + 1) s1 of
                             (False, s2) \<Rightarrow> Some (False, ib2, s2)
                           | (True, s2) \<Rightarrow>
                               Some (True, ib2,
                                     s2\<lparr>rbuf := Some buf,
                                        bufsz := (bufsz s2)
                                          (''extract_replacement'' := bufsz s2 ''rbuf'',
                                           ''rbuf'' := bufsz s2 ''extract_replacement'')\<rparr>)) }))"

text \<open>
  \<open>line_replace\<close>: the new text of the line, with its newline; the empty text when the
  line does not change, and \<open>None\<close> for the value \<open>-1\<close>.
\<close>

definition line_replace :: "env \<Rightarrow> addr \<Rightarrow> int \<Rightarrow> ed_state \<Rightarrow> byte list option \<times> ed_state" where
  "line_replace E lp snum s =
     (case get_sbuf_line lp s of
        (None, s1) \<Rightarrow> (None, s1)
      | (Some t, s1) \<Rightarrow>
          (case (case subst_regexp (rcache s1) of
                   None \<Rightarrow> None
                 | Some i \<Rightarrow> store (rcache s1) ! i) of
             None \<Rightarrow> (Some [], s1)
           | Some r \<Rightarrow>
               (case replace_lib E r (case rbuf s1 of None \<Rightarrow> [] | Some b \<Rightarrow> b) snum
                       (isbinary s1) t of
                  Inl msg \<Rightarrow> (None, set_error_msg msg s1)
                | Inr None \<Rightarrow> (Some [], s1)
                | Inr (Some new) \<Rightarrow> (Some new, s1))))"

text \<open>The loop \<open>do ... while (txt != eot)\<close> of \<open>search_and_replace\<close>.\<close>

partial_function (option) put_text_loop ::
  "byte list \<Rightarrow> nat option \<Rightarrow> ed_state \<Rightarrow> (bool \<times> ed_state) option" where
  "put_text_loop txt up s =
     (case put_sbuf_line txt (int (length txt)) s of
        (None, s1) \<Rightarrow> Some (False, s1)
      | (Some rest, s1) \<Rightarrow>
          do { (up1, s2) \<leftarrow>
                 (case up of
                    Some u \<Rightarrow>
                      (let (lp, s') = search_line_node (current_addr s1) s1
                       in Some (up, set_tail u lp s'))
                  | None \<Rightarrow> push_undo_atom UADD (current_addr s1) (current_addr s1) s1);
               if up1 = None then Some (False, s2)
               else if rest \<noteq> [] then put_text_loop rest up1 s2
               else Some (True, s2) })"

declare put_text_loop.simps [code]

text \<open>
  The loop over the lines of \<open>search_and_replace\<close>: \<open>n\<close> is \<open>second_addr - first_addr\<close>;
  the result is \<open>match_found\<close>, or \<open>None\<close> when the function returns false in the loop.
\<close>

partial_function (option) replace_loop ::
  "env \<Rightarrow> int \<Rightarrow> int \<Rightarrow> int \<Rightarrow> int \<Rightarrow> bool \<Rightarrow> bool \<Rightarrow> ed_state \<Rightarrow> (bool option \<times> ed_state) option" where
  "replace_loop E lc addr n snum isglobal match_found s =
     (if lc \<le> n then
        (let (lp, s1) = search_line_node addr s
         in case line_replace E lp snum s1 of
              (None, s2) \<Rightarrow> Some (None, s2)
            | (Some t, s2) \<Rightarrow>
                if t \<noteq> [] then
                  do { (ok, s3) \<leftarrow> delete_lines addr addr isglobal s2;
                       if \<not> ok then Some (None, s3)
                       else
                         do { (ok2, s4) \<leftarrow> put_text_loop t None (s3\<lparr>current_addr := addr - 1\<rparr>);
                              if \<not> ok2 then Some (None, s4)
                              else replace_loop E (lc + 1) (current_addr s4 + 1) n snum isglobal
                                     True s4 } }
                else replace_loop E (lc + 1) (addr + 1) n snum isglobal match_found s2)
      else Some (Some match_found, s))"

declare replace_loop.simps [code]

definition search_and_replace ::
  "env \<Rightarrow> int \<Rightarrow> int \<Rightarrow> int \<Rightarrow> bool \<Rightarrow> ed_state \<Rightarrow> (bool \<times> ed_state) option" where
  "search_and_replace E first second snum isglobal s =
     do { (r, s1) \<leftarrow> replace_loop E 0 first (second - first) snum isglobal False s;
          case r of
            None \<Rightarrow> Some (False, s1)
          | Some match_found \<Rightarrow>
              if \<not> match_found \<and> \<not> isglobal then Some (False, set_error_msg no_match s1)
              else Some (True, s1) }"

section \<open>main_loop.c: addresses and commands\<close>

definition QUIT :: int where "QUIT = - 1"
definition ERR :: int where "ERR = - 2"
definition EMOD :: int where "EMOD = - 3"
definition FATAL :: int where "FATAL = - 4"

definition inv_com_suf :: string where
  "inv_com_suf = ''Invalid command suffix''"

definition inv_mark_ch :: string where
  "inv_mark_ch = ''Invalid mark character''"

definition no_cur_fn :: string where
  "no_cur_fn = ''No current filename''"

definition no_prev_com :: string where
  "no_prev_com = ''No previous command''"

definition isspace :: "char \<Rightarrow> bool" where
  "isspace c \<longleftrightarrow> c = CHR '' '' \<or> (9 \<le> (of_char c :: nat) \<and> (of_char c :: nat) \<le> 13)"

definition isdigit :: "char \<Rightarrow> bool" where
  "isdigit c \<longleftrightarrow> 48 \<le> (of_char c :: nat) \<and> (of_char c :: nat) \<le> 57"

definition skip_blanks :: "string \<Rightarrow> string" where
  "skip_blanks p = dropWhile (\<lambda>c. isspace c \<and> c \<noteq> NL) p"

definition set_def_filename :: "string \<Rightarrow> ed_state \<Rightarrow> bool \<times> ed_state" where
  "set_def_filename n s =
     (case resize_buf ''set_def_filename'' (int (length n) + 1) s of
        (False, s1) \<Rightarrow> (False, s1)
      | (True, s1) \<Rightarrow> (True, s1\<lparr>def_filename := n\<rparr>))"

definition mark_line_node :: "addr \<Rightarrow> char \<Rightarrow> ed_state \<Rightarrow> bool \<times> ed_state" where
  "mark_line_node lp c s =
     (let i = int (of_char c) - 97
      in if i < 0 \<or> i \<ge> 26 then (False, set_error_msg inv_mark_ch s)
         else (True, s\<lparr>markno := (if mark s ! nat i = None then markno s + 1 else markno s),
                         mark := (mark s)[nat i := Some lp]\<rparr>))"

definition get_marked_node_addr :: "char \<Rightarrow> ed_state \<Rightarrow> (int \<times> ed_state) option" where
  "get_marked_node_addr c s =
     (let i = int (of_char c) - 97
      in if i < 0 \<or> i \<ge> 26 then Some (- 1, set_error_msg inv_mark_ch s)
         else get_line_node_addr (mark s ! nat i) s)"

definition path_max :: "env \<Rightarrow> int" where
  "path_max E =
     (case pathconf_lib E of
        (result, errno) \<Rightarrow>
          if result < 0 then (if errno then 256 else 1024)
          else if result < 256 then 256 else result)"

definition may_access_filename :: "env \<Rightarrow> string \<Rightarrow> ed_state \<Rightarrow> bool \<times> ed_state" where
  "may_access_filename E name s =
     (if restricted E then
        (if peek name = CHR ''!'' then (False, set_error_msg ''Shell access restricted'' s)
         else if name = ''..'' \<or> CHR ''/'' \<in> set name
         then (False, set_error_msg ''Directory access restricted'' s)
         else (True, s))
      else (True, s))"

text \<open>
  The loop of \<open>get_shell_command\<close> that copies the command, with the default filename for
  an unescaped \<open>%\<close>: the result is the text, or \<open>None\<close> when the function returns the null
  pointer, whether something was replaced, and the command buffer.
\<close>

partial_function (option) shell_loop ::
  "string \<Rightarrow> string \<Rightarrow> ed_state \<Rightarrow> (string option \<times> string \<times> ed_state) option" where
  "shell_loop ib buf s =
     (if peek ib \<noteq> NL then
        (if peek ib = CHR ''%'' then
           (if def_filename s = [] then Some (None, ib, set_error_msg no_cur_fn s)
            else
              (case strip_escapes (def_filename s) s of
                 (None, s1) \<Rightarrow> Some (None, ib, s1)
               | (Some p, s1) \<Rightarrow>
                   (let (ok, s2) = resize_buf ''get_shell_command'' (int (length buf) + int (length p)) s1
                    in if \<not> ok then Some (None, ib, s2)
                       else shell_loop (tl ib) (buf @ p) s2)))
         else
           (let (ok, s1) = resize_buf ''get_shell_command'' (int (length buf) + 2) s
            in if \<not> ok then Some (None, tl ib, s1)
               else if peek ib \<noteq> BSL then shell_loop (tl ib) (buf @ [peek ib]) s1
               else if peek (tl ib) \<noteq> CHR ''%''
               then shell_loop (tl (tl ib)) (buf @ [BSL, peek (tl ib)]) s1
               else shell_loop (tl (tl ib)) (buf @ [peek (tl ib)]) s1))
      else Some (Some buf, ib, s))"

declare shell_loop.simps [code]

definition get_shell_command ::
  "env \<Rightarrow> string \<Rightarrow> ed_state \<Rightarrow> (string option \<times> string \<times> ed_state) option" where
  "get_shell_command E ib s =
     (if restricted E then Some (None, ib, set_error_msg ''Shell access restricted'' s)
      else
        do { (ok, ib1, n, s1) \<leftarrow> get_extended_line ib True s;
             if \<not> ok then Some (None, ib1, s1)
             else
               (case resize_buf ''get_shell_command'' (n + 1) s1 of
                  (False, s2) \<Rightarrow> Some (None, ib1, s2)
                | (True, s2) \<Rightarrow>
                    if peek ib1 = CHR ''!'' \<and>
                       (length (shcmd s2) \<le> 0 \<or> (traditional E \<and> length (shcmd s2) \<le> 1))
                    then Some (None, ib1, set_error_msg no_prev_com s2)
                    else
                      do { (r, ib2, s3) \<leftarrow>
                             (if peek ib1 \<noteq> CHR ''!'' then shell_loop ib1 ''!'' s2
                              else shell_loop (tl ib1) (shcmd s2) s2);
                           case r of
                             None \<Rightarrow> Some (None, ib2, s3)
                           | Some buf \<Rightarrow>
                               (case resize_buf ''shcmd'' (int (length buf) + 1) s3 of
                                  (False, s4) \<Rightarrow> Some (None, dropWhile (\<lambda>c. c = NL) ib2, s4)
                                | (True, s4) \<Rightarrow>
                                    Some (Some buf, dropWhile (\<lambda>c. c = NL) ib2,
                                          s4\<lparr>shcmd := buf\<rparr>)) }) })"

text \<open>\<open>get_filename\<close> gives the name, or \<open>None\<close> for the null pointer, and the command buffer.\<close>

definition get_filename ::
  "env \<Rightarrow> string \<Rightarrow> bool \<Rightarrow> ed_state \<Rightarrow> (string option \<times> string \<times> ed_state) option" where
  "get_filename E ib traditional_f_command s =
     (let pmax = path_max E;
          ib1 = skip_blanks ib;
          copy_name = (\<lambda>ib2 s2.
            case resize_buf ''get_filename'' (pmax + 1) s2 of
              (False, s3) \<Rightarrow> Some (None, ib2, s3)
            | (True, s3) \<Rightarrow>
                (let name = takeWhile (\<lambda>c. c \<noteq> NL) ib2;
                     ib3 = dropWhile (\<lambda>c. c = NL) (dropWhile (\<lambda>c. c \<noteq> NL) ib2)
                 in case may_access_filename E name s3 of
                      (False, s4) \<Rightarrow> Some (None, ib3, s4)
                    | (True, s4) \<Rightarrow> Some (Some name, ib3, s4)))
      in if peek ib1 \<noteq> NL then
           do { (ok, ib2, n, s1) \<leftarrow> get_extended_line ib1 True s;
                if \<not> ok then Some (None, ib2, s1)
                else if peek ib2 = CHR ''!'' then get_shell_command E (tl ib2) s1
                else if n > pmax then Some (None, ib2, set_error_msg ''Filename too long'' s1)
                else copy_name ib2 s1 }
         else if \<not> traditional_f_command \<and> def_filename s = []
         then Some (None, ib1, set_error_msg no_cur_fn s)
         else copy_name ib1 s)"

text \<open>
  Sums and differences of \<open>int\<close> values that may leave the range of 32 bits wrap around:
  \<open>int32\<close> gives the value that the 32 bits hold.
\<close>

definition int32 :: "int \<Rightarrow> int" where
  "int32 x = sint (word_of_int x :: 32 word)"

text \<open>
  \<open>strtol\<close> with base 10: blanks, a sign and digits; \<open>None\<close> when there is no digit.
  \<open>parse_int\<close> gives the number, or \<open>None\<close> when it returns false, and the tail.
\<close>

definition strtol :: "string \<Rightarrow> (int \<times> string) option" where
  "strtol str =
     (let p = dropWhile isspace str;
          q = (if peek p = CHR ''-'' \<or> peek p = CHR ''+'' then tl p else p);
          ds = takeWhile isdigit q;
          v = foldl (\<lambda>a c. 10 * a + (int (of_char c) - 48)) 0 ds
      in if ds = [] then None
         else Some (if peek p = CHR ''-'' then - v else v, dropWhile isdigit q))"

definition parse_int :: "string \<Rightarrow> ed_state \<Rightarrow> int option \<times> string \<times> ed_state" where
  "parse_int str s =
     (case strtol str of
        None \<Rightarrow> (None, str, set_error_msg ''Bad numerical result'' s)
      | Some (li, tmp) \<Rightarrow>
          if li > int_max \<or> li < - int_max
          then (None, tmp, set_error_msg ''Numerical result out of range'' s)
          else (Some li, tmp, s))"

text \<open>
  The loop of \<open>extract_addresses\<close>, with the local \<open>first\<close>. The result is the number of
  addresses, or \<open>-1\<close>, and the command buffer. The sums of addresses are sums of 32-bit
  ints.
\<close>

partial_function (option) extract_loop ::
  "env \<Rightarrow> bool \<Rightarrow> string \<Rightarrow> ed_state \<Rightarrow> (int \<times> string \<times> ed_state) option" where
  "extract_loop E first ib s =
     (let ch = peek ib
      in if isdigit ch then
           (case parse_int ib s of
              (None, ib1, s1) \<Rightarrow> Some (- 1, ib1, s1)
            | (Some n, ib1, s1) \<Rightarrow>
                extract_loop E False ib1
                  (s1\<lparr>second_addr := (if first then n else int32 (second_addr s1 + n))\<rparr>))
         else if ch = CHR 0x09 \<or> ch = CHR '' '' then extract_loop E first (skip_blanks (tl ib)) s
         else if ch = CHR ''+'' \<or> ch = CHR ''-'' then
           (let s1 = (if first then s\<lparr>second_addr := current_addr s\<rparr> else s)
            in if isdigit (peek (tl ib)) then
                 (case parse_int ib s1 of
                    (None, ib1, s2) \<Rightarrow> Some (- 1, ib1, s2)
                  | (Some n, ib1, s2) \<Rightarrow>
                      extract_loop E False ib1 (s2\<lparr>second_addr := int32 (second_addr s2 + n)\<rparr>))
               else extract_loop E False (tl ib)
                      (s1\<lparr>second_addr := (if ch = CHR ''+'' then int32 (second_addr s1 + 1)
                                            else int32 (second_addr s1 - 1))\<rparr>))
         else if ch = CHR ''.'' \<or> ch = CHR ''$'' then
           (if \<not> first then Some (- 1, ib, invalid_address s)
            else extract_loop E False (tl ib)
                   (s\<lparr>second_addr := (if ch = CHR ''.'' then current_addr s else last_addr s)\<rparr>))
         else if ch = CHR ''/'' \<or> ch = CHR ''?'' then
           (if \<not> first then Some (- 1, ib, invalid_address s)
            else
              do { (a, ib1, s1) \<leftarrow> next_matching_node_addr E ib s;
                   if a < 0 then Some (- 1, ib1, s1\<lparr>second_addr := a\<rparr>)
                   else extract_loop E False ib1 (s1\<lparr>second_addr := a\<rparr>) })
         else if ch = CHR 0x27 then
           (if \<not> first then Some (- 1, ib, invalid_address s)
            else
              do { (a, s1) \<leftarrow> get_marked_node_addr (peek (tl ib)) s;
                   if a < 0 then Some (- 1, tl (tl ib), s1\<lparr>second_addr := a\<rparr>)
                   else extract_loop E False (tl (tl ib)) (s1\<lparr>second_addr := a\<rparr>) })
         else if ch = CHR ''%'' \<or> ch = CHR '','' \<or> ch = CHR '';'' then
           (if first then
              extract_loop E True (tl ib)
                (if first_addr s < 0
                 then s\<lparr>first_addr := (if ch = CHR '';'' then current_addr s else 1),
                        second_addr := last_addr s\<rparr>
                 else s\<lparr>first_addr := second_addr s\<rparr>)
            else if second_addr s < 0 \<or> second_addr s > last_addr s
            then Some (- 1, ib, invalid_address s)
            else extract_loop E True (tl ib)
                   ((if ch = CHR '';'' then s\<lparr>current_addr := second_addr s\<rparr> else s)
                      \<lparr>first_addr := second_addr s\<rparr>))
         else if \<not> first \<and> (second_addr s < 0 \<or> second_addr s > last_addr s)
         then Some (- 1, ib, invalid_address s)
         else
           (let addr_cnt = (if second_addr s \<ge> 0 then (if first_addr s \<ge> 0 then 2 else 1) else 0);
                s1 = (if addr_cnt \<le> 0 then s\<lparr>second_addr := current_addr s\<rparr> else s);
                s2 = (if addr_cnt \<le> 1 then s1\<lparr>first_addr := second_addr s1\<rparr> else s1)
            in Some (addr_cnt, ib, s2)))"

declare extract_loop.simps [code]

definition extract_addresses ::
  "env \<Rightarrow> string \<Rightarrow> ed_state \<Rightarrow> (int \<times> string \<times> ed_state) option" where
  "extract_addresses E ib s =
     extract_loop E True (skip_blanks ib) (s\<lparr>first_addr := - 1, second_addr := - 1\<rparr>)"

text \<open>\<open>get_third_addr\<close> gives the address \<open>*addr\<close>, or \<open>None\<close> when it returns false.\<close>

definition get_third_addr ::
  "env \<Rightarrow> string \<Rightarrow> ed_state \<Rightarrow> (int option \<times> string \<times> ed_state) option" where
  "get_third_addr E ib s =
     (let old1 = first_addr s;
          old2 = second_addr s
      in do { (addr_cnt, ib1, s1) \<leftarrow> extract_addresses E ib s;
              if addr_cnt < 0 then Some (None, ib1, s1)
              else if traditional E \<and> addr_cnt = 0
              then Some (None, ib1, set_error_msg ''Destination expected'' s1)
              else if second_addr s1 < 0 \<or> second_addr s1 > last_addr s1
              then Some (None, ib1, invalid_address s1)
              else Some (Some (second_addr s1), ib1,
                         s1\<lparr>first_addr := old1, second_addr := old2\<rparr>) })"

definition check_addr_range :: "int \<Rightarrow> int \<Rightarrow> int \<Rightarrow> ed_state \<Rightarrow> bool \<times> ed_state" where
  "check_addr_range n m addr_cnt s =
     (let s1 = (if addr_cnt = 0 then s\<lparr>first_addr := n, second_addr := m\<rparr> else s)
      in if first_addr s1 < 1 \<or> first_addr s1 > second_addr s1 \<or> second_addr s1 > last_addr s1
         then (False, invalid_address s1)
         else (True, s1))"

definition check_addr_range2 :: "int \<Rightarrow> ed_state \<Rightarrow> bool \<times> ed_state" where
  "check_addr_range2 addr_cnt s = check_addr_range (current_addr s) (current_addr s) addr_cnt s"

definition check_second_addr :: "int \<Rightarrow> int \<Rightarrow> ed_state \<Rightarrow> bool \<times> ed_state" where
  "check_second_addr addr addr_cnt s =
     (let s1 = (if addr_cnt = 0 then s\<lparr>second_addr := addr\<rparr> else s)
      in if second_addr s1 < 1 \<or> second_addr s1 > last_addr s1
         then (False, invalid_address s1)
         else (True, s1))"

text \<open>
  \<open>get_command_suffix\<close> gives the value returned, the command buffer and the print
  flags \<open>*pflagsp\<close>.
\<close>

fun suffix_loop :: "string \<Rightarrow> int \<Rightarrow> string \<times> int" where
  "suffix_loop [] pf = ([], pf)"
| "suffix_loop (ch # cs) pf =
     (if ch = CHR ''l'' then (if pf AND pf_l \<noteq> 0 then (ch # cs, pf) else suffix_loop cs (pf OR pf_l))
      else if ch = CHR ''n'' then (if pf AND pf_n \<noteq> 0 then (ch # cs, pf) else suffix_loop cs (pf OR pf_n))
      else if ch = CHR ''p'' then (if pf AND pf_p \<noteq> 0 then (ch # cs, pf) else suffix_loop cs (pf OR pf_p))
      else (ch # cs, pf))"

definition get_command_suffix :: "string \<Rightarrow> int \<Rightarrow> ed_state \<Rightarrow> bool \<times> string \<times> int \<times> ed_state" where
  "get_command_suffix ib pflags s =
     (case suffix_loop ib pflags of
        (ib1, pf) \<Rightarrow>
          if peek ib1 \<noteq> NL then (False, tl ib1, pf, set_error_msg inv_com_suf s)
          else (True, tl ib1, pf, s))"

text \<open>
  The loop of \<open>get_command_s_suffix\<close>, with the locals \<open>rep\<close> and the values \<open>*pflagsp\<close>,
  \<open>*snump\<close> and \<open>*ignore_casep\<close>; the first component of the result is \<open>error\<close>.
\<close>

partial_function (option) s_suffix_loop ::
  "string \<Rightarrow> bool \<Rightarrow> int \<Rightarrow> int \<Rightarrow> bool \<Rightarrow> ed_state
    \<Rightarrow> (bool \<times> string \<times> int \<times> int \<times> bool \<times> ed_state) option" where
  "s_suffix_loop ib rep pf snum ic s =
     (let ch = peek ib
      in if 49 \<le> (of_char ch :: nat) \<and> (of_char ch :: nat) \<le> 57 then
           (if rep then Some (True, ib, pf, snum, ic, s)
            else
              (case parse_int ib s of
                 (None, ib1, s1) \<Rightarrow> Some (True, ib1, pf, snum, ic, s1)
               | (Some n, ib1, s1) \<Rightarrow>
                   if n \<le> 0 then Some (True, ib1, pf, snum, ic, s1)
                   else s_suffix_loop ib1 True pf n ic s1))
         else if ch = CHR ''g'' then
           (if rep then Some (False, ib, pf, snum, ic, s)
            else s_suffix_loop (tl ib) True pf 0 ic s)
         else if ch = CHR ''i'' \<or> ch = CHR ''I'' then
           (if ic then Some (False, ib, pf, snum, ic, s)
            else s_suffix_loop (tl ib) rep pf snum True s)
         else if ch = CHR ''l'' then
           (if pf AND pf_l \<noteq> 0 then Some (False, ib, pf, snum, ic, s)
            else s_suffix_loop (tl ib) rep (pf OR pf_l) snum ic s)
         else if ch = CHR ''n'' then
           (if pf AND pf_n \<noteq> 0 then Some (False, ib, pf, snum, ic, s)
            else s_suffix_loop (tl ib) rep (pf OR pf_n) snum ic s)
         else if ch = CHR ''p'' then
           (if pf AND pf_p \<noteq> 0 then Some (False, ib, pf, snum, ic, s)
            else s_suffix_loop (tl ib) rep (pf OR pf_p) snum ic s)
         else Some (False, ib, pf, snum, ic, s))"

declare s_suffix_loop.simps [code]

definition get_command_s_suffix ::
  "string \<Rightarrow> int \<Rightarrow> int \<Rightarrow> bool \<Rightarrow> ed_state
    \<Rightarrow> (bool \<times> string \<times> int \<times> int \<times> bool \<times> ed_state) option" where
  "get_command_s_suffix ib pflags snum ignore_case s =
     do { (err, ib1, pf, sn, ic, s1) \<leftarrow> s_suffix_loop ib False pflags snum ignore_case s;
          if err then Some (False, ib1, pf, sn, ic, set_error_msg inv_com_suf s1)
          else if peek ib1 \<noteq> NL then Some (False, tl ib1, pf, sn, ic, set_error_msg inv_com_suf s1)
          else Some (True, tl ib1, pf, sn, ic, s1) }"

definition unexpected_address :: "int \<Rightarrow> ed_state \<Rightarrow> bool \<times> ed_state" where
  "unexpected_address addr_cnt s =
     (if addr_cnt > 0 then (True, set_error_msg ''Unexpected address'' s) else (False, s))"

definition unexpected_command_suffix :: "char \<Rightarrow> ed_state \<Rightarrow> bool \<times> ed_state" where
  "unexpected_command_suffix ch s =
     (if \<not> isspace ch then (True, set_error_msg ''Unexpected command suffix'' s) else (False, s))"

text \<open>
  The first loop of \<open>command_s\<close>, which reads the flags of a repeated substitution; the
  result is \<open>None\<close> when the function returns false, or the value of \<open>sflags\<close>. The
  statics \<open>pflags\<close>, \<open>pmask\<close> and \<open>snum\<close> of the function are \<open>s_pflags\<close>, \<open>s_pmask\<close> and
  \<open>s_snum\<close>.
\<close>

definition sf_g :: int where "sf_g = 1"
definition sf_p :: int where "sf_p = 2"
definition sf_r :: int where "sf_r = 4"
definition sf_none :: int where "sf_none = 8"

partial_function (option) sflags_loop ::
  "string \<Rightarrow> int \<Rightarrow> ed_state \<Rightarrow> (int option \<times> string \<times> ed_state) option" where
  "sflags_loop ib sflags s =
     (case (let ch = peek ib
            in if 49 \<le> (of_char ch :: nat) \<and> (of_char ch :: nat) \<le> 57 then
                 (if sflags AND sf_g \<noteq> 0 then Inl (ib, s)
                  else
                    (case parse_int ib s of
                       (None, ib1, s1) \<Rightarrow> Inl (ib1, s1)
                     | (Some n, ib1, s1) \<Rightarrow>
                         if n \<le> 0 then Inl (ib1, s1)
                         else Inr (ib1, sflags OR sf_g, s1\<lparr>s_snum := n\<rparr>)))
               else if ch = NL then Inr (ib, sflags OR sf_none, s)
               else if ch = CHR ''g'' then
                 (if sflags AND sf_g \<noteq> 0 then Inl (ib, s)
                  else Inr (tl ib, sflags OR sf_g, s\<lparr>s_snum := (if s_snum s = 0 then 1 else 0)\<rparr>))
               else if ch = CHR ''p'' then
                 (if sflags AND sf_p \<noteq> 0 then Inl (ib, s) else Inr (tl ib, sflags OR sf_p, s))
               else if ch = CHR ''r'' then
                 (if sflags AND sf_r \<noteq> 0 then Inl (ib, s) else Inr (tl ib, sflags OR sf_r, s))
               else if sflags \<noteq> 0 then Inl (ib, s)
               else Inr (ib, sflags, s)) of
        Inl (ib1, s1) \<Rightarrow> Some (None, ib1, set_error_msg inv_com_suf s1)
      | Inr (ib1, sf, s1) \<Rightarrow>
          if sf \<noteq> 0 \<and> peek ib1 \<noteq> NL then sflags_loop ib1 sf s1
          else Some (Some sf, ib1, s1))"

declare sflags_loop.simps [code]

text \<open>\<open>command_s\<close> gives the value returned, the command buffer and \<open>*pflagsp\<close>.\<close>

definition command_s ::
  "env \<Rightarrow> string \<Rightarrow> int \<Rightarrow> int \<Rightarrow> bool \<Rightarrow> ed_state \<Rightarrow> (bool \<times> string \<times> int \<times> ed_state) option" where
  "command_s E ib pflags0 addr_cnt isglobal s =
     (case check_addr_range2 addr_cnt s of
        (False, s1) \<Rightarrow> Some (False, ib, pflags0, s1)
      | (True, s1) \<Rightarrow>
          do { (sf, ib1, s2) \<leftarrow> sflags_loop ib 0 s1;
               case sf of
                 None \<Rightarrow> Some (False, ib1, pflags0, s2)
               | Some sflags \<Rightarrow>
                   do { (ok, ib2, s3) \<leftarrow>
                          (if sflags \<noteq> 0 then
                             (if \<not> subst_regex s2 then Some (False, ib1, set_error_msg no_prev_subst s2)
                              else
                                (case (if sflags AND sf_r \<noteq> 0 then replace_subst_re_by_search_re s2
                                       else (True, s2)) of
                                   (False, t) \<Rightarrow> Some (False, ib1, t)
                                 | (True, t) \<Rightarrow>
                                     Some (True, ib1,
                                           if sflags AND sf_p \<noteq> 0
                                           then t\<lparr>s_pflags := s_pflags t XOR s_pmask t\<rparr> else t)))
                           else
                             do { (pat, ib3, t1) \<leftarrow> get_pattern_for_s ib1 s2;
                                  case pat of
                                    None \<Rightarrow> Some (False, ib3, t1)
                                  | Some pt \<Rightarrow>
                                      do { (ok1, ib4, t2) \<leftarrow> extract_replacement ib3 isglobal t1;
                                           if \<not> ok1 then Some (False, ib4, t2)
                                           else
                                             do { (ok2, ib5, pf, sn, ic, t3) \<leftarrow>
                                                    (if peek ib4 = NL then Some (True, ib4, pf_p, 1, False, t2)
                                                     else get_command_s_suffix
                                                            (if peek ib4 = peek ib3 then tl ib4 else ib4)
                                                            0 1 False t2);
                                                  let t4 = t3\<lparr>s_pflags := pf, s_snum := sn\<rparr>;
                                                  if \<not> ok2 then Some (False, ib5, t4)
                                                  else
                                                    (let pm = pf AND (pf_l OR pf_n OR pf_p);
                                                         t5 = t4\<lparr>s_pmask := (if pm = 0 then pf_p else pm)\<rparr>
                                                     in case set_subst_regex E pt ic t5 of
                                                          (b, t6) \<Rightarrow> Some (b, ib5, t6)) } } });
                        if \<not> ok then Some (False, ib2, pflags0, s3)
                        else
                          do { s4 \<leftarrow> (if \<not> isglobal then clear_undo_stack s3 else Some s3);
                               (r, s5) \<leftarrow> search_and_replace E (first_addr s4) (second_addr s4)
                                            (s_snum s4) isglobal s4;
                               Some (r, ib2, s_pflags s3, s5) } } })"

section \<open>main_loop.c: the dispatcher\<close>

text \<open>
  The cases of the switch of \<open>exec_command\<close>. Each gives the status (0 when the case
  ends with \<open>break\<close>), the print flags \<open>pflags\<close>, the command buffer and the state.
\<close>

type_synonym outcome = "(int \<times> int \<times> string \<times> ed_state) option"

definition exec_a :: "bool \<Rightarrow> string \<Rightarrow> bool \<Rightarrow> ed_state \<Rightarrow> outcome" where
  "exec_a ins ib isglobal s =
     (case get_command_suffix ib 0 s of
        (False, ib1, pf, s1) \<Rightarrow> Some (ERR, pf, ib1, s1)
      | (True, ib1, pf, s1) \<Rightarrow>
          do { s2 \<leftarrow> (if \<not> isglobal then clear_undo_stack s1 else Some s1);
               (ok, ib2, s3) \<leftarrow> append_lines ib1 (second_addr s2) ins isglobal s2;
               Some (if ok then 0 else ERR, pf, ib2, s3) })"

definition exec_c :: "int \<Rightarrow> string \<Rightarrow> bool \<Rightarrow> ed_state \<Rightarrow> outcome" where
  "exec_c addr_cnt ib isglobal s =
     (case check_addr_range2 addr_cnt s of
        (False, s1) \<Rightarrow> Some (ERR, 0, ib, s1)
      | (True, s1) \<Rightarrow>
          (case get_command_suffix ib 0 s1 of
             (False, ib1, pf, s2) \<Rightarrow> Some (ERR, pf, ib1, s2)
           | (True, ib1, pf, s2) \<Rightarrow>
               do { s3 \<leftarrow> (if \<not> isglobal then clear_undo_stack s2 else Some s2);
                    (ok, s4) \<leftarrow> delete_lines (first_addr s3) (second_addr s3) isglobal s3;
                    if \<not> ok then Some (ERR, pf, ib1, s4)
                    else
                      do { (ok2, ib2, s5) \<leftarrow> append_lines ib1 (current_addr s4)
                                                (current_addr s4 \<ge> first_addr s4) isglobal s4;
                           Some (if ok2 then 0 else ERR, pf, ib2, s5) } }))"

definition exec_d :: "int \<Rightarrow> string \<Rightarrow> bool \<Rightarrow> ed_state \<Rightarrow> outcome" where
  "exec_d addr_cnt ib isglobal s =
     (case check_addr_range2 addr_cnt s of
        (False, s1) \<Rightarrow> Some (ERR, 0, ib, s1)
      | (True, s1) \<Rightarrow>
          (case get_command_suffix ib 0 s1 of
             (False, ib1, pf, s2) \<Rightarrow> Some (ERR, pf, ib1, s2)
           | (True, ib1, pf, s2) \<Rightarrow>
               do { s3 \<leftarrow> (if \<not> isglobal then clear_undo_stack s2 else Some s2);
                    (ok, s4) \<leftarrow> delete_lines (first_addr s3) (second_addr s3) isglobal s3;
                    Some (if ok then 0 else ERR, pf, ib1, s4) }))"

text \<open>The cases \<open>e\<close> and \<open>E\<close>; \<open>e\<close> falls through to \<open>E\<close>.\<close>

definition exec_E :: "env \<Rightarrow> int \<Rightarrow> string \<Rightarrow> bool \<Rightarrow> ed_state \<Rightarrow> outcome" where
  "exec_E E addr_cnt ib isglobal s =
     (case unexpected_address addr_cnt s of
        (True, s1) \<Rightarrow> Some (ERR, 0, ib, s1)
      | (False, s1) \<Rightarrow>
          (case unexpected_command_suffix (peek ib) s1 of
             (True, s2) \<Rightarrow> Some (ERR, 0, ib, s2)
           | (False, s2) \<Rightarrow>
               do { (fnp, ib1, s3) \<leftarrow> get_filename E ib False s2;
                    case fnp of
                      None \<Rightarrow> Some (ERR, 0, ib1, s3)
                    | Some fn \<Rightarrow>
                        do { (ok, s4) \<leftarrow> delete_lines 1 (last_addr s3) isglobal s3;
                             if \<not> ok then Some (ERR, 0, ib1, s4)
                             else
                               do { (ok2, s5) \<leftarrow> close_sbuf s4;
                                    if \<not> ok2 then Some (ERR, 0, ib1, s5)
                                    else
                                      (case open_sbuf s5 of
                                         (False, s6) \<Rightarrow> Some (FATAL, 0, ib1, s6)
                                       | (True, s6) \<Rightarrow>
                                           (case (if fn \<noteq> [] \<and> peek fn \<noteq> CHR ''!''
                                                  then set_def_filename fn s6 else (True, s6)) of
                                              (False, s7) \<Rightarrow> Some (ERR, 0, ib1, s7)
                                            | (True, s7) \<Rightarrow>
                                                do { (n, s8) \<leftarrow> read_file E (if fn \<noteq> [] then fn
                                                                              else def_filename s7) 0 s7;
                                                     if n < 0 then Some (ERR, 0, ib1, s8)
                                                     else
                                                       do { s9 \<leftarrow> reset_undo_state s8;
                                                            Some (0, 0, ib1, s9\<lparr>modified := False\<rparr>) } })) } } }))"

definition exec_e :: "env \<Rightarrow> int \<Rightarrow> string \<Rightarrow> int \<Rightarrow> bool \<Rightarrow> ed_state \<Rightarrow> outcome" where
  "exec_e E addr_cnt ib prev_status isglobal s =
     (if modified s \<and> prev_status \<noteq> EMOD then Some (EMOD, 0, ib, s)
      else exec_E E addr_cnt ib isglobal s)"

definition exec_f :: "env \<Rightarrow> int \<Rightarrow> string \<Rightarrow> ed_state \<Rightarrow> outcome" where
  "exec_f E addr_cnt ib s =
     (case unexpected_address addr_cnt s of
        (True, s1) \<Rightarrow> Some (ERR, 0, ib, s1)
      | (False, s1) \<Rightarrow>
          (case unexpected_command_suffix (peek ib) s1 of
             (True, s2) \<Rightarrow> Some (ERR, 0, ib, s2)
           | (False, s2) \<Rightarrow>
               do { (fnp, ib1, s3) \<leftarrow> get_filename E ib (traditional E) s2;
                    case fnp of
                      None \<Rightarrow> Some (ERR, 0, ib1, s3)
                    | Some fn \<Rightarrow>
                        if peek fn = CHR ''!'' then Some (ERR, 0, ib1, set_error_msg ''Invalid redirection'' s3)
                        else
                          (case (if fn \<noteq> [] then set_def_filename fn s3 else (True, s3)) of
                             (False, s4) \<Rightarrow> Some (ERR, 0, ib1, s4)
                           | (True, s4) \<Rightarrow>
                               (case strip_escapes (def_filename s4) s4 of
                                  (None, s5) \<Rightarrow> Some (ERR, 0, ib1, s5)
                                | (Some stripped_name, s5) \<Rightarrow> Some (0, 0, ib1, s5))) }))"

text \<open>
  The cases \<open>g\<close>, \<open>v\<close>, \<open>G\<close> and \<open>V\<close>: what follows the check of the addresses is
  \<open>global_lib\<close>.
\<close>

definition exec_g :: "env \<Rightarrow> char \<Rightarrow> int \<Rightarrow> string \<Rightarrow> bool \<Rightarrow> ed_state \<Rightarrow> outcome" where
  "exec_g E c addr_cnt ib isglobal s =
     (if isglobal then Some (ERR, 0, ib, set_error_msg ''Cannot nest global commands'' s)
      else
        (case check_addr_range 1 (last_addr s) addr_cnt s of
           (False, s1) \<Rightarrow> Some (ERR, 0, ib, s1)
         | (True, s1) \<Rightarrow> global_lib E c ib s1))"

definition exec_h :: "char \<Rightarrow> int \<Rightarrow> string \<Rightarrow> ed_state \<Rightarrow> outcome" where
  "exec_h c addr_cnt ib s =
     (case unexpected_address addr_cnt s of
        (True, s1) \<Rightarrow> Some (ERR, 0, ib, s1)
      | (False, s1) \<Rightarrow>
          (case get_command_suffix ib 0 s1 of
             (False, ib1, pf, s2) \<Rightarrow> Some (ERR, pf, ib1, s2)
           | (True, ib1, pf, s2) \<Rightarrow>
               Some (0, pf, ib1, if c = CHR ''H'' then s2\<lparr>verbose := \<not> verbose s2\<rparr> else s2)))"

definition exec_j :: "int \<Rightarrow> string \<Rightarrow> bool \<Rightarrow> ed_state \<Rightarrow> outcome" where
  "exec_j addr_cnt ib isglobal s =
     (case check_addr_range (current_addr s) (int32 (current_addr s + 1)) addr_cnt s of
        (False, s1) \<Rightarrow> Some (ERR, 0, ib, s1)
      | (True, s1) \<Rightarrow>
          (case get_command_suffix ib 0 s1 of
             (False, ib1, pf, s2) \<Rightarrow> Some (ERR, pf, ib1, s2)
           | (True, ib1, pf, s2) \<Rightarrow>
               do { s3 \<leftarrow> (if \<not> isglobal then clear_undo_stack s2 else Some s2);
                    if first_addr s3 < second_addr s3 then
                      do { (ok, s4) \<leftarrow> join_lines (first_addr s3) (second_addr s3) isglobal s3;
                           Some (if ok then 0 else ERR, pf, ib1, s4) }
                    else Some (0, pf, ib1, s3) }))"

definition exec_k :: "string \<Rightarrow> ed_state \<Rightarrow> outcome" where
  "exec_k ib s =
     (let n = peek ib; ib0 = tl ib
      in if second_addr s = 0 then Some (ERR, 0, ib0, invalid_address s)
         else
           (case get_command_suffix ib0 0 s of
              (False, ib1, pf, s1) \<Rightarrow> Some (ERR, pf, ib1, s1)
            | (True, ib1, pf, s1) \<Rightarrow>
                (let (lp, s2) = search_line_node (second_addr s1) s1
                 in case mark_line_node lp n s2 of
                      (False, s3) \<Rightarrow> Some (ERR, pf, ib1, s3)
                    | (True, s3) \<Rightarrow> Some (0, pf, ib1, s3))))"

text \<open>The cases \<open>l\<close>, \<open>n\<close> and \<open>p\<close>, with the flag \<open>n\<close> of the case.\<close>

definition exec_p :: "int \<Rightarrow> int \<Rightarrow> string \<Rightarrow> ed_state \<Rightarrow> outcome" where
  "exec_p n addr_cnt ib s =
     (case check_addr_range2 addr_cnt s of
        (False, s1) \<Rightarrow> Some (ERR, 0, ib, s1)
      | (True, s1) \<Rightarrow>
          (case get_command_suffix ib 0 s1 of
             (False, ib1, pf, s2) \<Rightarrow> Some (ERR, pf, ib1, s2)
           | (True, ib1, pf, s2) \<Rightarrow>
               do { (ok, s3) \<leftarrow> print_lines (first_addr s2) (second_addr s2) (pf OR n) s2;
                    if \<not> ok then Some (ERR, pf, ib1, s3) else Some (0, 0, ib1, s3) }))"

definition exec_m :: "env \<Rightarrow> int \<Rightarrow> string \<Rightarrow> bool \<Rightarrow> ed_state \<Rightarrow> outcome" where
  "exec_m E addr_cnt ib isglobal s =
     (case check_addr_range2 addr_cnt s of
        (False, s1) \<Rightarrow> Some (ERR, 0, ib, s1)
      | (True, s1) \<Rightarrow>
          do { (a, ib1, s2) \<leftarrow> get_third_addr E ib s1;
               case a of
                 None \<Rightarrow> Some (ERR, 0, ib1, s2)
               | Some addr \<Rightarrow>
                   if addr \<ge> first_addr s2 \<and> addr < second_addr s2
                   then Some (ERR, 0, ib1, set_error_msg ''Invalid destination'' s2)
                   else
                     (case get_command_suffix ib1 0 s2 of
                        (False, ib2, pf, s3) \<Rightarrow> Some (ERR, pf, ib2, s3)
                      | (True, ib2, pf, s3) \<Rightarrow>
                          do { s4 \<leftarrow> (if \<not> isglobal then clear_undo_stack s3 else Some s3);
                               (ok, s5) \<leftarrow> move_lines (first_addr s4) (second_addr s4) addr isglobal s4;
                               Some (if ok then 0 else ERR, pf, ib2, s5) }) })"

text \<open>The cases \<open>P\<close>, \<open>q\<close> and \<open>Q\<close>.\<close>

definition exec_q :: "char \<Rightarrow> int \<Rightarrow> string \<Rightarrow> int \<Rightarrow> ed_state \<Rightarrow> outcome" where
  "exec_q c addr_cnt ib prev_status s =
     (case unexpected_address addr_cnt s of
        (True, s1) \<Rightarrow> Some (ERR, 0, ib, s1)
      | (False, s1) \<Rightarrow>
          (case get_command_suffix ib 0 s1 of
             (False, ib1, pf, s2) \<Rightarrow> Some (ERR, pf, ib1, s2)
           | (True, ib1, pf, s2) \<Rightarrow>
               if c = CHR ''P'' then Some (0, pf, ib1, s2\<lparr>prompt_on := \<not> prompt_on s2\<rparr>)
               else if c = CHR ''q'' \<and> modified s2 \<and> prev_status \<noteq> EMOD then Some (EMOD, pf, ib1, s2)
               else Some (QUIT, pf, ib1, s2)))"

definition exec_r :: "env \<Rightarrow> int \<Rightarrow> string \<Rightarrow> bool \<Rightarrow> ed_state \<Rightarrow> outcome" where
  "exec_r E addr_cnt ib isglobal s =
     (case unexpected_command_suffix (peek ib) s of
        (True, s1) \<Rightarrow> Some (ERR, 0, ib, s1)
      | (False, s1) \<Rightarrow>
          (let s2 = (if addr_cnt = 0 then s1\<lparr>second_addr := last_addr s1\<rparr> else s1)
           in do { (fnp, ib1, s3) \<leftarrow> get_filename E ib False s2;
                   case fnp of
                     None \<Rightarrow> Some (ERR, 0, ib1, s3)
                   | Some fn \<Rightarrow>
                       (case (if def_filename s3 = [] \<and> peek fn \<noteq> CHR ''!''
                              then set_def_filename fn s3 else (True, s3)) of
                          (False, s4) \<Rightarrow> Some (ERR, 0, ib1, s4)
                        | (True, s4) \<Rightarrow>
                            do { s5 \<leftarrow> (if \<not> isglobal then clear_undo_stack s4 else Some s4);
                                 (addr, s6) \<leftarrow> read_file E (if fn \<noteq> [] then fn else def_filename s5)
                                                  (second_addr s5) s5;
                                 if addr < 0 then Some (ERR, 0, ib1, s6)
                                 else Some (0, 0, ib1, if addr \<noteq> 0 then s6\<lparr>modified := True\<rparr> else s6) }) }))"

definition exec_s :: "env \<Rightarrow> int \<Rightarrow> string \<Rightarrow> bool \<Rightarrow> ed_state \<Rightarrow> outcome" where
  "exec_s E addr_cnt ib isglobal s =
     do { (ok, ib1, pf, s1) \<leftarrow> command_s E ib 0 addr_cnt isglobal s;
          Some (if ok then 0 else ERR, pf, ib1, s1) }"

definition exec_t :: "env \<Rightarrow> int \<Rightarrow> string \<Rightarrow> bool \<Rightarrow> ed_state \<Rightarrow> outcome" where
  "exec_t E addr_cnt ib isglobal s =
     (case check_addr_range2 addr_cnt s of
        (False, s1) \<Rightarrow> Some (ERR, 0, ib, s1)
      | (True, s1) \<Rightarrow>
          do { (a, ib1, s2) \<leftarrow> get_third_addr E ib s1;
               case a of
                 None \<Rightarrow> Some (ERR, 0, ib1, s2)
               | Some addr \<Rightarrow>
                   (case get_command_suffix ib1 0 s2 of
                      (False, ib2, pf, s3) \<Rightarrow> Some (ERR, pf, ib2, s3)
                    | (True, ib2, pf, s3) \<Rightarrow>
                        do { s4 \<leftarrow> (if \<not> isglobal then clear_undo_stack s3 else Some s3);
                             (ok, s5) \<leftarrow> copy_lines (first_addr s4) (second_addr s4) addr s4;
                             Some (if ok then 0 else ERR, pf, ib2, s5) }) })"

definition exec_u :: "int \<Rightarrow> string \<Rightarrow> bool \<Rightarrow> ed_state \<Rightarrow> outcome" where
  "exec_u addr_cnt ib isglobal s =
     (case unexpected_address addr_cnt s of
        (True, s1) \<Rightarrow> Some (ERR, 0, ib, s1)
      | (False, s1) \<Rightarrow>
          (case get_command_suffix ib 0 s1 of
             (False, ib1, pf, s2) \<Rightarrow> Some (ERR, pf, ib1, s2)
           | (True, ib1, pf, s2) \<Rightarrow>
               do { (ok, s3) \<leftarrow> undo isglobal s2;
                    Some (if ok then 0 else ERR, pf, ib1, s3) }))"

text \<open>The cases \<open>w\<close> and \<open>W\<close>.\<close>

definition exec_w :: "env \<Rightarrow> char \<Rightarrow> int \<Rightarrow> string \<Rightarrow> int \<Rightarrow> ed_state \<Rightarrow> outcome" where
  "exec_w E c addr_cnt ib prev_status s =
     (let n = peek ib;
          ib0 = (if n = CHR ''q'' \<or> n = CHR ''Q'' then tl ib else ib)
      in case unexpected_command_suffix (peek ib0) s of
           (True, s1) \<Rightarrow> Some (ERR, 0, ib0, s1)
         | (False, s1) \<Rightarrow>
             do { (fnp, ib1, s2) \<leftarrow> get_filename E ib0 False s1;
                  case fnp of
                    None \<Rightarrow> Some (ERR, 0, ib1, s2)
                  | Some fn \<Rightarrow>
                      (case (if addr_cnt = 0 \<and> last_addr s2 = 0
                             then (True, s2\<lparr>first_addr := 0, second_addr := 0\<rparr>)
                             else check_addr_range 1 (last_addr s2) addr_cnt s2) of
                         (False, s3) \<Rightarrow> Some (ERR, 0, ib1, s3)
                       | (True, s3) \<Rightarrow>
                           (case (if def_filename s3 = [] \<and> peek fn \<noteq> CHR ''!''
                                  then set_def_filename fn s3 else (True, s3)) of
                              (False, s4) \<Rightarrow> Some (ERR, 0, ib1, s4)
                            | (True, s4) \<Rightarrow>
                                do { (addr, s5) \<leftarrow> write_file E (if fn \<noteq> [] then fn else def_filename s4)
                                                     (if c = CHR ''W'' then ''a'' else ''w'')
                                                     (first_addr s4) (second_addr s4) s4;
                                     if addr < 0 then Some (ERR, 0, ib1, s5)
                                     else if addr = last_addr s5 \<and> peek fn \<noteq> CHR ''!''
                                     then (if n = CHR ''q'' \<or> n = CHR ''Q''
                                           then Some (QUIT, 0, ib1, s5\<lparr>modified := False\<rparr>)
                                           else Some (0, 0, ib1, s5\<lparr>modified := False\<rparr>))
                                     else if n = CHR ''q'' \<and> modified s5 \<and> prev_status \<noteq> EMOD
                                     then Some (EMOD, 0, ib1, s5)
                                     else if n = CHR ''q'' \<or> n = CHR ''Q'' then Some (QUIT, 0, ib1, s5)
                                     else Some (0, 0, ib1, s5) })) })"

definition exec_x :: "string \<Rightarrow> bool \<Rightarrow> ed_state \<Rightarrow> outcome" where
  "exec_x ib isglobal s =
     (if second_addr s < 0 \<or> second_addr s > last_addr s then Some (ERR, 0, ib, invalid_address s)
      else
        (case get_command_suffix ib 0 s of
           (False, ib1, pf, s1) \<Rightarrow> Some (ERR, pf, ib1, s1)
         | (True, ib1, pf, s1) \<Rightarrow>
             do { s2 \<leftarrow> (if \<not> isglobal then clear_undo_stack s1 else Some s1);
                  (ok, s3) \<leftarrow> put_lines (second_addr s2) s2;
                  Some (if ok then 0 else ERR, pf, ib1, s3) }))"

definition exec_y :: "int \<Rightarrow> string \<Rightarrow> ed_state \<Rightarrow> outcome" where
  "exec_y addr_cnt ib s =
     (case check_addr_range2 addr_cnt s of
        (False, s1) \<Rightarrow> Some (ERR, 0, ib, s1)
      | (True, s1) \<Rightarrow>
          (case get_command_suffix ib 0 s1 of
             (False, ib1, pf, s2) \<Rightarrow> Some (ERR, pf, ib1, s2)
           | (True, ib1, pf, s2) \<Rightarrow>
               do { (ok, s3) \<leftarrow> yank_lines (first_addr s2) (second_addr s2) s2;
                    Some (if ok then 0 else ERR, pf, ib1, s3) }))"

definition exec_z :: "int \<Rightarrow> string \<Rightarrow> bool \<Rightarrow> ed_state \<Rightarrow> outcome" where
  "exec_z addr_cnt ib isglobal s =
     (case check_second_addr (int32 (current_addr s + (if isglobal then 0 else 1))) addr_cnt s of
        (False, s1) \<Rightarrow> Some (ERR, 0, ib, s1)
      | (True, s1) \<Rightarrow>
          (case (if 48 < (of_char (peek ib) :: nat) \<and> (of_char (peek ib) :: nat) \<le> 57
                 then (case parse_int ib s1 of
                         (None, t, s2) \<Rightarrow> (False, t, s2)
                       | (Some n, t, s2) \<Rightarrow> (True, t, s2\<lparr>win := set_window_lines n (win s2)\<rparr>))
                 else (True, ib, s1)) of
             (False, ib1, s2) \<Rightarrow> Some (ERR, 0, ib1, s2)
           | (True, ib1, s2) \<Rightarrow>
               (case get_command_suffix ib1 0 s2 of
                  (False, ib2, pf, s3) \<Rightarrow> Some (ERR, pf, ib2, s3)
                | (True, ib2, pf, s3) \<Rightarrow>
                    do { (ok, s4) \<leftarrow> print_lines (second_addr s3)
                                       (min (last_addr s3)
                                          (int32 (int32 (second_addr s3 + window_lines (win s3)) - 1)))
                                       pf s3;
                         if \<not> ok then Some (ERR, pf, ib2, s4) else Some (0, 0, ib2, s4) })))"

definition exec_eq :: "string \<Rightarrow> ed_state \<Rightarrow> outcome" where
  "exec_eq ib s =
     (case get_command_suffix ib 0 s of
        (False, ib1, pf, s1) \<Rightarrow> Some (ERR, pf, ib1, s1)
      | (True, ib1, pf, s1) \<Rightarrow> Some (0, pf, ib1, s1))"

definition exec_bang :: "env \<Rightarrow> int \<Rightarrow> string \<Rightarrow> ed_state \<Rightarrow> outcome" where
  "exec_bang E addr_cnt ib s =
     (case unexpected_address addr_cnt s of
        (True, s1) \<Rightarrow> Some (ERR, 0, ib, s1)
      | (False, s1) \<Rightarrow>
          do { (fnp, ib1, s2) \<leftarrow> get_shell_command E ib s1;
               case fnp of
                 None \<Rightarrow> Some (ERR, 0, ib1, s2)
               | Some fn \<Rightarrow>
                   if system_lib E (tl fn) < 0
                   then Some (ERR, 0, ib1, set_error_msg ''Can't create shell process'' s2)
                   else Some (0, 0, ib1, s2) })"

definition exec_newline :: "env \<Rightarrow> int \<Rightarrow> string \<Rightarrow> bool \<Rightarrow> ed_state \<Rightarrow> outcome" where
  "exec_newline E addr_cnt ib isglobal s =
     (case check_second_addr
             (int32 (current_addr s + (if traditional E \<or> \<not> isglobal then 1 else 0))) addr_cnt s of
        (False, s1) \<Rightarrow> Some (ERR, 0, ib, s1)
      | (True, s1) \<Rightarrow>
          do { (ok, s2) \<leftarrow> print_lines (second_addr s1) (second_addr s1) 0 s1;
               if \<not> ok then Some (ERR, 0, ib, s2) else Some (0, 0, ib, s2) })"

text \<open>The case \<open>#\<close>: \<open>while (*(*ibufpp)++ != '\n') {}\<close>.\<close>

definition exec_comment :: "string \<Rightarrow> ed_state \<Rightarrow> outcome" where
  "exec_comment ib s = Some (0, 0, tl (dropWhile (\<lambda>c. c \<noteq> NL) ib), s)"

text \<open>The switch of \<open>exec_command\<close> on the character \<open>c\<close>, after \<open>c = *(*ibufpp)++\<close>.\<close>

definition exec_switch ::
  "env \<Rightarrow> char \<Rightarrow> int \<Rightarrow> string \<Rightarrow> int \<Rightarrow> bool \<Rightarrow> ed_state \<Rightarrow> outcome" where
  "exec_switch E c addr_cnt ib prev_status isglobal s =
     (if c = CHR ''a'' then exec_a False ib isglobal s
      else if c = CHR ''c'' then exec_c addr_cnt ib isglobal s
      else if c = CHR ''d'' then exec_d addr_cnt ib isglobal s
      else if c = CHR ''e'' then exec_e E addr_cnt ib prev_status isglobal s
      else if c = CHR ''E'' then exec_E E addr_cnt ib isglobal s
      else if c = CHR ''f'' then exec_f E addr_cnt ib s
      else if c = CHR ''g'' \<or> c = CHR ''v'' \<or> c = CHR ''G'' \<or> c = CHR ''V''
      then exec_g E c addr_cnt ib isglobal s
      else if c = CHR ''h'' \<or> c = CHR ''H'' then exec_h c addr_cnt ib s
      else if c = CHR ''i'' then exec_a True ib isglobal s
      else if c = CHR ''j'' then exec_j addr_cnt ib isglobal s
      else if c = CHR ''k'' then exec_k ib s
      else if c = CHR ''l'' then exec_p pf_l addr_cnt ib s
      else if c = CHR ''n'' then exec_p pf_n addr_cnt ib s
      else if c = CHR ''p'' then exec_p pf_p addr_cnt ib s
      else if c = CHR ''m'' then exec_m E addr_cnt ib isglobal s
      else if c = CHR ''P'' \<or> c = CHR ''q'' \<or> c = CHR ''Q'' then exec_q c addr_cnt ib prev_status s
      else if c = CHR ''r'' then exec_r E addr_cnt ib isglobal s
      else if c = CHR ''s'' then exec_s E addr_cnt ib isglobal s
      else if c = CHR ''t'' then exec_t E addr_cnt ib isglobal s
      else if c = CHR ''u'' then exec_u addr_cnt ib isglobal s
      else if c = CHR ''w'' \<or> c = CHR ''W'' then exec_w E c addr_cnt ib prev_status s
      else if c = CHR ''x'' then exec_x ib isglobal s
      else if c = CHR ''y'' then exec_y addr_cnt ib s
      else if c = CHR ''z'' then exec_z addr_cnt ib isglobal s
      else if c = CHR ''='' then exec_eq ib s
      else if c = CHR ''!'' then exec_bang E addr_cnt ib s
      else if c = NL then exec_newline E addr_cnt ib isglobal s
      else if c = CHR ''#'' then exec_comment ib s
      else Some (ERR, 0, ib, set_error_msg ''Unknown command'' s))"

text \<open>
  \<open>exec_command\<close> gives the status, the command buffer and the state; the status is 0,
  \<open>QUIT\<close>, \<open>ERR\<close>, \<open>EMOD\<close> or \<open>FATAL\<close>.
\<close>

definition exec_command ::
  "env \<Rightarrow> string \<Rightarrow> int \<Rightarrow> bool \<Rightarrow> ed_state \<Rightarrow> (int \<times> string \<times> ed_state) option" where
  "exec_command E ib prev_status isglobal s =
     do { (addr_cnt, ib1, s1) \<leftarrow> extract_addresses E ib s;
          if addr_cnt < 0 then Some (ERR, ib1, s1)
          else
            do { (status, pflags, ib2, s2) \<leftarrow>
                   exec_switch E (peek (skip_blanks ib1)) addr_cnt (tl (skip_blanks ib1))
                     prev_status isglobal s1;
                 if status \<noteq> 0 then Some (status, ib2, s2)
                 else if pflags \<noteq> 0 then
                   do { (ok, s3) \<leftarrow> print_lines (current_addr s2) (current_addr s2) pflags s2;
                        Some (if ok then 0 else ERR, ib2, s3) }
                 else Some (0, ib2, s2) } }"

section \<open>Rings of line nodes\<close>

text \<open>
  \<open>dpath h x as y\<close>: following \<open>q_forw\<close> from \<open>x\<close> visits the nodes \<open>as\<close> and ends in
  \<open>y\<close>, and \<open>q_back\<close> leads back along the same way. A ring with head \<open>x\<close> and nodes \<open>ns\<close>
  is such a path from \<open>x\<close> through \<open>ns\<close> back to \<open>x\<close>, without repetition.
\<close>

fun dpath :: "(addr \<Rightarrow> line_t) \<Rightarrow> addr \<Rightarrow> addr list \<Rightarrow> addr \<Rightarrow> bool" where
  "dpath h x [] y \<longleftrightarrow> x = y"
| "dpath h x (a # as) y \<longleftrightarrow> q_forw (h x) = a \<and> q_back (h a) = x \<and> dpath h a as y"

definition ring :: "(addr \<Rightarrow> line_t) \<Rightarrow> addr \<Rightarrow> addr list \<Rightarrow> bool" where
  "ring h x ns \<longleftrightarrow> distinct (x # ns) \<and> dpath h x (ns @ [x]) x"

text \<open>
  The editor buffer holds the lines \<open>ns\<close>, in this order: the ring of \<open>buffer_head\<close> has
  these nodes, \<open>last_addr\<close> is their number, and the cache of \<open>search_line_node\<close> holds an
  address with its node.
\<close>

definition buffer_inv :: "ed_state \<Rightarrow> addr list \<Rightarrow> bool" where
  "buffer_inv s ns \<longleftrightarrow>
     ring (heap s) buffer_head ns \<and> last_addr s = int (length ns) \<and>
     0 \<le> o_addr s \<and> o_addr s \<le> last_addr s \<and>
     lp_cache s = (buffer_head # ns) ! nat (o_addr s)"

text \<open>
  The yank buffer holds the nodes \<open>ys\<close>: the ring of \<open>yank_buffer_head\<close>. Its nodes and
  the lines \<open>ns\<close> of the editor buffer are allocated nodes, and no node is in both.
\<close>

definition yank_inv :: "ed_state \<Rightarrow> addr list \<Rightarrow> addr list \<Rightarrow> bool" where
  "yank_inv s ns ys \<longleftrightarrow>
     ring (heap s) yank_buffer_head ys \<and>
     (\<forall>a \<in> set ns \<union> set ys. 2 \<le> a \<and> a < brk s) \<and>
     set ns \<inter> set ys = {} \<and> 2 \<le> brk s"

text \<open>
  \<open>fpath h bp ds ep\<close>: a loop \<open>while (bp != ep) bp = bp->q_forw\<close> visits the nodes \<open>ds\<close>
  and then stops.
\<close>

fun fpath :: "(addr \<Rightarrow> line_t) \<Rightarrow> addr \<Rightarrow> addr list \<Rightarrow> addr \<Rightarrow> bool" where
  "fpath h bp [] ep \<longleftrightarrow> bp = ep"
| "fpath h bp (d # ds) ep \<longleftrightarrow> bp = d \<and> d \<noteq> ep \<and> fpath h (q_forw (h d)) ds ep"

text \<open>The text of a node is found by its \<open>pos\<close> and \<open>len\<close>.\<close>

definition line_text :: "(addr \<Rightarrow> line_t) \<Rightarrow> addr \<Rightarrow> int \<times> int" where
  "line_text h a = (pos (h a), len (h a))"

section \<open>Well-formed undo frames\<close>

text \<open>
  What one turn of the first loop of \<open>undo\<close> does to the heap: for a \<open>UADD\<close> atom, for a
  \<open>UDEL\<close> atom, and for a pair of move atoms (\<open>v\<close> below \<open>u\<close> on the stack).
\<close>

definition undo_add :: "(addr \<Rightarrow> line_t) \<Rightarrow> undo_t \<Rightarrow> (addr \<Rightarrow> line_t)" where
  "undo_add h u = link_nodes (q_back (h (head u))) (q_forw (h (tail u))) h"

definition undo_del :: "(addr \<Rightarrow> line_t) \<Rightarrow> undo_t \<Rightarrow> (addr \<Rightarrow> line_t)" where
  "undo_del h u =
     (let h1 = link_nodes (q_back (h (head u))) (head u) h
      in link_nodes (tail u) (q_forw (h1 (tail u))) h1)"

definition undo_mov :: "(addr \<Rightarrow> line_t) \<Rightarrow> undo_t \<Rightarrow> undo_t \<Rightarrow> (addr \<Rightarrow> line_t)" where
  "undo_mov h v u =
     (let h1 = link_nodes (head v) (q_forw (h (head u))) h;
          h2 = link_nodes (q_back (h1 (tail u))) (tail v) h1
      in link_nodes (head u) (tail u) h2)"

text \<open>
  An atom fits the heap when the links say what the atom records. A \<open>UADD\<close> atom: its
  range is linked in, between the node before its head and the node after its tail. A
  \<open>UDEL\<close> atom: its range is linked out, and the two nodes that its ends still point to are
  neighbours. A pair of move atoms: the nodes of the lower atom are neighbours (where the
  range was taken out), and a non-empty range is linked in between the nodes of the upper
  atom.
\<close>

definition add_ok :: "(addr \<Rightarrow> line_t) \<Rightarrow> undo_t \<Rightarrow> bool" where
  "add_ok h u \<longleftrightarrow>
     q_forw (h (q_back (h (head u)))) = head u \<and>
     q_back (h (q_forw (h (tail u)))) = tail u \<and>
     tail u \<noteq> q_back (h (head u))"

definition del_ok :: "(addr \<Rightarrow> line_t) \<Rightarrow> undo_t \<Rightarrow> bool" where
  "del_ok h u \<longleftrightarrow>
     q_forw (h (q_back (h (head u)))) = q_forw (h (tail u)) \<and>
     q_back (h (q_forw (h (tail u)))) = q_back (h (head u)) \<and>
     tail u \<noteq> q_back (h (head u)) \<and>
     head u \<noteq> q_forw (h (tail u))"

definition is_mov :: "undo_t \<Rightarrow> bool" where
  "is_mov u \<longleftrightarrow> type u = UMOV \<or> type u = VMOV"

definition mov_ok :: "(addr \<Rightarrow> line_t) \<Rightarrow> undo_t \<Rightarrow> undo_t \<Rightarrow> bool" where
  "mov_ok h v u \<longleftrightarrow>
     is_mov v \<and> is_mov u \<and>
     q_forw (h (head v)) = tail v \<and> q_back (h (tail v)) = head v \<and>
     q_back (h (q_forw (h (head u)))) = head u \<and>
     q_forw (h (q_back (h (tail u)))) = tail u \<and>
     head v \<noteq> head u \<and> head v \<noteq> q_back (h (tail u)) \<and> q_forw (h (head u)) \<noteq> tail u"

text \<open>
  A frame, given from the top of the stack down, is well formed when each atom fits the
  heap at the moment \<open>undo\<close> reaches it.
\<close>

fun frame_ok :: "(addr \<Rightarrow> line_t) \<Rightarrow> undo_t list \<Rightarrow> bool" where
  "frame_ok h [] \<longleftrightarrow> True"
| "frame_ok h [u] \<longleftrightarrow>
     (case type u of
        UADD \<Rightarrow> add_ok h u
      | UDEL \<Rightarrow> del_ok h u
      | _ \<Rightarrow> False)"
| "frame_ok h (u # v # rest) \<longleftrightarrow>
     (case type u of
        UADD \<Rightarrow> add_ok h u \<and> frame_ok (undo_add h u) (v # rest)
      | UDEL \<Rightarrow> del_ok h u \<and> frame_ok (undo_del h u) (v # rest)
      | _ \<Rightarrow> mov_ok h v u \<and> frame_ok (undo_mov h v u) rest)"

text \<open>
  The first loop of \<open>undo\<close> as a pass over the atoms from the top of the stack down: the
  atoms as the loop leaves them, in the same order, and the heap. The loop flips the type
  of single atoms and, of a pair of move atoms, that of the lower one.
\<close>

definition flip :: "undo_t \<Rightarrow> undo_t" where
  "flip u = u\<lparr>type := xor1 (type u)\<rparr>"

fun undo_pass :: "(addr \<Rightarrow> line_t) \<Rightarrow> undo_t list \<Rightarrow> (undo_t list \<times> (addr \<Rightarrow> line_t)) option" where
  "undo_pass h [] = Some ([], h)"
| "undo_pass h [u] =
     (case type u of
        UADD \<Rightarrow> Some ([flip u], undo_add h u)
      | UDEL \<Rightarrow> Some ([flip u], undo_del h u)
      | _ \<Rightarrow> None)"
| "undo_pass h (u # v # rest) =
     (case type u of
        UADD \<Rightarrow> map_option (\<lambda>(r, h'). (flip u # r, h')) (undo_pass (undo_add h u) (v # rest))
      | UDEL \<Rightarrow> map_option (\<lambda>(r, h'). (flip u # r, h')) (undo_pass (undo_del h u) (v # rest))
      | _ \<Rightarrow> map_option (\<lambda>(r, h'). (u # flip v # r, h')) (undo_pass (undo_mov h v u) rest))"

definition undo_frame_ok :: "ed_state \<Rightarrow> bool" where
  "undo_frame_ok s \<longleftrightarrow> frame_ok (heap s) (rev (ustack s))"

text \<open>
  The lines of the buffer: the nodes that \<open>search_line_node\<close> finds from \<open>buffer_head\<close> at
  the addresses 1 to \<open>last_addr\<close>, each with its text position and length.
\<close>

definition buffer_lines :: "ed_state \<Rightarrow> (addr \<times> int \<times> int) list" where
  "buffer_lines s =
     map (\<lambda>k. let a = walk_forw (heap s) buffer_head (Suc k)
               in (a, pos (heap s a), len (heap s a)))
         [0 ..< nat (last_addr s)]"

section \<open>Example states\<close>

text \<open>
  The state after \<open>init_buffers\<close>: both rings are empty and the statics have their
  initial values. Every allocation succeeds.
\<close>

definition node :: "addr \<Rightarrow> addr \<Rightarrow> int \<Rightarrow> int \<Rightarrow> line_t" where
  "node f b p l = \<lparr>q_forw = f, q_back = b, pos = p, len = l\<rparr>"

definition init_state :: ed_state where
  "init_state =
     \<lparr>heap = (\<lambda>a. node a a 0 0),
      brk = 2, alloc_oracle = [],
      current_addr = 0, last_addr = 0, isbinary = False, modified = False,
      lp_cache = buffer_head, o_addr = 0,
      ustack = [], ustack_null = True, usize = 0,
      u_current_addr = - 1, u_last_addr = - 1, u_modified = False,
      active_list = [], active_idx = 0, active_idxm = 0,
      mark = replicate 26 None, markno = 0, unterminated_line = None,
      sfile = [], sfpos = 0, seek_write = False, sbuf_bufsz = 0, errmsg = [],
      first_addr = 0, second_addr = 0, def_filename = [], verbose = False, prompt_on = False,
      stdin = [], stdin_error = False, linenum = 0, bufsz = (\<lambda>f. 0),
      rcache = \<lparr>store = [None, None, None], last_regexp = None, subst_regexp = None\<rparr>,
      rbuf = None, s_pflags = 0, s_pmask = 4, s_snum = 1, shcmd = [],
      win = initial_window, fs = Map.empty\<rparr>"

text \<open>
  A buffer with the three lines \<open>x\<close>, \<open>y\<close>, \<open>z\<close> in the nodes 2, 3 and 4, their text at
  the offsets 0, 1 and 2 of the scratch file, and an empty undo frame.
\<close>

definition three_lines :: ed_state where
  "three_lines =
     init_state\<lparr>heap := (\<lambda>a. node a a 0 0)
                    (0 := node 2 4 0 0, 2 := node 3 0 0 1, 3 := node 4 2 1 1, 4 := node 0 3 2 1),
                brk := 5, current_addr := 3, last_addr := 3,
                sfile := [120, 121, 122], sfpos := 3,
                u_current_addr := 3, u_last_addr := 3\<rparr>"

text \<open>
  The buffer of \<open>three_lines\<close> after the command \<open>2d\<close>: the line \<open>y\<close> is linked out and
  recorded in a \<open>UDEL\<close> atom, its copy is the node 5 in the yank buffer.
\<close>

definition after_2d :: ed_state where
  "after_2d =
     three_lines\<lparr>heap := (\<lambda>a. node a a 0 0)
                    (0 := node 2 4 0 0, 1 := node 5 5 0 0, 2 := node 4 0 0 1, 3 := node 4 2 1 1,
                     4 := node 0 2 2 1, 5 := node 1 1 1 1),
                  brk := 6, current_addr := 2, last_addr := 2, modified := True,
                  lp_cache := 2, o_addr := 1,
                  ustack := [\<lparr>type = UDEL, head = 3, tail = 3\<rparr>],
                  ustack_null := False, usize := 512\<rparr>"

text \<open>
  The three lines as a binary buffer whose last line has no newline, and a stream that
  never fails.
\<close>

definition binary_lines :: ed_state where
  "binary_lines = three_lines\<lparr>isbinary := True, unterminated_line := Some 4\<rparr>"

definition stdout0 :: ostream where
  "stdout0 = \<lparr>written = [], room = None\<rparr>"

definition quiet_env :: env where
  "quiet_env =
     \<lparr>traditional = False, restricted = False, scripted = True, strip_cr = False,
      extended_regexp = False,
      regcomp_lib = (\<lambda>pat ext ic. Inr 0),
      regexec_lib = (\<lambda>r t. False),
      replace_lib = (\<lambda>r tpl snum bin t. Inr None),
      pathconf_lib = (4096, False),
      popen_r = (\<lambda>cmd. None), popen_w = (\<lambda>cmd. False),
      fopen_w = (\<lambda>name. True), read_fails = (\<lambda>name. False), close_fails = (\<lambda>name. False),
      file_room = (\<lambda>name. None), system_lib = (\<lambda>cmd. 0),
      global_lib = (\<lambda>c ib s. Some (0, 0, ib, s))\<rparr>"

definition named_empty :: ed_state where
  "named_empty = init_state\<lparr>def_filename := ''f''\<rparr>"

definition fails_invalid :: "outcome \<Rightarrow> bool" where
  "fails_invalid r \<longleftrightarrow> (\<exists>pf ib' s'. r = Some (ERR, pf, ib', s') \<and> errmsg s' = ''Invalid address'')"






section \<open>Properties of the growable buffer\<close>

lemma granule_ge: "512 \<le> (n::nat) \<Longrightarrow> n \<le> n div 512 * 1024"
proof -
  assume a: "512 \<le> n"
  have "n = n div 512 * 512 + n mod 512" by simp
  moreover have "n mod 512 < 512" by simp
  moreover have "1 \<le> n div 512" using a by (simp add: Suc_le_eq div_greater_zero_iff)
  ultimately show ?thesis by linarith
qed

lemma grow_ge:
  fixes m :: "32 word"
  assumes "512 \<le> m" "m \<le> 0x3FFFFFFF"
  shows "m \<le> (m div 512) * 1024" "1024 dvd unat ((m div 512) * 1024)" "(m div 512) * 1024 \<le> 0x7FFFFFFF" "512 \<le> (m div 512) * 1024"
proof -
  have a: "512 \<le> unat m" "unat m \<le> 1073741823"
    using assms by (simp_all add: word_le_nat_alt)
  have d: "unat (m div 512) = unat m div 512" by (simp add: unat_div)
  have bound: "unat m div 512 * 1024 < 2 ^ 32" using a by simp
  have e: "unat ((m div 512) * 1024) = unat m div 512 * 1024"
    using bound by (simp add: unat_word_ariths d)
  have "unat m \<le> unat m div 512 * 1024" using a(1) by (rule granule_ge)
  then show "m \<le> (m div 512) * 1024" by (simp add: word_le_nat_alt e)
  show "1024 dvd unat ((m div 512) * 1024)" by (simp add: e)
  show "(m div 512) * 1024 \<le> 0x7FFFFFFF" using a by (simp add: word_le_nat_alt e)
  show "512 \<le> (m div 512) * 1024" using a by (simp add: word_le_nat_alt e)
qed

text \<open>
  Claim C8, as the code has it. \<open>resize_buffer\<close> changes the capacity only when it is below
  \<open>min_size\<close> (compared as unsigned). Then the new capacity is 512 for a \<open>min_size\<close> below
  512, \<open>INT_MAX\<close> for one above \<open>INT_MAX / 2\<close>, and \<open>(min_size / 512) * 1024\<close> otherwise:
  at least \<open>min_size\<close>, at least 512, at most \<open>INT_MAX\<close>, and a multiple of 1024 unless it
  is 512 or \<open>INT_MAX\<close>. A capacity that already suffices is returned unchanged. When growth is
  needed and \<open>min_size\<close> is \<open>INT_MAX\<close> or more, the call fails with "Line too long"; when
  it is less, the call succeeds with this new capacity if the allocation succeeds, and
  fails with "Memory exhausted" if it does not.
\<close>

theorem resize_buffer_capacity:
  "(resize_buffer alloc_ok sz min_size = Inr c \<longrightarrow>
      min_size \<le> c \<and>
      (if sz < min_size
       then 512 \<le> c \<and> c \<le> INT_MAX \<and> (c = 512 \<or> c = INT_MAX \<or> 1024 dvd unat c)
       else c = sz)) \<and>
   (sz < min_size \<and> INT_MAX \<le> min_size \<longrightarrow>
      resize_buffer alloc_ok sz min_size = Inl LineTooLong) \<and>
   (sz < min_size \<and> min_size < INT_MAX \<and> alloc_ok \<longrightarrow>
      (\<exists>c'. resize_buffer alloc_ok sz min_size = Inr c')) \<and>
   (resize_buffer alloc_ok sz min_size = Inr c \<and> sz < min_size \<longrightarrow>
      c = (if min_size < 512 then 512
           else if 0x3FFFFFFF < min_size then 0x7FFFFFFF
           else (min_size div 512) * 1024)) \<and>
   (sz < min_size \<and> min_size < INT_MAX \<and> alloc_ok \<longrightarrow>
      resize_buffer alloc_ok sz min_size =
        Inr (if min_size < 512 then 512
             else if 0x3FFFFFFF < min_size then 0x7FFFFFFF
             else (min_size div 512) * 1024)) \<and>
   (sz < min_size \<and> min_size < INT_MAX \<and> \<not> alloc_ok \<longrightarrow>
      resize_buffer alloc_ok sz min_size = Inl MemoryExhausted)"
proof (intro conjI impI)
  assume r: "resize_buffer alloc_ok sz min_size = Inr c"
  show "min_size \<le> c"
  proof (cases "sz < min_size")
    case False
    with r show ?thesis by (simp add: resize_buffer_def)
  next
    case True
    show ?thesis
    proof (cases "min_size < 512")
      case True
      with r \<open>sz < min_size\<close> show ?thesis
        by (auto simp: resize_buffer_def INT_MAX_def Let_def split: if_splits)
    next
      case False
      then have ge: "512 \<le> min_size" by simp
      show ?thesis
      proof (cases "min_size > 0x3FFFFFFF")
        case True
        with r \<open>sz < min_size\<close> ge show ?thesis
          by (auto simp: resize_buffer_def INT_MAX_def Let_def split: if_splits)
      next
        case False
        then have "min_size \<le> 0x3FFFFFFF" by simp
        from grow_ge(1)[OF ge this] r \<open>sz < min_size\<close> ge False show ?thesis
          by (auto simp: resize_buffer_def INT_MAX_def Let_def split: if_splits)
      qed
    qed
  qed
  show "if sz < min_size
       then 512 \<le> c \<and> c \<le> INT_MAX \<and> (c = 512 \<or> c = INT_MAX \<or> 1024 dvd unat c)
       else c = sz"
  proof (cases "sz < min_size")
    case False
    with r show ?thesis by (simp add: resize_buffer_def)
  next
    case True
    show ?thesis
    proof (cases "min_size < 512")
      case True
      with r \<open>sz < min_size\<close> show ?thesis
        by (auto simp: resize_buffer_def INT_MAX_def Let_def split: if_splits)
    next
      case False
      then have ge: "512 \<le> min_size" by simp
      show ?thesis
      proof (cases "min_size > 0x3FFFFFFF")
        case True
        with r \<open>sz < min_size\<close> ge show ?thesis
          by (auto simp: resize_buffer_def INT_MAX_def Let_def split: if_splits)
      next
        case False
        then have "min_size \<le> 0x3FFFFFFF" by simp
        from grow_ge[OF ge this] r \<open>sz < min_size\<close> ge False show ?thesis
          by (auto simp: resize_buffer_def INT_MAX_def Let_def split: if_splits)
      qed
    qed
  qed
next
  assume "sz < min_size \<and> INT_MAX \<le> min_size"
  then show "resize_buffer alloc_ok sz min_size = Inl LineTooLong"
    by (simp add: resize_buffer_def)
next
  assume "sz < min_size \<and> min_size < INT_MAX \<and> alloc_ok"
  then show "\<exists>c'. resize_buffer alloc_ok sz min_size = Inr c'"
    by (auto simp: resize_buffer_def Let_def)
next
  have half: "INT_MAX div 2 = (0x3FFFFFFF :: 32 word)" by (simp add: INT_MAX_def)
  assume "resize_buffer alloc_ok sz min_size = Inr c \<and> sz < min_size"
  then show "c = (if min_size < 512 then 512
           else if 0x3FFFFFFF < min_size then 0x7FFFFFFF
           else (min_size div 512) * 1024)"
    unfolding resize_buffer_def half by (auto simp: INT_MAX_def Let_def split: if_splits)
next
  have half: "INT_MAX div 2 = (0x3FFFFFFF :: 32 word)" by (simp add: INT_MAX_def)
  assume "sz < min_size \<and> min_size < INT_MAX \<and> alloc_ok"
  then show "resize_buffer alloc_ok sz min_size =
        Inr (if min_size < 512 then 512
             else if 0x3FFFFFFF < min_size then 0x7FFFFFFF
             else (min_size div 512) * 1024)"
    unfolding resize_buffer_def half by (auto simp: INT_MAX_def Let_def)
next
  assume "sz < min_size \<and> min_size < INT_MAX \<and> \<not> alloc_ok"
  then show "resize_buffer alloc_ok sz min_size = Inl MemoryExhausted"
    by (auto simp: resize_buffer_def Let_def)
qed

theorem resize_buffer_capacity_witness:
  "resize_buffer True 0 1300 = Inr 2048 \<and> (1300 :: 32 word) \<le> 2048 \<and>
   1024 dvd unat (2048 :: 32 word) \<and>
   resize_buffer True 0 100 = Inr 512 \<and>
   resize_buffer True 0 0x40000000 = Inr 0x7FFFFFFF \<and>
   resize_buffer False 0 100 = Inl MemoryExhausted \<and>
   resize_buffer True 0 0x80000000 = Inl LineTooLong"
  using resize_buffer_capacity[of True 0 1300 2048] resize_buffer_capacity[of True 0 "0x80000000" 0]
    resize_buffer_capacity[of True 0 100 512] resize_buffer_capacity[of True 0 "0x40000000" 0]
    resize_buffer_capacity[of False 0 100 0]
  by (simp add: resize_buffer_def INT_MAX_def)

text \<open>
  Claim C8 as stated fails: a call that needs no growth succeeds and leaves the capacity as
  it is, also when that is below 512. \<open>join_lines\<close> makes this call for an empty first
  line, with its buffer still unallocated: \<open>resize_buffer (&buf, &bufsz, 0)\<close> with
  \<open>bufsz = 0\<close>.
\<close>

theorem resize_buffer_capacity_counterexample:
  "resize_buffer True 0 0 = Inr 0 \<and> \<not> (512 \<le> (0 :: 32 word))"
  by (simp add: resize_buffer_def)

section \<open>Properties of the window size handler\<close>

text \<open>
  Claim C9, as the code has it. The scroll lines become \<open>ws_row - 2\<close> exactly when
  \<open>2 < ws_row < 600\<close> and the list columns \<open>ws_col - 8\<close> exactly when \<open>8 < ws_col < 1800\<close>;
  outside these open intervals, and when the \<open>ioctl\<close> fails, the old value stays. So
  scroll lines and columns that are at least 1 stay at least 1, and a window of fewer than
  3 rows leaves the scroll lines as they are.
\<close>

theorem sigwinch_handler_effect:
  "window_lines (sigwinch_handler (Some ws) w) =
      (if 2 < uint (ws_row ws) \<and> uint (ws_row ws) < 600 then uint (ws_row ws) - 2 else window_lines w) \<and>
   window_columns (sigwinch_handler (Some ws) w) =
      (if 8 < uint (ws_col ws) \<and> uint (ws_col ws) < 1800 then uint (ws_col ws) - 8 else window_columns w) \<and>
   sigwinch_handler None w = w \<and>
   (1 \<le> window_lines w \<longrightarrow> 1 \<le> window_lines (sigwinch_handler io w)) \<and>
   (1 \<le> window_columns w \<longrightarrow> 1 \<le> window_columns (sigwinch_handler io w)) \<and>
   (uint (ws_row ws) < 3 \<longrightarrow> window_lines (sigwinch_handler (Some ws) w) = window_lines w)"
  by (cases io) (auto simp: sigwinch_handler_def Let_def)

theorem sigwinch_handler_effect_witness:
  "1 \<le> window_lines initial_window \<and> 1 \<le> window_columns initial_window \<and>
   uint (ws_row \<lparr>ws_row = 2, ws_col = 100\<rparr>) < 3 \<and>
   sigwinch_handler (Some \<lparr>ws_row = 2, ws_col = 100\<rparr>) initial_window =
     \<lparr>window_lines = 22, window_columns = 92\<rparr> \<and>
   1 \<le> window_lines (sigwinch_handler (Some \<lparr>ws_row = 2, ws_col = 100\<rparr>) initial_window)"
  using sigwinch_handler_effect[of "\<lparr>ws_row = 2, ws_col = 100\<rparr>" initial_window
          "Some \<lparr>ws_row = 2, ws_col = 100\<rparr>"]
  by (simp add: sigwinch_handler_def initial_window_def)

text \<open>
  Claim C9 as stated fails: 600 rows lie in the interval [2, 600], and \<open>600 - 2 = 598\<close> does
  too, but the handler leaves the scroll lines at their old value.
\<close>

theorem sigwinch_handler_counterexample:
  "window_lines (sigwinch_handler (Some \<lparr>ws_row = 600, ws_col = 80\<rparr>) initial_window) = 22 \<and>
   (22 :: int) \<noteq> max 2 (min 600 (600 - 2))"
  by (simp add: sigwinch_handler_def initial_window_def)

section \<open>Properties of the highlighter copy\<close>

lemma copy_loop_spec:
  "999 < length out \<Longrightarrow> n \<le> 999 \<Longrightarrow>
   \<exists>rest. copy_loop xs out n =
      Some (rest, take n out @ take (999 - n) xs @ drop (n + min (length xs) (999 - n)) out,
            n + min (length xs) (999 - n))"
proof (induction xs arbitrary: out n)
  case Nil
  then show ?case by simp
next
  case (Cons c xs)
  show ?case
  proof (cases "n < 999")
    case False
    with Cons.prems show ?thesis by simp
  next
    case True
    with Cons.prems have st: "store_byte out n c = Some (out[n := c])"
      by (simp add: store_byte_def)
    have len: "999 < length (out[n := c])" using Cons.prems by simp
    from True have n1: "Suc n \<le> 999" by simp
    from Cons.IH[OF len n1] obtain rest where
      r: "copy_loop xs (out[n := c]) (Suc n) =
          Some (rest, take (Suc n) (out[n := c]) @ take (999 - Suc n) xs @
                       drop (Suc n + min (length xs) (999 - Suc n)) (out[n := c]),
                Suc n + min (length xs) (999 - Suc n))"
      by blast
    have t1: "take (Suc n) (out[n := c]) = take n out @ [c]"
      using True Cons.prems by (simp add: take_Suc_conv_app_nth)
    have t2: "take (999 - n) (c # xs) = c # take (999 - Suc n) xs"
      using True by (simp add: take_Cons')
    have t4: "Suc n + min (length xs) (999 - Suc n) = n + min (length (c # xs)) (999 - n)"
      using True by (auto simp: min_def)
    have t3: "drop (Suc n + min (length xs) (999 - Suc n)) (out[n := c]) =
              drop (n + min (length (c # xs)) (999 - n)) out"
      unfolding t4 using True by (auto simp: min_def)
    show ?thesis
      using True st r by (simp only: copy_loop.simps if_True option.case t1 t2 t3 t4) simp
  qed
qed

text \<open>
  Claim C10. Into the 1000-byte buffer of \<open>print_line\<close>, \<open>highlight\<close> never stores out of
  range: it returns with \<open>*nchar\<close> between 0 and 999, the first \<open>*nchar\<close> bytes of the
  buffer are the first bytes of what \<open>ops\<close> held, a NUL follows them, and the bytes after the
  NUL are untouched.
\<close>

theorem highlight_within_buffer:
  assumes "length out = 1000"
  shows "\<exists>out' n st'. highlight srchilite input ilen out st = Some (out', n, st') \<and>
           0 \<le> n \<and> n \<le> 999 \<and>
           n = int (min (length (ops st @ srchilite (ips st @ take (nat ilen) input))) 999) \<and>
           length out' = 1000 \<and>
           take (nat n) out' = take (nat n) (ops st @ srchilite (ips st @ take (nat ilen) input)) \<and>
           out' ! nat n = 0 \<and>
           drop (nat n + 1) out' = drop (nat n + 1) out"
proof -
  define src where "src = ops st @ srchilite (ips st @ take (nat ilen) input)"
  define m where "m = min (length src) 999"
  have l: "999 < length out" using assms by simp
  from copy_loop_spec[OF l, of 0 src] obtain rest where
    c: "copy_loop src out 0 = Some (rest, take 999 src @ drop m out, m)"
    by (auto simp: m_def)
  have lt: "length (take 999 src @ drop m out) = 1000"
    using assms by (simp add: m_def min_def)
  have mlt: "m < length (take 999 src @ drop m out)" unfolding lt by (simp add: m_def)
  have lentake: "length (take 999 src) = m" by (simp add: m_def min_def)
  have h: "highlight srchilite input ilen out st =
             Some ((take 999 src @ drop m out)[m := 0], int m, \<lparr>ips = [], ops = rest\<rparr>)"
    using c mlt by (simp add: highlight_def Let_def src_def[symmetric] store_byte_def)
  have a: "take m ((take 999 src @ drop m out)[m := 0]) = take m src"
    using lentake by (simp add: m_def min_def)
  have b: "(take 999 src @ drop m out)[m := 0] ! m = 0"
    using mlt by simp
  have d: "drop (m + 1) ((take 999 src @ drop m out)[m := 0]) = drop (m + 1) out"
    using lentake by (simp add: drop_Suc[symmetric] del: drop_Suc) 
  show ?thesis
    using h a b d lt mlt by (simp add: src_def[symmetric] m_def[symmetric]) 
qed

theorem highlight_within_buffer_witness:
  "length (replicate 1000 (7 :: byte)) = 1000 \<and>
   (\<exists>out' st'. highlight (\<lambda>x. x) [104, 105] 2 (replicate 1000 7) \<lparr>ips = [], ops = []\<rparr> =
        Some (out', 2, st') \<and>
      take 2 out' = [104, 105] \<and> out' ! 2 = 0 \<and> drop 3 out' = replicate 997 7)"
  using highlight_within_buffer[of "replicate 1000 7" "\<lambda>x. x" "[104, 105]" 2 "\<lparr>ips = [], ops = []\<rparr>"]
  by auto

section \<open>Properties of the regex pool\<close>

lemma pick_slot_free:
  "pick_slot l s < 3 \<and> Some (pick_slot l s) \<noteq> l \<and> Some (pick_slot l s) \<noteq> s"
  by (cases l; cases s) (auto simp: pick_slot_def)

text \<open>
  Claim C7. \<open>compile_regex\<close> compiles into a slot that neither \<open>last_regexp\<close> nor
  \<open>subst_regexp\<close> points to. When \<open>regcomp\<close> fails, both pointers and the slots they point
  to are as before. When it succeeds, \<open>last_regexp\<close> points to the new expression, and
  \<open>subst_regexp\<close> and its slot are as before.
\<close>

theorem compile_regex_keeps_cache:
  assumes len: "length (store rc) = 3"
  shows "pick_slot (last_regexp rc) (subst_regexp rc) < 3 \<and>
     Some (pick_slot (last_regexp rc) (subst_regexp rc)) \<noteq> last_regexp rc \<and>
     Some (pick_slot (last_regexp rc) (subst_regexp rc)) \<noteq> subst_regexp rc \<and>
     (\<forall>txt. regcomp pat ext ic = Inl txt \<longrightarrow>
        (\<exists>rc'. compile_regex regcomp ext pat ic rc = (Inl (RegexError txt), rc') \<and>
           last_regexp rc' = last_regexp rc \<and> subst_regexp rc' = subst_regexp rc \<and>
           (\<forall>i. Some i = last_regexp rc \<or> Some i = subst_regexp rc \<longrightarrow>
                store rc' ! i = store rc ! i))) \<and>
     (\<forall>r. regcomp pat ext ic = Inr r \<longrightarrow>
        (\<exists>rc'. compile_regex regcomp ext pat ic rc =
                 (Inr (pick_slot (last_regexp rc) (subst_regexp rc)), rc') \<and>
           last_regexp rc' = Some (pick_slot (last_regexp rc) (subst_regexp rc)) \<and>
           store rc' ! pick_slot (last_regexp rc) (subst_regexp rc) = Some r \<and>
           subst_regexp rc' = subst_regexp rc \<and>
           (\<forall>j. subst_regexp rc = Some j \<longrightarrow> store rc' ! j = store rc ! j)))"
proof -
  define e where "e = pick_slot (last_regexp rc) (subst_regexp rc)"
  have e: "e < 3" "Some e \<noteq> last_regexp rc" "Some e \<noteq> subst_regexp rc"
    using pick_slot_free[of "last_regexp rc" "subst_regexp rc"] by (simp_all add: e_def)
  have ne: "\<And>i. Some i = last_regexp rc \<or> Some i = subst_regexp rc \<Longrightarrow> e \<noteq> i"
    using e by auto
  have upd: "\<And>i v. Some i = last_regexp rc \<or> Some i = subst_regexp rc \<Longrightarrow>
               (store rc)[e := v] ! i = store rc ! i"
    using ne by (simp add: nth_list_update_neq)
  have fail: "\<forall>txt. regcomp pat ext ic = Inl txt \<longrightarrow>
        (\<exists>rc'. compile_regex regcomp ext pat ic rc = (Inl (RegexError txt), rc') \<and>
           last_regexp rc' = last_regexp rc \<and> subst_regexp rc' = subst_regexp rc \<and>
           (\<forall>i. Some i = last_regexp rc \<or> Some i = subst_regexp rc \<longrightarrow>
                store rc' ! i = store rc ! i))"
    using e upd by (auto simp: compile_regex_def Let_def e_def[symmetric])
  have ok: "\<forall>r. regcomp pat ext ic = Inr r \<longrightarrow>
        (\<exists>rc'. compile_regex regcomp ext pat ic rc = (Inr e, rc') \<and>
           last_regexp rc' = Some e \<and> store rc' ! e = Some r \<and>
           subst_regexp rc' = subst_regexp rc \<and>
           (\<forall>j. subst_regexp rc = Some j \<longrightarrow> store rc' ! j = store rc ! j))"
    using e len upd
    by (auto simp: compile_regex_def Let_def e_def[symmetric] regfree_def nth_list_update_neq split: option.splits)
  show ?thesis using e fail ok unfolding e_def by blast
qed

theorem compile_regex_keeps_cache_witness:
  "length (store \<lparr>store = [Some (10::nat), Some 20, None], last_regexp = Some 0, subst_regexp = Some 1\<rparr>) = 3 \<and>
   compile_regex (\<lambda>p e i. if p = ''a'' then Inr 30 else Inl ''Unmatched [''  ) False ''[''  False
      \<lparr>store = [Some (10::nat), Some 20, None], last_regexp = Some 0, subst_regexp = Some 1\<rparr> =
     (Inl (RegexError ''Unmatched [''),
      \<lparr>store = [Some 10, Some 20, None], last_regexp = Some 0, subst_regexp = Some 1\<rparr>) \<and>
   compile_regex (\<lambda>p e i. if p = ''a'' then Inr 30 else Inl ''Unmatched [''  ) False ''a''  False
      \<lparr>store = [Some (10::nat), Some 20, None], last_regexp = Some 0, subst_regexp = Some 1\<rparr> =
     (Inr 2,
      \<lparr>store = [None, Some 20, Some 30], last_regexp = Some 2, subst_regexp = Some 1\<rparr>)"
  using compile_regex_keeps_cache[of "\<lparr>store = [Some (10::nat), Some 20, None], last_regexp = Some 0, subst_regexp = Some 1\<rparr>"
      "(\<lambda>p e i. if p = ''a'' then Inr 30 else Inl ''Unmatched ['')" "''[''" False False]
  by (simp add: compile_regex_def pick_slot_def regfree_def)

lemma dpath_append:
  "dpath h x (as @ bs) z \<longleftrightarrow> (\<exists>y. dpath h x as y \<and> dpath h y bs z)"
  by (induction as arbitrary: x) auto

lemma dpath_last: "dpath h x as y \<Longrightarrow> y = last (x # as)"
  by (induction as arbitrary: x) auto

lemma dpath_upd_forw:
  "u \<notin> set (butlast (x # as)) \<Longrightarrow> dpath (h(u := (h u)\<lparr>q_forw := v\<rparr>)) x as y = dpath h x as y"
  by (induction as arbitrary: x) auto

lemma dpath_upd_back:
  "u \<notin> set as \<Longrightarrow> dpath (h(u := (h u)\<lparr>q_back := v\<rparr>)) x as y = dpath h x as y"
  by (induction as arbitrary: x) auto

lemma dpath_upd_other:
  "u \<notin> set (x # as) \<Longrightarrow> dpath (h(u := w)) x as y = dpath h x as y"
  by (induction as arbitrary: x) auto

lemma dpath_walk_forw:
  "dpath h x as y \<Longrightarrow> k \<le> length as \<Longrightarrow> walk_forw h x k = (x # as) ! k"
proof (induction as arbitrary: x k)
  case Nil then show ?case by simp
next
  case (Cons a as)
  then show ?case by (cases k) auto
qed

lemma dpath_snoc:
  "dpath h x (as @ [a]) y \<Longrightarrow> \<exists>m. dpath h x as m \<and> q_forw (h m) = a \<and> q_back (h a) = m \<and> y = a"
  by (auto simp: dpath_append)

lemma dpath_walk_back_rev:
  "dpath h x as y \<Longrightarrow> k \<le> length as \<Longrightarrow> walk_back h y k = rev (x # as) ! k"
proof (induction as arbitrary: y k rule: rev_induct)
  case Nil then show ?case by simp
next
  case (snoc a as)
  from dpath_snoc[OF snoc.prems(1)] obtain m where
    m: "dpath h x as m" "q_forw (h m) = a" "q_back (h a) = m" "y = a"
    by blast
  show ?case
  proof (cases k)
    case 0
    with m(4) show ?thesis by simp
  next
    case (Suc j)
    with snoc.prems have j: "j \<le> length as" by simp
    have "walk_back h y k = walk_back h m j" using m(3,4) Suc by simp
    also have "\<dots> = rev (x # as) ! j" by (rule snoc.IH[OF m(1) j])
    also have "\<dots> = rev (x # as @ [a]) ! k" using Suc by simp
    finally show ?thesis .
  qed
qed

lemma dpath_walk_back:
  assumes "dpath h x as y" "k \<le> length as"
  shows "walk_back h y k = (x # as) ! (length as - k)"
proof -
  have "rev (x # as) ! k = (x # as) ! (length (x # as) - Suc k)"
    using assms(2) by (intro rev_nth) simp
  then show ?thesis using dpath_walk_back_rev[OF assms] by simp
qed

lemma dpath_take: "dpath h x as y \<Longrightarrow> i \<le> length as \<Longrightarrow> dpath h x (take i as) ((x # as) ! i)"
proof (induction as arbitrary: x i)
  case Nil then show ?case by simp
next
  case (Cons a as) then show ?case by (cases i) auto
qed

lemma dpath_drop: "dpath h x as y \<Longrightarrow> i \<le> length as \<Longrightarrow> dpath h ((x # as) ! i) (drop i as) y"
proof (induction as arbitrary: x i)
  case Nil then show ?case by simp
next
  case (Cons a as) then show ?case by (cases i) auto
qed

lemma nth_cons_drop: "i + k \<le> length P \<Longrightarrow> ((x # P) ! i # drop i P) ! k = (x # P) ! (i + k)"
proof (cases k)
  case 0 then show ?thesis by simp
next
  case (Suc j)
  assume "i + k \<le> length P"
  with Suc show ?thesis by simp
qed

lemma ring_walk_forw:
  assumes r: "ring h x ns" and b: "i + k \<le> length ns"
  shows "walk_forw h ((x # ns) ! i) k = (x # ns) ! (i + k)"
proof -
  let ?P = "ns @ [x]"
  from r have d: "dpath h x ?P x" by (simp add: ring_def)
  from b have i: "i \<le> length ?P" by simp
  have e: "\<And>j. j \<le> length ns \<Longrightarrow> (x # ?P) ! j = (x # ns) ! j"
    by (metis append_Cons length_Cons less_Suc_eq_le nth_append)
  from b have k: "k \<le> length (drop i ?P)" by simp
  from dpath_walk_forw[OF dpath_drop[OF d i] k]
  have "walk_forw h ((x # ?P) ! i) k = ((x # ?P) ! i # drop i ?P) ! k" .
  also have "\<dots> = (x # ?P) ! (i + k)" using b by (intro nth_cons_drop) simp
  finally show ?thesis using b e[of i] e[of "i + k"] by simp
qed

lemma ring_walk_back:
  assumes r: "ring h x ns" and b: "k \<le> i" "i \<le> length ns"
  shows "walk_back h ((x # ns) ! i) k = (x # ns) ! (i - k)"
proof -
  let ?P = "ns @ [x]"
  from r have d: "dpath h x ?P x" by (simp add: ring_def)
  from b have i: "i \<le> length ?P" by simp
  have e: "\<And>j. j \<le> length ns \<Longrightarrow> (x # ?P) ! j = (x # ns) ! j"
    by (metis append_Cons length_Cons less_Suc_eq_le nth_append)
  from b have k: "k \<le> length (take i ?P)" by simp
  from dpath_walk_back[OF dpath_take[OF d i] k]
  have "walk_back h ((x # ?P) ! i) k = (x # take i ?P) ! (length (take i ?P) - k)" .
  also have "\<dots> = (x # take i ?P) ! (i - k)" using b by simp
  also have "\<dots> = (x # ?P) ! (i - k)"
    using b by (cases "i - k") (auto simp: nth_append)
  finally show ?thesis using b e[of i] e[of "i - k"] by simp
qed

lemma ring_back_head:
  assumes r: "ring h x ns"
  shows "q_back (h x) = (x # ns) ! length ns"
proof -
  from r have d: "dpath h x (ns @ [x]) x" by (simp add: ring_def)
  from dpath_walk_back[OF d, of 1] have "walk_back h x 1 = (x # ns @ [x]) ! length ns" by simp
  moreover have "(x # ns @ [x]) ! length ns = (x # ns) ! length ns"
    by (metis append_Cons length_Cons lessI nth_append)
  ultimately show ?thesis by simp
qed

lemma ring_forw_nth:
  assumes r: "ring h x ns" and i: "i < length ns"
  shows "q_forw (h ((x # ns) ! i)) = ns ! i"
  using ring_walk_forw[OF r, of i 1] i by simp

lemma search_line_node_ring:
  assumes inv: "buffer_inv s ns" and a: "0 \<le> a" "a \<le> last_addr s"
  shows "search_line_node a s =
           ((buffer_head # ns) ! nat a, s\<lparr>lp_cache := (buffer_head # ns) ! nat a, o_addr := a\<rparr>)"
proof -
  let ?F = "buffer_head # ns"
  from inv have r: "ring (heap s) buffer_head ns" and l: "last_addr s = int (length ns)"
    and o: "0 \<le> o_addr s" "o_addr s \<le> last_addr s" and c: "lp_cache s = ?F ! nat (o_addr s)"
    by (simp_all add: buffer_inv_def)
  consider (f1) "o_addr s < a" "o_addr s + last_addr s \<ge> 2 * a"
    | (b1) "o_addr s < a" "\<not> o_addr s + last_addr s \<ge> 2 * a"
    | (b2) "\<not> o_addr s < a" "o_addr s \<le> 2 * a"
    | (f2) "\<not> o_addr s < a" "\<not> o_addr s \<le> 2 * a" by blast
  then show ?thesis
  proof cases
    case f1
    have "walk_forw (heap s) (?F ! nat (o_addr s)) (nat (a - o_addr s)) = ?F ! (nat (o_addr s) + nat (a - o_addr s))"
      using a o l f1 by (intro ring_walk_forw[OF r]) simp
    moreover have "nat (o_addr s) + nat (a - o_addr s) = nat a" using o f1 by simp
    ultimately show ?thesis using f1 c by (simp add: search_line_node_def Let_def)
  next
    case b1
    have "walk_back (heap s) (?F ! length ns) (nat (last_addr s - a)) = ?F ! (length ns - nat (last_addr s - a))"
      using a o l by (intro ring_walk_back[OF r]) simp_all
    moreover have "length ns - nat (last_addr s - a) = nat a" using a l by simp
    moreover have "last_addr s - int (nat (last_addr s - a)) = a" using a by simp
    ultimately show ?thesis using b1 ring_back_head[OF r]
      by (simp add: search_line_node_def Let_def)
  next
    case b2
    have "walk_back (heap s) (?F ! nat (o_addr s)) (nat (o_addr s - a)) = ?F ! (nat (o_addr s) - nat (o_addr s - a))"
      using a o l b2 by (intro ring_walk_back[OF r]) simp_all
    moreover have "nat (o_addr s) - nat (o_addr s - a) = nat a" using a o b2 by simp
    ultimately show ?thesis using b2 c by (simp add: search_line_node_def Let_def)
  next
    case f2
    have "walk_forw (heap s) (?F ! 0) (nat a) = ?F ! (0 + nat a)"
      using a l by (intro ring_walk_forw[OF r]) simp
    then show ?thesis using f2 a by (simp add: search_line_node_def Let_def)
  qed
qed

lemma search_line_node_inv:
  assumes inv: "buffer_inv s ns" and a: "0 \<le> a" "a \<le> last_addr s"
  shows "buffer_inv (snd (search_line_node a s)) ns"
  using inv a unfolding search_line_node_ring[OF inv a] by (simp add: buffer_inv_def)

lemma dpath_link_nodes:
  assumes "p \<notin> set (butlast (x # as))" "n \<notin> set as"
  shows "dpath (link_nodes p n h) x as y = dpath h x as y"
proof -
  define h1 where "h1 = h(p := (h p)\<lparr>q_forw := n\<rparr>)"
  have "link_nodes p n h = h1(n := (h1 n)\<lparr>q_back := p\<rparr>)"
    by (simp add: link_nodes_def Let_def h1_def)
  moreover have "dpath (h1(n := (h1 n)\<lparr>q_back := p\<rparr>)) x as y = dpath h1 x as y"
    using assms(2) by (rule dpath_upd_back)
  moreover have "dpath h1 x as y = dpath h x as y"
    unfolding h1_def using assms(1) by (rule dpath_upd_forw)
  ultimately show ?thesis by simp
qed

lemma link_nodes_forw: "q_forw (link_nodes p n h p) = n"
  by (simp add: link_nodes_def Let_def)

lemma link_nodes_back: "q_back (link_nodes p n h n) = p"
  by (simp add: link_nodes_def Let_def)

lemma link_nodes_other: "a \<noteq> p \<Longrightarrow> a \<noteq> n \<Longrightarrow> link_nodes p n h a = h a"
  by (simp add: link_nodes_def Let_def)

lemma link_nodes_text: "line_text (link_nodes p n h) a = line_text h a"
  by (simp add: link_nodes_def Let_def line_text_def)

lemma last_in: "last (x # A) \<in> set (x # A)"
  by (rule last_in_set) simp

lemma last_notin_butlast: "distinct (x # A) \<Longrightarrow> last (x # A) \<notin> set (butlast (x # A))"
  by (metis append_butlast_last_id distinct.simps(2) distinct_append disjoint_iff
      list.distinct(1) list.set_intros(1) set_append Un_iff distinct1_rotate rotate1.simps(2))

lemma dpath_unlink:
  assumes d: "dpath h x (A @ D @ n # B) z"
    and pA: "last (x # A) \<notin> set (butlast (x # A))" and nA: "n \<notin> set A"
    and pB: "last (x # A) \<notin> set (butlast (n # B))" and nB: "n \<notin> set B"
  shows "dpath (link_nodes (last (x # A)) n h) x (A @ n # B) z"
proof -
  define p where "p = last (x # A)"
  define h' where "h' = link_nodes p n h"
  from d obtain y1 y2 where 1: "dpath h x A y1" and 2: "dpath h y1 D y2" and 3: "dpath h y2 (n # B) z"
    unfolding dpath_append by blast
  from dpath_last[OF 1] have y1: "y1 = p" by (simp only: p_def)
  from 3 have 4: "dpath h n B z" by simp
  have a: "dpath h' x A p"
    unfolding h'_def p_def dpath_link_nodes[OF pA nA] using 1 y1 by (simp only: p_def)
  have b: "dpath h' n B z"
    unfolding h'_def p_def dpath_link_nodes[OF pB nB] using 4 .
  have c: "q_forw (h' p) = n" "q_back (h' n) = p"
    by (simp_all add: h'_def link_nodes_forw link_nodes_back)
  have "dpath h' x (A @ n # B) z"
    unfolding dpath_append using a b c by (intro exI[of _ p]) simp
  then show ?thesis by (simp only: h'_def p_def)
qed

lemma ring_unlink:
  assumes r: "ring h x (A @ D @ B)"
  shows "ring (link_nodes (last (x # A)) (hd (B @ [x])) h) x (A @ B)"
proof -
  obtain n B' where nb: "B @ [x] = n # B'" by (cases B) auto
  from r have dist: "distinct (x # A @ D @ B)" by (simp add: ring_def)
  from r have "dpath h x ((A @ D @ B) @ [x]) x" by (simp only: ring_def)
  then have d: "dpath h x (A @ D @ n # B') x" by (simp add: nb)
  have bl: "butlast (n # B') = B" "last (n # B') = x"
    using nb by (metis butlast_snoc, metis last_snoc)
  have dA: "distinct (x # A)" using dist by simp
  have nin: "n \<in> set (x # B)" using nb by (cases B) auto
  have nA: "n \<notin> set A" using nin dist by auto
  have pB: "last (x # A) \<notin> set (butlast (n # B'))"
    unfolding bl using last_in[of x A] dist by auto
  have nB: "n \<notin> set B'"
  proof (cases B)
    case Nil then show ?thesis using nb by simp
  next
    case (Cons b B'')
    then show ?thesis using dist nb by auto
  qed
  have "dpath (link_nodes (last (x # A)) n h) x (A @ n # B') x"
    by (rule dpath_unlink[OF d last_notin_butlast[OF dA] nA pB nB])
  moreover have "hd (B @ [x]) = n" by (simp add: nb)
  moreover have "(A @ B) @ [x] = A @ n # B'" by (simp add: nb)
  ultimately show ?thesis using dist by (simp only: ring_def) auto
qed

lemma ring_insert:
  assumes r: "ring h x (A @ B)" and fresh: "lp \<notin> set (x # A @ B)"
  shows "ring (insert_node lp (last (x # A)) h) x (A @ lp # B)"
proof -
  define p where "p = last (x # A)"
  obtain n B' where nb: "B @ [x] = n # B'" by (cases B) auto
  from r have dist: "distinct (x # A @ B)" by (simp add: ring_def)
  from r have "dpath h x ((A @ B) @ [x]) x" by (simp only: ring_def)
  then have d: "dpath h x (A @ n # B') x" by (simp add: nb)
  from d obtain y1 where 1: "dpath h x A y1" and 3: "dpath h y1 (n # B') x"
    unfolding dpath_append by blast
  from dpath_last[OF 1] have y1: "y1 = p" by (simp only: p_def)
  from 3 y1 have pn: "q_forw (h p) = n" and 4: "dpath h n B' x" by simp_all
  have bl: "butlast (n # B') = B" "last (n # B') = x"
    using nb by (metis butlast_snoc, metis last_snoc)
  define h1 where "h1 = link_nodes lp n h"
  define h2 where "h2 = link_nodes p lp h1"
  have ins: "insert_node lp p h = h2" by (simp add: insert_node_def pn h1_def h2_def)
  have pin: "p \<in> set (x # A)" unfolding p_def by (rule last_in)
  have dA: "distinct (x # A)" using dist by simp
  have pA: "p \<notin> set (butlast (x # A))" unfolding p_def by (rule last_notin_butlast[OF dA])
  have nin: "n \<in> set (x # B)" using nb by (cases B) auto
  have nA: "n \<notin> set A" using nin dist by auto
  have lpA: "lp \<notin> set (x # A)" "lp \<notin> set (x # B)" using fresh by auto
  have lpn: "lp \<noteq> n" "lp \<noteq> p" using lpA pin nin by auto
  have pB: "p \<notin> set (butlast (n # B'))" unfolding bl using pin dist by auto
  have nB: "n \<notin> set B'"
  proof (cases B)
    case Nil then show ?thesis using nb by simp
  next
    case (Cons b B'')
    then show ?thesis using dist nb by auto
  qed
  have lpB': "lp \<notin> set (n # B')" using lpA(2) nb
    by (metis Un_iff insert_iff list.simps(15) set_append empty_set empty_iff)
  have a1: "dpath h1 x A p"
    unfolding h1_def using 1 y1 lpA(1) nA
    by (subst dpath_link_nodes) (auto dest: in_set_butlastD)
  have a: "dpath h2 x A p"
    unfolding h2_def using a1 pA lpA(1) by (subst dpath_link_nodes) auto
  have b1: "dpath h1 n B' x"
    unfolding h1_def using 4 lpB' nB
    by (subst dpath_link_nodes) (auto dest: in_set_butlastD)
  have b: "dpath h2 n B' x"
    unfolding h2_def using b1 pB lpB' by (subst dpath_link_nodes) auto
  have c: "q_forw (h2 p) = lp" "q_back (h2 lp) = p" "q_forw (h2 lp) = n" "q_back (h2 n) = lp"
    using lpn by (simp_all add: h1_def h2_def link_nodes_def Let_def)
  have "dpath h2 lp (n # B') x" using b c by simp
  then have "dpath h2 p (lp # n # B') x" using c by simp
  then have "dpath h2 x (A @ lp # n # B') x"
    unfolding dpath_append using a by blast
  moreover have "(A @ lp # B) @ [x] = A @ lp # n # B'" by (simp add: nb)
  ultimately show ?thesis using dist fresh unfolding ins[symmetric] p_def
    by (simp only: ring_def) auto
qed

lemma dpath_cong: "(\<forall>a \<in> set (x # as). h' a = h a) \<Longrightarrow> dpath h' x as y = dpath h x as y"
  by (induction as arbitrary: x) auto

lemma ring_cong: "(\<forall>a \<in> set (x # ns). h' a = h a) \<Longrightarrow> ring h' x ns = ring h x ns"
  unfolding ring_def using dpath_cong[of x "ns @ [x]" h' h x] by auto

lemma fpath_cong: "(\<forall>a \<in> set ds. h' a = h a) \<Longrightarrow> fpath h' bp ds ep = fpath h bp ds ep"
  by (induction ds arbitrary: bp) auto

lemma ring_Cons:
  assumes "ring h y (a # as)"
  shows "q_forw (h y) = a" "q_back (h a) = y" "q_forw (h a) = hd (as @ [y])" "a \<noteq> y"
proof -
  from assms have d: "dpath h y (a # as @ [y]) y" and dist: "distinct (y # a # as)"
    by (simp_all add: ring_def)
  from d show "q_forw (h y) = a" "q_back (h a) = y" by simp_all
  from d show "q_forw (h a) = hd (as @ [y])" by (cases as) simp_all
  from dist show "a \<noteq> y" by auto
qed

lemma ring_Nil: "ring h y [] \<longleftrightarrow> q_forw (h y) = y \<and> q_back (h y) = y"
  by (auto simp: ring_def)

lemma clear_yank_loop_ring:
  assumes "ring h yank_buffer_head ys"
  shows "\<exists>h'. clear_yank_loop (q_forw (h yank_buffer_head)) h = Some h' \<and>
           ring h' yank_buffer_head [] \<and>
           (\<forall>a. a \<notin> set (yank_buffer_head # ys) \<longrightarrow> h' a = h a) \<and>
           (\<forall>a. line_text h' a = line_text h a)"
  using assms
proof (induction ys arbitrary: h)
  case Nil
  then have "q_forw (h yank_buffer_head) = yank_buffer_head" by (simp add: ring_Nil)
  then show ?case using Nil by (subst clear_yank_loop.simps) simp
next
  case (Cons a as)
  let ?y = yank_buffer_head
  note rc = ring_Cons[OF Cons.prems]
  define p where "p = hd (as @ [?y])"
  define h1 where "h1 = link_nodes ?y p h"
  have "ring h ?y ([] @ [a] @ as)" using Cons.prems by simp
  from ring_unlink[OF this] have r1: "ring h1 ?y as" by (simp add: h1_def p_def)
  from Cons.IH[OF r1] obtain h' where
    h': "clear_yank_loop (q_forw (h1 ?y)) h1 = Some h'" "ring h' ?y []"
        "\<forall>a. a \<notin> set (?y # as) \<longrightarrow> h' a = h1 a" "\<forall>a. line_text h' a = line_text h1 a"
    by blast
  have f1: "q_forw (h1 ?y) = p" by (simp add: h1_def link_nodes_forw)
  have step: "clear_yank_loop (q_forw (h ?y)) h = clear_yank_loop p h1"
    using rc by (subst clear_yank_loop.simps) (simp add: Let_def h1_def p_def)
  have pin: "p \<in> set (?y # as)" unfolding p_def by (cases as) auto
  have agree: "\<forall>b. b \<notin> set (?y # a # as) \<longrightarrow> h' b = h b"
  proof (intro allI impI)
    fix b assume b: "b \<notin> set (?y # a # as)"
    then have "h' b = h1 b" using h'(3) by simp
    moreover have "h1 b = h b" unfolding h1_def using b pin by (intro link_nodes_other) auto
    ultimately show "h' b = h b" by simp
  qed
  have tx: "\<forall>b. line_text h' b = line_text h b"
    using h'(4) by (simp add: h1_def link_nodes_text)
  show ?case using step h'(1,2) f1 agree tx by auto
qed

lemma ring_last_forw:
  assumes "ring h y Y" shows "q_forw (h (last (y # Y))) = y"
proof -
  from assms have "dpath h y (Y @ [y]) y" by (simp add: ring_def)
  from dpath_snoc[OF this] obtain m where m: "dpath h y Y m" "q_forw (h m) = y" by blast
  from dpath_last[OF m(1)] m(2) show ?thesis by simp
qed

lemma insert_node_other:
  "a \<noteq> lp \<Longrightarrow> a \<noteq> prev \<Longrightarrow> a \<noteq> q_forw (h prev) \<Longrightarrow> insert_node lp prev h a = h a"
  by (simp add: insert_node_def link_nodes_def Let_def)

lemma insert_node_text: "line_text (insert_node lp prev h) a = line_text h a"
  by (simp add: insert_node_def link_nodes_text)

lemma dup_line_node_cases:
  "(\<exists>s'. dup_line_node (Some l) s = (None, s') \<and> alloc_oracle s \<noteq> []) \<or>
   (\<exists>s'. dup_line_node (Some l) s = (Some (brk s), s') \<and> brk s' = Suc (brk s) \<and>
      (alloc_oracle s = [] \<longrightarrow> alloc_oracle s' = []) \<and>
      heap s' = (heap s)(brk s := (heap s (brk s))\<lparr>pos := pos (heap s l), len := len (heap s l)\<rparr>) \<and>
      s' = s\<lparr>heap := heap s', brk := brk s', alloc_oracle := alloc_oracle s'\<rparr>)"
  by (auto simp: dup_line_node_def malloc_def split: list.splits)

lemma upd3_trans:
  "s1 = s\<lparr>heap := a1, brk := b1, alloc_oracle := c1\<rparr> \<Longrightarrow>
   s' = s1\<lparr>heap := a, brk := b, alloc_oracle := c\<rparr> \<Longrightarrow>
   s' = s\<lparr>heap := a, brk := b, alloc_oracle := c\<rparr>"
  by simp

lemma upd3_heap:
  "s1 = s\<lparr>heap := a1, brk := b1, alloc_oracle := c1\<rparr> \<Longrightarrow>
   s1\<lparr>heap := a\<rparr> = s\<lparr>heap := a, brk := b1, alloc_oracle := c1\<rparr>"
  by simp

lemma yank_loop_spec:
  assumes "fpath (heap s) bp D ep"
    and "ring (heap s) yank_buffer_head Y"
    and "lp = last (yank_buffer_head # Y)"
    and "\<forall>a \<in> set (yank_buffer_head # Y). a < brk s"
    and "\<forall>d \<in> set D. d < brk s \<and> d \<notin> set (yank_buffer_head # Y)"
  shows "\<exists>ok s'. yank_loop bp ep lp s = Some (ok, s') \<and>
      (alloc_oracle s = [] \<longrightarrow> ok \<and> alloc_oracle s' = []) \<and>
      (ok \<longrightarrow> (\<exists>new. ring (heap s') yank_buffer_head (Y @ new) \<and>
                map (line_text (heap s')) new = map (line_text (heap s)) D \<and>
                set new = {brk s ..< brk s'} \<and> brk s \<le> brk s' \<and>
                (\<forall>a. a < brk s \<and> a \<notin> set (yank_buffer_head # Y) \<longrightarrow> heap s' a = heap s a) \<and>
                (\<forall>a. a < brk s \<longrightarrow> line_text (heap s') a = line_text (heap s) a) \<and>
                s' = s\<lparr>heap := heap s', brk := brk s', alloc_oracle := alloc_oracle s'\<rparr>))"
  using assms
proof (induction D arbitrary: s bp lp Y)
  case Nil
  then have "yank_loop bp ep lp s = Some (True, s)"
    by (subst yank_loop.simps) simp
  then show ?case using Nil.prems(2) by (intro exI[of _ True] exI[of _ s]) simp
next
  case (Cons d ds)
  let ?y = yank_buffer_head
  from Cons.prems(1) have bp: "bp = d" "d \<noteq> ep" and fp: "fpath (heap s) (q_forw (heap s d)) ds ep"
    by simp_all
  from dup_line_node_cases[of d s] show ?case
  proof (elim disjE exE conjE)
    fix s1 assume "dup_line_node (Some d) s = (None, s1)" and ne: "alloc_oracle s \<noteq> []"
    then have "yank_loop bp ep lp s = Some (False, s1)"
      using bp by (subst yank_loop.simps) simp
    then show ?thesis using ne by (intro exI[of _ False] exI[of _ s1]) simp
  next
    fix s1
    assume dup: "dup_line_node (Some d) s = (Some (brk s), s1)"
      and brk1: "brk s1 = Suc (brk s)"
      and or1: "alloc_oracle s = [] \<longrightarrow> alloc_oracle s1 = []"
      and h1: "heap s1 = (heap s)(brk s := (heap s (brk s))\<lparr>pos := pos (heap s d), len := len (heap s d)\<rparr>)"
      and s1: "s1 = s\<lparr>heap := heap s1, brk := brk s1, alloc_oracle := alloc_oracle s1\<rparr>"
    define p where "p = brk s"
    define s2 where "s2 = s1\<lparr>heap := insert_node p lp (heap s1)\<rparr>"
    have pY: "p \<notin> set (?y # Y)" using Cons.prems(4) by (auto simp: p_def)
    have dlt: "d < p" "d \<notin> set (?y # Y)" using Cons.prems(5) by (auto simp: p_def)
    have r1: "ring (heap s1) ?y Y"
      using Cons.prems(2) pY ring_cong[of ?y Y "heap s1" "heap s"] by (auto simp: h1 p_def)
    have r2: "ring (heap s2) ?y (Y @ [p])"
      using ring_insert[of "heap s1" ?y Y "[]" p] r1 pY
      by (simp add: s2_def Cons.prems(3))
    have lpin: "lp \<in> set (?y # Y)" unfolding Cons.prems(3) by (rule last_in)
    have lpf: "q_forw (heap s1 lp) = ?y" unfolding Cons.prems(3) by (rule ring_last_forw[OF r1])
    have other2: "\<And>a. a \<noteq> p \<Longrightarrow> a \<notin> set (?y # Y) \<Longrightarrow> heap s2 a = heap s a"
    proof -
      fix a assume a: "a \<noteq> p" "a \<notin> set (?y # Y)"
      then have "a \<noteq> lp" "a \<noteq> q_forw (heap s1 lp)" using lpin lpf by auto
      then have "heap s2 a = heap s1 a" using a by (simp add: s2_def insert_node_other)
      also have "\<dots> = heap s a" using a by (simp add: h1 p_def)
      finally show "heap s2 a = heap s a" .
    qed
    have text2: "\<And>a. a \<noteq> p \<Longrightarrow> line_text (heap s2) a = line_text (heap s) a"
      by (simp add: s2_def insert_node_text) (simp add: h1 p_def line_text_def)
    have textp: "line_text (heap s2) p = line_text (heap s) d"
      by (simp add: s2_def insert_node_text) (simp add: h1 p_def line_text_def)
    have brk2: "brk s2 = Suc p" by (simp add: s2_def brk1 p_def)
    have dsag: "\<forall>a \<in> set (d # ds). heap s2 a = heap s a"
      using Cons.prems(5) by (intro ballI other2) (auto simp: p_def)
    have fp2: "fpath (heap s2) (q_forw (heap s2 d)) ds ep"
      using fp dsag fpath_cong[of ds "heap s2" "heap s"] by simp
    have lp2: "p = last (?y # Y @ [p])" by simp
    have al2: "\<forall>a \<in> set (?y # Y @ [p]). a < brk s2"
      using Cons.prems(4) by (auto simp: brk2 p_def)
    have ds2: "\<forall>d' \<in> set ds. d' < brk s2 \<and> d' \<notin> set (?y # Y @ [p])"
      using Cons.prems(5) by (auto simp: brk2 p_def)
    from Cons.IH[OF fp2 r2 lp2 al2 ds2] obtain ok s' where
      yl: "yank_loop (q_forw (heap s2 d)) ep p s2 = Some (ok, s')" and
      okk: "alloc_oracle s2 = [] \<longrightarrow> ok \<and> alloc_oracle s' = []" and
      post: "ok \<longrightarrow> (\<exists>new. ring (heap s') ?y ((Y @ [p]) @ new) \<and>
                map (line_text (heap s')) new = map (line_text (heap s2)) ds \<and>
                set new = {brk s2 ..< brk s'} \<and> brk s2 \<le> brk s' \<and>
                (\<forall>a. a < brk s2 \<and> a \<notin> set (?y # Y @ [p]) \<longrightarrow> heap s' a = heap s2 a) \<and>
                (\<forall>a. a < brk s2 \<longrightarrow> line_text (heap s') a = line_text (heap s2) a) \<and>
                s' = s2\<lparr>heap := heap s', brk := brk s', alloc_oracle := alloc_oracle s'\<rparr>)"
      by blast
    have step: "yank_loop bp ep lp s = Some (ok, s')"
      using bp dup yl by (subst yank_loop.simps) (simp add: Let_def s2_def p_def)
    have "ok \<longrightarrow> (\<exists>new. ring (heap s') ?y (Y @ new) \<and>
                map (line_text (heap s')) new = map (line_text (heap s)) (d # ds) \<and>
                set new = {brk s ..< brk s'} \<and> brk s \<le> brk s' \<and>
                (\<forall>a. a < brk s \<and> a \<notin> set (?y # Y) \<longrightarrow> heap s' a = heap s a) \<and>
                (\<forall>a. a < brk s \<longrightarrow> line_text (heap s') a = line_text (heap s) a) \<and>
                s' = s\<lparr>heap := heap s', brk := brk s', alloc_oracle := alloc_oracle s'\<rparr>)"
    proof
      assume ok
      with post obtain new where
        n1: "ring (heap s') ?y ((Y @ [p]) @ new)" and
        n2: "map (line_text (heap s')) new = map (line_text (heap s2)) ds" and
        n3: "set new = {brk s2 ..< brk s'}" and n4: "brk s2 \<le> brk s'" and
        n5: "\<forall>a. a < brk s2 \<and> a \<notin> set (?y # Y @ [p]) \<longrightarrow> heap s' a = heap s2 a" and
        n6: "\<forall>a. a < brk s2 \<longrightarrow> line_text (heap s') a = line_text (heap s2) a" and
        n7: "s' = s2\<lparr>heap := heap s', brk := brk s', alloc_oracle := alloc_oracle s'\<rparr>"
        by blast
      have c1: "ring (heap s') ?y (Y @ p # new)" using n1 by simp
      have "map (line_text (heap s2)) ds = map (line_text (heap s)) ds"
        using Cons.prems(5) by (intro map_cong refl text2) (auto simp: p_def)
      moreover have "line_text (heap s') p = line_text (heap s) d"
        using n6 textp by (simp add: brk2)
      ultimately have c2: "map (line_text (heap s')) (p # new) = map (line_text (heap s)) (d # ds)"
        using n2 by simp
      have c3: "set (p # new) = {brk s ..< brk s'}" "brk s \<le> brk s'"
        using n3 n4 by (auto simp: brk2 p_def)
      have c4: "\<forall>a. a < brk s \<and> a \<notin> set (?y # Y) \<longrightarrow> heap s' a = heap s a"
      proof (intro allI impI)
        fix a assume a: "a < brk s \<and> a \<notin> set (?y # Y)"
        then have "heap s' a = heap s2 a" using n5 by (auto simp: brk2 p_def)
        also have "\<dots> = heap s a" using a by (intro other2) (auto simp: p_def)
        finally show "heap s' a = heap s a" .
      qed
      have c5: "\<forall>a. a < brk s \<longrightarrow> line_text (heap s') a = line_text (heap s) a"
      proof (intro allI impI)
        fix a assume a: "a < brk s"
        then have "line_text (heap s') a = line_text (heap s2) a" using n6 by (simp add: brk2 p_def)
        also have "\<dots> = line_text (heap s) a" using a by (intro text2) (simp add: p_def)
        finally show "line_text (heap s') a = line_text (heap s) a" .
      qed
      have c6: "s' = s\<lparr>heap := heap s', brk := brk s', alloc_oracle := alloc_oracle s'\<rparr>"
        by (rule upd3_trans[OF upd3_heap[OF s1, of "insert_node p lp (heap s1)"] n7[unfolded s2_def]])
      show "\<exists>new. ring (heap s') ?y (Y @ new) \<and>
                map (line_text (heap s')) new = map (line_text (heap s)) (d # ds) \<and>
                set new = {brk s ..< brk s'} \<and> brk s \<le> brk s' \<and>
                (\<forall>a. a < brk s \<and> a \<notin> set (?y # Y) \<longrightarrow> heap s' a = heap s a) \<and>
                (\<forall>a. a < brk s \<longrightarrow> line_text (heap s') a = line_text (heap s) a) \<and>
                s' = s\<lparr>heap := heap s', brk := brk s', alloc_oracle := alloc_oracle s'\<rparr>"
        using c1 c2 c3 c4 c5 c6 by (intro exI[of _ "p # new"]) blast
    qed
    moreover have "alloc_oracle s = [] \<longrightarrow> ok \<and> alloc_oracle s' = []"
      using okk or1 by (simp add: s2_def)
    ultimately show ?thesis using step by blast
  qed
qed

lemma dpath_fpath:
  "dpath h x0 (D @ e # R) z \<Longrightarrow> e \<notin> set D \<Longrightarrow> fpath h (hd (D @ [e])) D e"
proof (induction D arbitrary: x0)
  case Nil then show ?case by simp
next
  case (Cons d ds)
  from Cons.prems(1) have d: "dpath h d (ds @ e # R) z" by simp
  then have f: "q_forw (h d) = hd (ds @ [e])" by (cases ds) simp_all
  from Cons.IH[OF d] Cons.prems(2) have "fpath h (hd (ds @ [e])) ds e" by simp
  with f Cons.prems(2) show ?case by simp
qed

lemma ring_fpath:
  assumes r: "ring h x (A @ D @ B)"
  shows "fpath h (hd (D @ B @ [x])) D (hd (B @ [x]))"
proof -
  obtain e R where eb: "B @ [x] = e # R" by (cases B) auto
  from r have dist: "distinct (x # A @ D @ B)" by (simp add: ring_def)
  from r have "dpath h x ((A @ D @ B) @ [x]) x" by (simp only: ring_def)
  then have "dpath h x (A @ D @ e # R) x" by (simp add: eb)
  then obtain m where d: "dpath h m (D @ e # R) x" unfolding dpath_append by blast
  have ein: "e \<in> set (x # B)" using eb by (cases B) auto
  have eD: "e \<notin> set D" using ein dist by auto
  have "hd (D @ [e]) = hd (D @ B @ [x])" using eb by (cases D) simp_all
  moreover have "hd (B @ [x]) = e" using eb by simp
  ultimately show ?thesis using dpath_fpath[OF d eD] by simp
qed

lemma nth_full_last: "(x # A @ R) ! length A = last (x # A)"
  by (induction A arbitrary: x) simp_all

lemma nth_full_hd: "(x # A @ R) ! Suc (length A) = hd R" if "R \<noteq> []"
  using that by (cases R) (simp_all add: nth_append)

lemma inc_addr_nth:
  assumes "last_addr s = int (length (A @ D @ B))"
  shows "(x # A @ D @ B) ! nat (inc_addr (int (length A + length D)) s) = hd (B @ [x])"
proof (cases B)
  case Nil
  with assms show ?thesis by (simp add: inc_addr_def)
next
  case (Cons b B')
  with assms have "inc_addr (int (length A + length D)) s = int (length A + length D) + 1"
    by (simp add: inc_addr_def)
  then have "nat (inc_addr (int (length A + length D)) s) = Suc (length (A @ D))" by simp
  moreover have "(x # (A @ D) @ B) ! Suc (length (A @ D)) = hd B"
    using Cons by (intro nth_full_hd) simp
  ultimately show ?thesis using Cons by simp
qed

lemma inc_addr_range:
  "0 \<le> a \<Longrightarrow> a \<le> last_addr s \<Longrightarrow> 0 \<le> inc_addr a s \<and> inc_addr a s \<le> last_addr s"
  by (simp add: inc_addr_def)

lemma upd5_norm:
  "s' = s\<lparr>lp_cache := l, o_addr := o', heap := h, brk := b, alloc_oracle := c\<rparr> \<Longrightarrow>
   s' = s\<lparr>heap := h, brk := b, alloc_oracle := c, lp_cache := lp_cache s', o_addr := o_addr s'\<rparr>"
  by simp

lemma yank_lines_spec:
  assumes inv: "buffer_inv s ns" and yi: "yank_inv s ns ys"
    and ns: "ns = A @ D @ B" and D: "D \<noteq> []"
    and "from": "from = int (length A) + 1" and to: "to = int (length A + length D)"
  shows "\<exists>ok s'. yank_lines from to s = Some (ok, s') \<and>
     (alloc_oracle s = [] \<longrightarrow> ok \<and> alloc_oracle s' = []) \<and>
     (ok \<longrightarrow> (\<exists>ys'. yank_inv s' ns ys' \<and>
                    map (line_text (heap s')) ys' = map (line_text (heap s)) D) \<and>
            buffer_inv s' ns \<and> o_addr s' = from \<and>
            (\<forall>a. a < brk s \<and> a \<notin> set (yank_buffer_head # ys) \<longrightarrow> heap s' a = heap s a) \<and>
            brk s \<le> brk s' \<and>
            s' = s\<lparr>heap := heap s', brk := brk s', alloc_oracle := alloc_oracle s',
                   lp_cache := lp_cache s', o_addr := o_addr s'\<rparr>)"
proof -
  let ?y = yank_buffer_head
  let ?F = "buffer_head # ns"
  from inv have r: "ring (heap s) buffer_head ns" and l: "last_addr s = int (length ns)"
    by (simp_all add: buffer_inv_def)
  from yi have ry: "ring (heap s) ?y ys" and al: "\<forall>a \<in> set ns \<union> set ys. 2 \<le> a \<and> a < brk s"
    and dj: "set ns \<inter> set ys = {}" and b2: "2 \<le> brk s"
    by (simp_all add: yank_inv_def)
  have al_ns: "\<And>a. a \<in> set ns \<Longrightarrow> 2 \<le> a \<and> a < brk s"
    and al_ys: "\<And>a. a \<in> set ys \<Longrightarrow> 2 \<le> a \<and> a < brk s"
    using al by blast+
  have to_r: "0 \<le> to" "to \<le> last_addr s" using to l ns by simp_all
  have inc_r: "0 \<le> inc_addr to s" "inc_addr to s \<le> last_addr s"
    using inc_addr_range[OF to_r] by simp_all
  have Dlen: "1 \<le> int (length D)" using D by (cases D) simp_all
  have from_r: "0 \<le> from" "from \<le> last_addr s" using "from" l ns Dlen by simp_all
  define ep where "ep = hd (B @ [buffer_head])"
  define bp where "bp = hd D"
  define s1 where "s1 = s\<lparr>lp_cache := ep, o_addr := inc_addr to s\<rparr>"
  define s2 where "s2 = s\<lparr>lp_cache := bp, o_addr := from\<rparr>"
  have epn: "?F ! nat (inc_addr to s) = ep"
    unfolding ep_def ns to using inc_addr_nth[of s A D B buffer_head] l ns by simp
  have e1: "search_line_node (inc_addr to s) s = (ep, s1)"
    using search_line_node_ring[OF inv inc_r] by (simp add: epn s1_def)
  have inv1: "buffer_inv s1 ns"
    using search_line_node_inv[OF inv inc_r] by (simp add: e1)
  have l1: "last_addr s1 = last_addr s" by (simp add: s1_def)
  have bpn: "?F ! nat from = bp"
  proof -
    have "nat from = Suc (length A)" using "from" by simp
    moreover have "(buffer_head # A @ (D @ B)) ! Suc (length A) = hd (D @ B)"
      using D by (intro nth_full_hd) simp
    ultimately show ?thesis using D by (simp add: ns bp_def)
  qed
  have e2: "search_line_node from s1 = (bp, s2)"
    using search_line_node_ring[OF inv1, of "from"] from_r l1 by (simp add: bpn s1_def s2_def)
  have inv2: "buffer_inv s2 ns"
    using search_line_node_inv[OF inv1, of "from"] from_r l1 by (simp add: e2)
  from clear_yank_loop_ring[OF ry] obtain h' where
    cl: "clear_yank_loop (q_forw (heap s ?y)) (heap s) = Some h'" and
    r0: "ring h' ?y []" and
    ag: "\<forall>a. a \<notin> set (?y # ys) \<longrightarrow> h' a = heap s a" and
    tx: "\<forall>a. line_text h' a = line_text (heap s) a"
    by blast
  define s3 where "s3 = s2\<lparr>heap := h'\<rparr>"
  have e3: "clear_yank_buffer s2 = Some s3"
    using cl by (simp add: clear_yank_buffer_def s2_def s3_def)
  have yn: "?y \<notin> set ns"
  proof
    assume "?y \<in> set ns"
    then have "2 \<le> ?y" using al by blast
    then show False by (simp add: yank_buffer_head_def)
  qed
  have Dns: "set D \<subseteq> set ns" by (auto simp: ns)
  have Dag: "\<forall>a \<in> set D. h' a = heap s a"
  proof
    fix a assume "a \<in> set D"
    then have "a \<in> set ns" using Dns by blast
    then have "a \<notin> set (?y # ys)" using dj yn by auto
    then show "h' a = heap s a" using ag by blast
  qed
  have fp: "fpath (heap s3) bp D ep"
    using ring_fpath[of "heap s" buffer_head A D B] r D fpath_cong[of D h' "heap s" bp ep] Dag
    by (simp add: ns s3_def bp_def ep_def)
  have brk3: "brk s3 = brk s" by (simp add: s3_def s2_def)
  have r3: "ring (heap s3) ?y []" using r0 by (simp add: s3_def)
  have al3: "\<forall>a \<in> set (?y # []). a < brk s3" using b2 by (simp add: brk3 yank_buffer_head_def)
  have D3: "\<forall>d \<in> set D. d < brk s3 \<and> d \<notin> set (?y # [])"
    using al_ns Dns yn by (auto simp: brk3)
  from yank_loop_spec[OF fp r3 _ al3 D3, of ?y] obtain ok s' where
    yl: "yank_loop bp ep ?y s3 = Some (ok, s')" and
    okk: "alloc_oracle s3 = [] \<longrightarrow> ok \<and> alloc_oracle s' = []" and
    post: "ok \<longrightarrow> (\<exists>new. ring (heap s') ?y ([] @ new) \<and>
                map (line_text (heap s')) new = map (line_text (heap s3)) D \<and>
                set new = {brk s3 ..< brk s'} \<and> brk s3 \<le> brk s' \<and>
                (\<forall>a. a < brk s3 \<and> a \<notin> set (?y # []) \<longrightarrow> heap s' a = heap s3 a) \<and>
                (\<forall>a. a < brk s3 \<longrightarrow> line_text (heap s') a = line_text (heap s3) a) \<and>
                s' = s3\<lparr>heap := heap s', brk := brk s', alloc_oracle := alloc_oracle s'\<rparr>)"
    by auto
  have res: "yank_lines from to s = Some (ok, s')"
    using e1 e2 e3 yl by (simp add: yank_lines_def)
  have "ok \<longrightarrow> (\<exists>ys'. yank_inv s' ns ys' \<and>
                    map (line_text (heap s')) ys' = map (line_text (heap s)) D) \<and>
            buffer_inv s' ns \<and> o_addr s' = from \<and>
            (\<forall>a. a < brk s \<and> a \<notin> set (yank_buffer_head # ys) \<longrightarrow> heap s' a = heap s a) \<and>
            brk s \<le> brk s' \<and>
            s' = s\<lparr>heap := heap s', brk := brk s', alloc_oracle := alloc_oracle s',
                   lp_cache := lp_cache s', o_addr := o_addr s'\<rparr>"
  proof
    assume ok
    with post obtain new where
      n1: "ring (heap s') ?y new" and
      n2: "map (line_text (heap s')) new = map (line_text (heap s3)) D" and
      n3: "set new = {brk s ..< brk s'}" and n4: "brk s \<le> brk s'" and
      n5: "\<forall>a. a < brk s \<and> a \<noteq> ?y \<longrightarrow> heap s' a = heap s3 a" and
      n7: "s' = s3\<lparr>heap := heap s', brk := brk s', alloc_oracle := alloc_oracle s'\<rparr>"
      by (auto simp: brk3)
    have agb: "\<forall>a. a < brk s \<and> a \<notin> set (?y # ys) \<longrightarrow> heap s' a = heap s a"
      using n5 ag by (auto simp: s3_def)
    have Fag: "\<forall>a \<in> set ?F. heap s' a = heap s a"
    proof
      fix a assume "a \<in> set ?F"
      then have "a < brk s \<and> a \<notin> set (?y # ys)"
        using al_ns[of a] al_ys[of a] dj b2 by (auto simp: buffer_head_def yank_buffer_head_def)
      with agb show "heap s' a = heap s a" by blast
    qed
    have fields: "last_addr s' = last_addr s2" "o_addr s' = o_addr s2" "lp_cache s' = lp_cache s2"
      by (subst n7, simp add: s3_def)+
    have binv: "buffer_inv s' ns"
      using inv2 ring_cong[OF Fag] unfolding buffer_inv_def fields by (simp add: s2_def)
    have yinv: "yank_inv s' ns new"
      unfolding yank_inv_def using n1 n3 n4 al_ns b2 by fastforce
    have m: "map (line_text (heap s')) new = map (line_text (heap s)) D"
      using n2 tx by (simp add: s3_def)
    have eq: "s' = s\<lparr>heap := heap s', brk := brk s', alloc_oracle := alloc_oracle s',
                   lp_cache := lp_cache s', o_addr := o_addr s'\<rparr>"
      by (rule upd5_norm[where l=bp and o'="from"]) (subst n7, simp add: s3_def s2_def)
    show "(\<exists>ys'. yank_inv s' ns ys' \<and>
                    map (line_text (heap s')) ys' = map (line_text (heap s)) D) \<and>
            buffer_inv s' ns \<and> o_addr s' = from \<and>
            (\<forall>a. a < brk s \<and> a \<notin> set (yank_buffer_head # ys) \<longrightarrow> heap s' a = heap s a) \<and>
            brk s \<le> brk s' \<and>
            s' = s\<lparr>heap := heap s', brk := brk s', alloc_oracle := alloc_oracle s',
                   lp_cache := lp_cache s', o_addr := o_addr s'\<rparr>"
      using yinv m binv agb n4 eq fields(2) by (auto simp: s2_def)
  qed
  moreover have "alloc_oracle s = [] \<longrightarrow> ok \<and> alloc_oracle s' = []"
    using okk by (simp add: s3_def s2_def)
  ultimately show ?thesis using res by blast
qed

lemma buffer_inv_cong:
  "heap s' = heap s \<Longrightarrow> last_addr s' = last_addr s \<Longrightarrow> o_addr s' = o_addr s \<Longrightarrow>
   lp_cache s' = lp_cache s \<Longrightarrow> buffer_inv s' ns = buffer_inv s ns"
  by (simp add: buffer_inv_def)

lemma store_atom_eq:
  assumes inv: "buffer_inv s0 ns"
    and r: "0 \<le> from" "from \<le> last_addr s0" "0 \<le> to" "to \<le> last_addr s0"
  shows "(let (t, s1) = search_line_node to s0;
              (h, s2) = search_line_node from s1
          in Some (Some (length (ustack s2)),
                   s2\<lparr>ustack := ustack s2 @ [\<lparr>type = ty, head = h, tail = t\<rparr>]\<rparr>)) =
         Some (Some (length (ustack s0)),
               s0\<lparr>lp_cache := (buffer_head # ns) ! nat from, o_addr := from,
                  ustack := ustack s0 @ [\<lparr>type = ty, head = (buffer_head # ns) ! nat from,
                                          tail = (buffer_head # ns) ! nat to\<rparr>]\<rparr>)"
proof -
  let ?F = "buffer_head # ns"
  define s1 where "s1 = s0\<lparr>lp_cache := ?F ! nat to, o_addr := to\<rparr>"
  have e1: "search_line_node to s0 = (?F ! nat to, s1)"
    using search_line_node_ring[OF inv r(3,4)] by (simp add: s1_def)
  have inv1: "buffer_inv s1 ns" using search_line_node_inv[OF inv r(3,4)] by (simp add: e1)
  have l1: "last_addr s1 = last_addr s0" by (simp add: s1_def)
  have e2: "search_line_node from s1 = (?F ! nat from, s1\<lparr>lp_cache := ?F ! nat from, o_addr := from\<rparr>)"
    using search_line_node_ring[OF inv1, of "from"] r l1 by simp
  show ?thesis unfolding e1 by (simp add: e2) (simp add: s1_def)
qed

lemma push_undo_atom_ok:
  assumes inv: "buffer_inv s ns"
    and r: "0 \<le> from" "from \<le> last_addr s" "0 \<le> to" "to \<le> last_addr s"
    and res: "push_undo_atom ty from to s = Some (Some idx, s')"
  shows "heap s' = heap s \<and> brk s' = brk s \<and>
         ustack s' = ustack s @ [\<lparr>type = ty, head = (buffer_head # ns) ! nat from,
                                    tail = (buffer_head # ns) ! nat to\<rparr>] \<and>
         idx = length (ustack s) \<and> o_addr s' = from \<and> lp_cache s' = (buffer_head # ns) ! nat from \<and>
         s' = s\<lparr>ustack := ustack s', usize := usize s', ustack_null := ustack_null s',
                alloc_oracle := alloc_oracle s', lp_cache := lp_cache s', o_addr := o_addr s'\<rparr>"
proof -
  let ?ms = "word_of_int ((int (length (ustack s)) + 1) * sizeof_undo_t) :: 32 word"
  let ?ns = "if ?ms < 512 then 512 else if ?ms > INT_MAX div 2 then INT_MAX else (?ms div 512) * 1024"
  show ?thesis
  proof (cases "(word_of_int (usize s) :: 32 word) < ?ms")
    case False
    with res store_atom_eq[OF inv r, of ty] show ?thesis
      by (simp add: push_undo_atom_def Let_def) auto
  next
    case True
    show ?thesis
    proof (cases "?ms \<ge> INT_MAX")
      case t: True
      with True res show ?thesis
        by (auto simp: push_undo_atom_def Let_def split: Option.bind_splits)
    next
      case f: False
      obtain ok s1 where ab: "alloc_block s = (ok, s1)" by (cases "alloc_block s")
      show ?thesis
      proof (cases ok)
        case False
        with True f ab res show ?thesis
          by (auto simp: push_undo_atom_def Let_def split: Option.bind_splits)
      next
        case ok: True
        have s1: "s1 = s\<lparr>alloc_oracle := alloc_oracle s1\<rparr>"
          using ab by (auto simp: alloc_block_def split: list.splits)
        define s2 where "s2 = s1\<lparr>usize := sint ?ns, ustack_null := False\<rparr>"
        have f2: "heap s2 = heap s" "last_addr s2 = last_addr s" "o_addr s2 = o_addr s"
          "lp_cache s2 = lp_cache s" "ustack s2 = ustack s" "brk s2 = brk s"
          by (subst s2_def, subst s1, simp)+
        have inv2: "buffer_inv s2 ns" using inv buffer_inv_cong[OF f2(1-4)] by simp
        have r2: "0 \<le> from" "from \<le> last_addr s2" "0 \<le> to" "to \<le> last_addr s2"
          using r f2 by simp_all
        have eq2: "s2 = s\<lparr>alloc_oracle := alloc_oracle s1, usize := sint ?ns, ustack_null := False\<rparr>"
          by (subst s2_def, subst s1) simp
        have "push_undo_atom ty from to s =
              (let (t, s1) = search_line_node to s2;
                   (h, s2) = search_line_node from s1
               in Some (Some (length (ustack s2)),
                        s2\<lparr>ustack := ustack s2 @ [\<lparr>type = ty, head = h, tail = t\<rparr>]\<rparr>))"
          using True f ab ok by (simp add: push_undo_atom_def Let_def s2_def)
        with res store_atom_eq[OF inv2 r2, of ty] show ?thesis
          by (auto simp: f2 eq2)
      qed
    qed
  qed
qed

lemma unset_active_nodes_spec:
  "fpath (heap s) bp D ep \<Longrightarrow>
   \<exists>al im. unset_active_nodes bp ep s = Some (s\<lparr>active_list := al, active_idxm := im\<rparr>)"
proof (induction D arbitrary: s bp)
  case Nil
  then have "unset_active_nodes bp ep s = Some s" by (subst unset_active_nodes.simps) simp
  then show ?case by (intro exI[of _ "active_list s"] exI[of _ "active_idxm s"]) simp
next
  case (Cons d ds)
  obtain al im where sc: "unset_scan (length (active_list s)) bp (active_list s) (active_idxm s) = (al, im)"
    by (cases "unset_scan (length (active_list s)) bp (active_list s) (active_idxm s)")
  define s1 where "s1 = s\<lparr>active_list := al, active_idxm := im\<rparr>"
  from Cons.prems have bp: "bp = d" "d \<noteq> ep" and fp: "fpath (heap s1) (q_forw (heap s d)) ds ep"
    by (simp_all add: s1_def)
  from Cons.IH[OF fp] obtain al' im' where
    "unset_active_nodes (q_forw (heap s d)) ep s1 = Some (s1\<lparr>active_list := al', active_idxm := im'\<rparr>)"
    by blast
  then have "unset_active_nodes bp ep s = Some (s\<lparr>active_list := al', active_idxm := im'\<rparr>)"
    using bp sc by (subst unset_active_nodes.simps) (simp add: s1_def)
  then show ?case by blast
qed

lemma ring_mid_forw:
  assumes r: "ring h x (A @ R)"
  shows "q_forw (h (last (x # A))) = hd (R @ [x])"
proof -
  obtain e R' where eb: "R @ [x] = e # R'" by (cases R) auto
  from r have "dpath h x ((A @ R) @ [x]) x" by (simp only: ring_def)
  then have "dpath h x (A @ e # R') x" by (simp add: eb)
  then obtain m where m: "dpath h x A m" "dpath h m (e # R') x" unfolding dpath_append by blast
  from dpath_last[OF m(1)] m(2) show ?thesis by (simp add: eb)
qed

lemma word_of_int_less_INT_MAX:
  "0 \<le> v \<Longrightarrow> v < int_max \<Longrightarrow> \<not> (INT_MAX \<le> (word_of_int v :: 32 word))"
  by (simp add: INT_MAX_def int_max_def word_le_def uint_word_of_int)

lemma push_undo_atom_succeeds:
  assumes inv: "buffer_inv s ns"
    and r: "0 \<le> from" "from \<le> last_addr s" "0 \<le> to" "to \<le> last_addr s"
    and orc: "alloc_oracle s = []"
    and sz: "(int (length (ustack s)) + 1) * sizeof_undo_t < int_max"
  shows "\<exists>idx s'. push_undo_atom ty from to s = Some (Some idx, s') \<and> alloc_oracle s' = []"
proof -
  let ?ms = "word_of_int ((int (length (ustack s)) + 1) * sizeof_undo_t) :: 32 word"
  let ?ns = "if ?ms < 512 then 512 else if ?ms > INT_MAX div 2 then INT_MAX else (?ms div 512) * 1024"
  have nlim: "\<not> (INT_MAX \<le> ?ms)"
    using sz by (intro word_of_int_less_INT_MAX) (simp_all add: sizeof_undo_t_def)
  show ?thesis
  proof (cases "(word_of_int (usize s) :: 32 word) < ?ms")
    case False
    with store_atom_eq[OF inv r, of ty] orc show ?thesis
      by (simp add: push_undo_atom_def Let_def)
  next
    case True
    have ab: "alloc_block s = (True, s)" using orc by (simp add: alloc_block_def)
    define s2 where "s2 = s\<lparr>usize := sint ?ns, ustack_null := False\<rparr>"
    have f2: "heap s2 = heap s" "last_addr s2 = last_addr s" "o_addr s2 = o_addr s"
          "lp_cache s2 = lp_cache s" "alloc_oracle s2 = []"
      using orc by (simp_all add: s2_def)
    have inv2: "buffer_inv s2 ns" using inv buffer_inv_cong[OF f2(1-4)] by simp
    have r2: "0 \<le> from" "from \<le> last_addr s2" "0 \<le> to" "to \<le> last_addr s2"
      using r f2 by simp_all
    have "push_undo_atom ty from to s =
              (let (t, s1) = search_line_node to s2;
                   (h, s2) = search_line_node from s1
               in Some (Some (length (ustack s2)),
                        s2\<lparr>ustack := ustack s2 @ [\<lparr>type = ty, head = h, tail = t\<rparr>]\<rparr>))"
      using True nlim ab by (simp add: push_undo_atom_def Let_def s2_def)
    with store_atom_eq[OF inv2 r2, of ty] f2 show ?thesis by simp
  qed
qed

lemma yank_inv_cong:
  assumes "heap s' = h'" "brk s' = brk s"
    and "\<forall>a \<in> set (yank_buffer_head # ys). h' a = heap s a"
    and "set ns' \<subseteq> set ns"
  shows "yank_inv s ns ys \<Longrightarrow> yank_inv s' ns' ys"
  unfolding yank_inv_def using assms ring_cong[of yank_buffer_head ys h' "heap s"]
  by auto

lemma link_nodes_text_fun: "line_text (link_nodes p n h) = line_text h"
  by (rule ext) (rule link_nodes_text)

lemma delete_lines_core:
  assumes inv: "buffer_inv s ns" and yi: "yank_inv s ns ys"
    and ns: "ns = A @ D @ B" and D: "D \<noteq> []"
    and "from": "from = int (length A) + 1" and to: "to = int (length A + length D)"
  shows "(\<forall>s'. delete_lines from to isglobal s = Some (True, s') \<longrightarrow>
            buffer_inv s' (A @ B) \<and>
            last_addr s' = last_addr s - (to - from + 1) \<and>
            (\<exists>ys'. yank_inv s' (A @ B) ys' \<and> set ys' \<inter> set (A @ D @ B) = {} \<and>
                   map (line_text (heap s')) ys' = map (line_text (heap s)) D) \<and>
            map (line_text (heap s')) (A @ B) = map (line_text (heap s)) (A @ B) \<and>
            current_addr s' = min from (last_addr s') \<and> modified s' \<and>
            ustack s' = ustack s @ [\<lparr>type = UDEL, head = hd D, tail = last D\<rparr>] \<and>
            (\<forall>a \<in> set D. heap s' a = heap s a) \<and>
            u_current_addr s' = u_current_addr s \<and> u_last_addr s' = u_last_addr s \<and>
            u_modified s' = u_modified s) \<and>
         (alloc_oracle s = [] \<and> (int (length (ustack s)) + 1) * sizeof_undo_t < int_max \<longrightarrow>
            (\<exists>s'. delete_lines from to isglobal s = Some (True, s')))"
proof -
  let ?y = yank_buffer_head
  let ?F = "buffer_head # ns"
  from inv have l: "last_addr s = int (length ns)" by (simp add: buffer_inv_def)
  have Dlen: "1 \<le> int (length D)" using D by (cases D) simp_all
  have rng: "0 \<le> from" "from \<le> last_addr s" "0 \<le> to" "to \<le> last_addr s"
    "0 \<le> from - 1" "from - 1 \<le> last_addr s"
    using "from" to l ns Dlen by simp_all
  from yank_lines_spec[OF inv yi ns D "from" to] obtain ok s1 where
    yl: "yank_lines from to s = Some (ok, s1)" and
    okk: "alloc_oracle s = [] \<longrightarrow> ok \<and> alloc_oracle s1 = []" and
    post1: "ok \<longrightarrow> (\<exists>ys'. yank_inv s1 ns ys' \<and>
                    map (line_text (heap s1)) ys' = map (line_text (heap s)) D) \<and>
            buffer_inv s1 ns \<and> o_addr s1 = from \<and>
            (\<forall>a. a < brk s \<and> a \<notin> set (?y # ys) \<longrightarrow> heap s1 a = heap s a) \<and>
            brk s \<le> brk s1 \<and>
            s1 = s\<lparr>heap := heap s1, brk := brk s1, alloc_oracle := alloc_oracle s1,
                   lp_cache := lp_cache s1, o_addr := o_addr s1\<rparr>"
    by blast
  show ?thesis
  proof (cases ok)
    case False
    then have "delete_lines from to isglobal s = Some (False, s1)"
      using yl by (simp add: delete_lines_def)
    with False okk show ?thesis by auto
  next
    case True
    with post1 obtain ys1 where
      yi1: "yank_inv s1 ns ys1" and
      m1: "map (line_text (heap s1)) ys1 = map (line_text (heap s)) D" and
      inv1: "buffer_inv s1 ns" and
      ag1: "\<forall>a. a < brk s \<and> a \<notin> set (?y # ys) \<longrightarrow> heap s1 a = heap s a" and
      eq1: "s1 = s\<lparr>heap := heap s1, brk := brk s1, alloc_oracle := alloc_oracle s1,
                   lp_cache := lp_cache s1, o_addr := o_addr s1\<rparr>"
      by blast
    have f1: "last_addr s1 = last_addr s" "ustack s1 = ustack s" "current_addr s1 = current_addr s"
      by (subst eq1, simp)+
    have g1: "u_current_addr s1 = u_current_addr s" "u_last_addr s1 = u_last_addr s"
      "u_modified s1 = u_modified s"
      by (subst eq1, simp)+
    have rng1: "0 \<le> from" "from \<le> last_addr s1" "0 \<le> to" "to \<le> last_addr s1"
      using rng f1 by simp_all
    have dl1: "delete_lines from to isglobal s =
        do { (up, s2) \<leftarrow> push_undo_atom UDEL from to s1;
            if up = None then Some (False, s2)
            else do {
              let (n, s3) = search_line_node (inc_addr to s2) s2;
              let (p, s4) = search_line_node (from - 1) s3;
              s5 \<leftarrow> (if isglobal then unset_active_nodes (q_forw (heap s4 p)) n s4 else Some s4);
              let s6 = s5\<lparr>heap := link_nodes p n (heap s5)\<rparr>;
              let s7 = s6\<lparr>last_addr := last_addr s6 - (to - from + 1)\<rparr>;
              let s8 = s7\<lparr>current_addr := min from (last_addr s7)\<rparr>;
              Some (True, s8\<lparr>modified := True\<rparr>) } }"
      using yl True by (simp add: delete_lines_def)
    have part2: "alloc_oracle s = [] \<and> (int (length (ustack s)) + 1) * sizeof_undo_t < int_max \<longrightarrow>
             (\<exists>idx s2. push_undo_atom UDEL from to s1 = Some (Some idx, s2))"
      using push_undo_atom_succeeds[OF inv1 rng1, of UDEL] okk f1 by auto
    have main: "\<And>idx s2. push_undo_atom UDEL from to s1 = Some (Some idx, s2) \<Longrightarrow>
       \<exists>s'. delete_lines from to isglobal s = Some (True, s') \<and>
            buffer_inv s' (A @ B) \<and>
            last_addr s' = last_addr s - (to - from + 1) \<and>
            (\<exists>ys'. yank_inv s' (A @ B) ys' \<and> set ys' \<inter> set (A @ D @ B) = {} \<and>
                   map (line_text (heap s')) ys' = map (line_text (heap s)) D) \<and>
            map (line_text (heap s')) (A @ B) = map (line_text (heap s)) (A @ B) \<and>
            current_addr s' = min from (last_addr s') \<and> modified s' \<and>
            ustack s' = ustack s @ [\<lparr>type = UDEL, head = hd D, tail = last D\<rparr>] \<and>
            (\<forall>a \<in> set D. heap s' a = heap s a) \<and>
            u_current_addr s' = u_current_addr s \<and> u_last_addr s' = u_last_addr s \<and>
            u_modified s' = u_modified s"
    proof -
      fix idx s2 assume pu: "push_undo_atom UDEL from to s1 = Some (Some idx, s2)"
      from push_undo_atom_ok[OF inv1 rng1 pu] have
        h2: "heap s2 = heap s1" and b2: "brk s2 = brk s1" and
        u2: "ustack s2 = ustack s1 @ [\<lparr>type = UDEL, head = ?F ! nat from, tail = ?F ! nat to\<rparr>]" and
        o2: "o_addr s2 = from" and c2: "lp_cache s2 = ?F ! nat from" and
        eq2: "s2 = s1\<lparr>ustack := ustack s2, usize := usize s2, ustack_null := ustack_null s2,
                alloc_oracle := alloc_oracle s2, lp_cache := lp_cache s2, o_addr := o_addr s2\<rparr>"
        by blast+
      have f2: "last_addr s2 = last_addr s" "current_addr s2 = current_addr s"
        by (subst eq2, simp add: f1)+
      have g2: "u_current_addr s2 = u_current_addr s" "u_last_addr s2 = u_last_addr s"
        "u_modified s2 = u_modified s"
        by (subst eq2, simp add: g1)+
      have inv2: "buffer_inv s2 ns"
        using inv1 rng unfolding buffer_inv_def h2 f2 o2 c2 f1 by simp
      have r: "ring (heap s2) buffer_head (A @ D @ B)" using inv2 by (simp add: buffer_inv_def ns)
      define n where "n = hd (B @ [buffer_head])"
      define p where "p = last (buffer_head # A)"
      define s3 where "s3 = s2\<lparr>lp_cache := n, o_addr := inc_addr to s2\<rparr>"
      define s4 where "s4 = s2\<lparr>lp_cache := p, o_addr := from - 1\<rparr>"
      have inc2: "inc_addr to s2 = inc_addr to s" by (simp add: inc_addr_def f2)
      have inc_r: "0 \<le> inc_addr to s2" "inc_addr to s2 \<le> last_addr s2"
        using inc_addr_range[of to s2] rng f2 by simp_all
      have nn: "?F ! nat (inc_addr to s2) = n"
        unfolding n_def ns to using inc_addr_nth[of s2 A D B buffer_head] l ns f2 by simp
      have e3: "search_line_node (inc_addr to s2) s2 = (n, s3)"
        using search_line_node_ring[OF inv2 inc_r] by (simp add: nn s3_def)
      have inv3: "buffer_inv s3 ns" using search_line_node_inv[OF inv2 inc_r] by (simp add: e3)
      have l3: "last_addr s3 = last_addr s" by (simp add: s3_def f2)
      have pn: "?F ! nat (from - 1) = p"
        unfolding p_def ns "from" using nth_full_last[of buffer_head A "D @ B"] by simp
      have e4: "search_line_node (from - 1) s3 = (p, s4)"
        using search_line_node_ring[OF inv3, of "from - 1"] rng l3 by (simp add: pn s3_def s4_def)
      have h4: "heap s4 = heap s2" by (simp add: s4_def)
      have pf: "q_forw (heap s4 p) = hd D"
        unfolding h4 p_def using ring_mid_forw[OF r] D by (cases D) simp_all
      have fp: "fpath (heap s4) (hd D) D n"
        unfolding h4 n_def using ring_fpath[OF r] D by (cases D) simp_all
      obtain s5 where
        e5: "(if isglobal then unset_active_nodes (q_forw (heap s4 p)) n s4 else Some s4) = Some s5"
        and eq5: "s5 = s4\<lparr>active_list := active_list s5, active_idxm := active_idxm s5\<rparr>"
      proof (cases isglobal)
        case False
        then show ?thesis using that[of s4] by simp
      next
        case True
        from unset_active_nodes_spec[OF fp] obtain al im where
          "unset_active_nodes (hd D) n s4 = Some (s4\<lparr>active_list := al, active_idxm := im\<rparr>)" by blast
        then show ?thesis using that[of "s4\<lparr>active_list := al, active_idxm := im\<rparr>"] True pf by simp
      qed
      have f5: "heap s5 = heap s2" "last_addr s5 = last_addr s" "brk s5 = brk s2"
        "ustack s5 = ustack s2" "o_addr s5 = from - 1" "lp_cache s5 = p"
        by (subst eq5, simp add: s4_def f2)+
      have g5: "u_current_addr s5 = u_current_addr s" "u_last_addr s5 = u_last_addr s"
        "u_modified s5 = u_modified s"
        by (subst eq5, simp add: s4_def g2)+
      define s' where "s' = s5\<lparr>heap := link_nodes p n (heap s5),
                               last_addr := last_addr s5 - (to - from + 1),
                               current_addr := min from (last_addr s5 - (to - from + 1)),
                               modified := True\<rparr>"
      have res: "delete_lines from to isglobal s = Some (True, s')"
        unfolding dl1 using pu e3 e4 e5 by (simp add: Let_def s'_def)
      have rr: "ring (heap s') buffer_head (A @ B)"
        using ring_unlink[OF r] by (simp add: s'_def f5 p_def n_def)
      have c1: "buffer_inv s' (A @ B)"
        unfolding buffer_inv_def using rr f5 l ns "from" to pn
        by (simp add: s'_def p_def nth_full_last)
      have c2': "last_addr s' = last_addr s - (to - from + 1)" by (simp add: s'_def f5)
      have c4: "current_addr s' = min from (last_addr s')" "modified s'" by (simp_all add: s'_def)
      have hdD: "?F ! nat from = hd D"
      proof -
        have "nat from = Suc (length A)" using "from" by simp
        moreover have "(buffer_head # A @ (D @ B)) ! Suc (length A) = hd (D @ B)"
          using D by (intro nth_full_hd) simp
        ultimately show ?thesis using D by (simp add: ns)
      qed
      have lastD: "?F ! nat to = last D"
      proof -
        have "nat to = length (A @ butlast D) + 1" using to D by (simp add: Suc_le_eq)
        moreover have "ns = (A @ butlast D) @ last D # B" using ns D by simp
        ultimately show ?thesis by (simp add: nth_append)
      qed
      have c5: "ustack s' = ustack s @ [\<lparr>type = UDEL, head = hd D, tail = last D\<rparr>]"
        by (simp add: s'_def f5 u2 f1 hdD lastD)
      have yi2: "yank_inv s' (A @ B) ys1"
      proof (rule yank_inv_cong[OF _ _ _ _ yi1])
        show "heap s' = link_nodes p n (heap s1)" by (simp add: s'_def f5 h2)
        show "brk s' = brk s1" by (simp add: s'_def f5 b2)
        show "set (A @ B) \<subseteq> set ns" by (auto simp: ns)
        have pin: "p \<in> set ?F" unfolding p_def ns using last_in[of buffer_head A] by auto
        have nin: "n \<in> set ?F" unfolding n_def ns by (cases B) auto
        have dis: "\<And>a. a \<in> set ?F \<Longrightarrow> a \<notin> set (?y # ys1)"
          using yi1 unfolding yank_inv_def
          by (fastforce simp: buffer_head_def yank_buffer_head_def)
        show "\<forall>a \<in> set (?y # ys1). link_nodes p n (heap s1) a = heap s1 a"
          using dis[OF pin] dis[OF nin] by (intro ballI link_nodes_other) auto
      qed
      have c3: "map (line_text (heap s')) ys1 = map (line_text (heap s)) D"
        using m1 by (simp add: s'_def f5 h2 link_nodes_text_fun)
      have c6: "\<forall>a \<in> set D. heap s' a = heap s a"
      proof
        fix a assume a: "a \<in> set D"
        have dist: "distinct (buffer_head # A @ D @ B)" using r by (simp add: ring_def)
        have pin: "p \<in> set (buffer_head # A)" unfolding p_def by (rule last_in)
        have nin: "n \<in> set (buffer_head # B)" unfolding n_def by (cases B) auto
        have ap: "a \<noteq> p" using a pin dist by auto
        have an: "a \<noteq> n" using a nin dist by auto
        have ans: "a \<in> set ns" using a by (simp add: ns)
        from yi have al: "\<forall>a \<in> set ns \<union> set ys. 2 \<le> a \<and> a < brk s"
          and dj: "set ns \<inter> set ys = {}" by (simp_all add: yank_inv_def)
        from al ans have "2 \<le> a \<and> a < brk s" by blast
        moreover from dj ans have "a \<notin> set ys" by blast
        ultimately have "a < brk s \<and> a \<notin> set (?y # ys)"
          by (simp add: yank_buffer_head_def)
        then have "heap s1 a = heap s a" using ag1 by blast
        moreover have "heap s' a = heap s1 a"
          using ap an by (simp add: s'_def f5 h2 link_nodes_other)
        ultimately show "heap s' a = heap s a" by simp
      qed
      have c8: "set ys1 \<inter> set (A @ D @ B) = {}"
        using yi1 unfolding yank_inv_def ns by blast
      have c9: "map (line_text (heap s')) (A @ B) = map (line_text (heap s)) (A @ B)"
      proof (rule map_cong[OF refl])
        fix a assume a: "a \<in> set (A @ B)"
        then have ans: "a \<in> set ns" by (auto simp: ns)
        from yi have al: "\<forall>a \<in> set ns \<union> set ys. 2 \<le> a \<and> a < brk s"
          and dj: "set ns \<inter> set ys = {}" by (simp_all add: yank_inv_def)
        from al ans have "2 \<le> a \<and> a < brk s" by blast
        moreover from dj ans have "a \<notin> set ys" by blast
        ultimately have "a < brk s \<and> a \<notin> set (?y # ys)"
          by (simp add: yank_buffer_head_def)
        then have "heap s1 a = heap s a" using ag1 by blast
        moreover have "line_text (heap s') a = line_text (heap s1) a"
          by (simp add: s'_def f5 h2 link_nodes_text)
        ultimately show "line_text (heap s') a = line_text (heap s) a"
          by (simp add: line_text_def)
      qed
      have c7: "u_current_addr s' = u_current_addr s" "u_last_addr s' = u_last_addr s"
        "u_modified s' = u_modified s"
        by (simp_all add: s'_def g5)
      show "\<exists>s'. delete_lines from to isglobal s = Some (True, s') \<and>
            buffer_inv s' (A @ B) \<and>
            last_addr s' = last_addr s - (to - from + 1) \<and>
            (\<exists>ys'. yank_inv s' (A @ B) ys' \<and> set ys' \<inter> set (A @ D @ B) = {} \<and>
                   map (line_text (heap s')) ys' = map (line_text (heap s)) D) \<and>
            map (line_text (heap s')) (A @ B) = map (line_text (heap s)) (A @ B) \<and>
            current_addr s' = min from (last_addr s') \<and> modified s' \<and>
            ustack s' = ustack s @ [\<lparr>type = UDEL, head = hd D, tail = last D\<rparr>] \<and>
            (\<forall>a \<in> set D. heap s' a = heap s a) \<and>
            u_current_addr s' = u_current_addr s \<and> u_last_addr s' = u_last_addr s \<and>
            u_modified s' = u_modified s"
        using res c1 c2' c4 c5 yi2 c3 c6 c7 c8 c9 by blast
    qed
    have partA: "\<forall>s'. delete_lines from to isglobal s = Some (True, s') \<longrightarrow>
            buffer_inv s' (A @ B) \<and>
            last_addr s' = last_addr s - (to - from + 1) \<and>
            (\<exists>ys'. yank_inv s' (A @ B) ys' \<and> set ys' \<inter> set (A @ D @ B) = {} \<and>
                   map (line_text (heap s')) ys' = map (line_text (heap s)) D) \<and>
            map (line_text (heap s')) (A @ B) = map (line_text (heap s)) (A @ B) \<and>
            current_addr s' = min from (last_addr s') \<and> modified s' \<and>
            ustack s' = ustack s @ [\<lparr>type = UDEL, head = hd D, tail = last D\<rparr>] \<and>
            (\<forall>a \<in> set D. heap s' a = heap s a) \<and>
            u_current_addr s' = u_current_addr s \<and> u_last_addr s' = u_last_addr s \<and>
            u_modified s' = u_modified s"
    proof (intro allI impI)
      fix s' assume d: "delete_lines from to isglobal s = Some (True, s')"
      then obtain up s2 where pu: "push_undo_atom UDEL from to s1 = Some (up, s2)"
        unfolding dl1 by (auto split: Option.bind_splits)
      with d have "up \<noteq> None" unfolding dl1 by (auto split: Option.bind_splits if_splits)
      then obtain idx where "up = Some idx" by auto
      from main[OF pu[unfolded this]] d
      show "buffer_inv s' (A @ B) \<and>
            last_addr s' = last_addr s - (to - from + 1) \<and>
            (\<exists>ys'. yank_inv s' (A @ B) ys' \<and> set ys' \<inter> set (A @ D @ B) = {} \<and>
                   map (line_text (heap s')) ys' = map (line_text (heap s)) D) \<and>
            map (line_text (heap s')) (A @ B) = map (line_text (heap s)) (A @ B) \<and>
            current_addr s' = min from (last_addr s') \<and> modified s' \<and>
            ustack s' = ustack s @ [\<lparr>type = UDEL, head = hd D, tail = last D\<rparr>] \<and>
            (\<forall>a \<in> set D. heap s' a = heap s a) \<and>
            u_current_addr s' = u_current_addr s \<and> u_last_addr s' = u_last_addr s \<and>
            u_modified s' = u_modified s"
        by auto
    qed
    have partB: "alloc_oracle s = [] \<and> (int (length (ustack s)) + 1) * sizeof_undo_t < int_max \<longrightarrow>
            (\<exists>s'. delete_lines from to isglobal s = Some (True, s'))"
    proof
      assume "alloc_oracle s = [] \<and> (int (length (ustack s)) + 1) * sizeof_undo_t < int_max"
      with part2 obtain idx s2 where "push_undo_atom UDEL from to s1 = Some (Some idx, s2)" by blast
      from main[OF this] show "\<exists>s'. delete_lines from to isglobal s = Some (True, s')" by blast
    qed
    from partA partB show ?thesis by (rule conjI)
  qed
qed

lemma three_lines_inv: "buffer_inv three_lines [2, 3, 4] \<and> yank_inv three_lines [2, 3, 4] []"
  by (simp add: buffer_inv_def yank_inv_def ring_def three_lines_def init_state_def node_def
        buffer_head_def yank_buffer_head_def)

text \<open>
  Claim C3. In a state whose buffer holds the lines \<open>ns\<close> and whose yank buffer is a ring
  of other nodes, with \<open>1 \<le> from \<le> to \<le> last_addr\<close>: when \<open>delete_lines\<close> returns true,
  the buffer holds \<open>ns\<close> without the lines \<open>from\<close> to \<open>to\<close>, the lines that stay have their
  \<open>pos\<close> and \<open>len\<close>, \<open>last_addr\<close> is smaller by \<open>to - from + 1\<close>, the yank buffer holds
  copies of the deleted lines in their order: nodes that are none of the lines of the old
  buffer, so none of the deleted nodes, with the \<open>pos\<close> and \<open>len\<close> that the deleted lines
  have, before and after; \<open>current_addr\<close> is \<open>min (from, last_addr)\<close> and \<open>modified\<close> is set. It
  does return true when every allocation succeeds and the undo stack is below its size
  limit.
\<close>

theorem delete_lines_effect:
  assumes inv: "buffer_inv s ns" and yi: "yank_inv s ns ys"
    and rng: "1 \<le> from" "from \<le> to" "to \<le> last_addr s"
  shows "(\<forall>s'. delete_lines from to isglobal s = Some (True, s') \<longrightarrow>
            buffer_inv s' (take (nat (from - 1)) ns @ drop (nat to) ns) \<and>
            map (line_text (heap s')) (take (nat (from - 1)) ns @ drop (nat to) ns) =
              map (line_text (heap s)) (take (nat (from - 1)) ns @ drop (nat to) ns) \<and>
            last_addr s' = last_addr s - (to - from + 1) \<and>
            (\<exists>ys'. yank_inv s' (take (nat (from - 1)) ns @ drop (nat to) ns) ys' \<and>
                   set ys' \<inter> set ns = {} \<and>
                   map (line_text (heap s')) ys' =
                   map (line_text (heap s)) (take (nat (to - from + 1)) (drop (nat (from - 1)) ns))) \<and>
            map (line_text (heap s')) (take (nat (to - from + 1)) (drop (nat (from - 1)) ns)) =
              map (line_text (heap s)) (take (nat (to - from + 1)) (drop (nat (from - 1)) ns)) \<and>
            current_addr s' = min from (last_addr s') \<and> modified s') \<and>
         (alloc_oracle s = [] \<and> (int (length (ustack s)) + 1) * sizeof_undo_t < int_max \<longrightarrow>
            (\<exists>s'. delete_lines from to isglobal s = Some (True, s')))"
proof -
  define A where "A = take (nat (from - 1)) ns"
  define D where "D = take (nat (to - from + 1)) (drop (nat (from - 1)) ns)"
  define B where "B = drop (nat to) ns"
  from inv have l: "last_addr s = int (length ns)" by (simp add: buffer_inv_def)
  have lA: "length A = nat (from - 1)" using rng l by (simp add: A_def)
  have lD: "length D = nat (to - from + 1)" using rng l by (simp add: D_def)
  have "drop (nat (to - from + 1)) (drop (nat (from - 1)) ns) = B"
    using rng by (simp add: B_def nat_add_distrib[symmetric])
  then have ns: "ns = A @ D @ B"
    unfolding A_def D_def by (metis append_take_drop_id)
  have Dne: "D \<noteq> []" using lD rng by auto
  have f: "from = int (length A) + 1" using lA rng by simp
  have t: "to = int (length A + length D)" using lA lD rng by simp
  note core = delete_lines_core[OF inv yi ns Dne f t, of isglobal]
  have P1: "\<forall>s'. delete_lines from to isglobal s = Some (True, s') \<longrightarrow>
            buffer_inv s' (A @ B) \<and>
            map (line_text (heap s')) (A @ B) = map (line_text (heap s)) (A @ B) \<and>
            last_addr s' = last_addr s - (to - from + 1) \<and>
            (\<exists>ys'. yank_inv s' (A @ B) ys' \<and> set ys' \<inter> set ns = {} \<and>
                   map (line_text (heap s')) ys' = map (line_text (heap s)) D) \<and>
            map (line_text (heap s')) D = map (line_text (heap s)) D \<and>
            current_addr s' = min from (last_addr s') \<and> modified s'"
  proof (intro allI impI)
    fix s' assume d: "delete_lines from to isglobal s = Some (True, s')"
    with core have c: "buffer_inv s' (A @ B)"
      "map (line_text (heap s')) (A @ B) = map (line_text (heap s)) (A @ B)"
      "last_addr s' = last_addr s - (to - from + 1)"
      "\<exists>ys'. yank_inv s' (A @ B) ys' \<and> set ys' \<inter> set (A @ D @ B) = {} \<and>
                   map (line_text (heap s')) ys' = map (line_text (heap s)) D"
      "\<forall>a \<in> set D. heap s' a = heap s a"
      "current_addr s' = min from (last_addr s')" "modified s'"
      by blast+
    have "map (line_text (heap s')) D = map (line_text (heap s)) D"
      using c(5) by (intro map_cong[OF refl]) (simp add: line_text_def)
    with c show "buffer_inv s' (A @ B) \<and>
            map (line_text (heap s')) (A @ B) = map (line_text (heap s)) (A @ B) \<and>
            last_addr s' = last_addr s - (to - from + 1) \<and>
            (\<exists>ys'. yank_inv s' (A @ B) ys' \<and> set ys' \<inter> set ns = {} \<and>
                   map (line_text (heap s')) ys' = map (line_text (heap s)) D) \<and>
            map (line_text (heap s')) D = map (line_text (heap s)) D \<and>
            current_addr s' = min from (last_addr s') \<and> modified s'"
      unfolding ns by blast
  qed
  have P2: "alloc_oracle s = [] \<and> (int (length (ustack s)) + 1) * sizeof_undo_t < int_max \<longrightarrow>
            (\<exists>s'. delete_lines from to isglobal s = Some (True, s'))"
    using core by blast
  from P1 P2 show ?thesis unfolding A_def[symmetric] D_def[symmetric] B_def[symmetric]
    by (rule conjI)
qed

theorem delete_lines_effect_witness:
  "buffer_inv three_lines [2, 3, 4] \<and> yank_inv three_lines [2, 3, 4] [] \<and>
   (1::int) \<le> 2 \<and> (2::int) \<le> last_addr three_lines \<and>
   (\<exists>s'. delete_lines 2 2 False three_lines = Some (True, s') \<and>
      buffer_inv s' [2, 4] \<and> map (line_text (heap s')) [2, 4] = [(0, 1), (2, 1)] \<and>
      last_addr s' = 2 \<and> current_addr s' = 2 \<and> modified s' \<and>
      (\<exists>ys'. yank_inv s' [2, 4] ys' \<and> set ys' \<inter> set [2, 3, 4] = {} \<and>
              map (line_text (heap s')) ys' = [(1, 1)]) \<and>
      map (line_text (heap s')) [3] = [(1, 1)])"
proof -
  have h: "alloc_oracle three_lines = [] \<and>
           (int (length (ustack three_lines)) + 1) * sizeof_undo_t < int_max"
    by (simp add: three_lines_def init_state_def sizeof_undo_t_def int_max_def)
  have r: "(1::int) \<le> 2" "(2::int) \<le> 2" "(2::int) \<le> last_addr three_lines"
    by (simp_all add: three_lines_def)
  have tx: "map (line_text (heap three_lines)) (take (nat (2 - 2 + 1)) (drop (nat (2 - 1)) [2, 3, 4])) = [(1, 1)]"
    by (simp add: three_lines_def init_state_def node_def line_text_def)
  have tk: "map (line_text (heap three_lines)) (take (nat (2 - 1)) [2, 3, 4] @ drop (nat 2) [2, 3, 4]) =
              [(0, 1), (2, 1)]"
    by (simp add: three_lines_def init_state_def node_def line_text_def)
  have ls: "take (nat (2 - 1)) [2, 3, 4 :: nat] @ drop (nat 2) [2, 3, 4] = [2, 4]"
    "take (nat (2 - 2 + 1)) (drop (nat (2 - 1)) [2, 3, 4 :: nat]) = [3]" by simp_all
  have la: "last_addr three_lines = 3" by (simp add: three_lines_def)
  note t = delete_lines_effect[OF conjunct1[OF three_lines_inv] conjunct2[OF three_lines_inv] r, of False]
  from t h obtain s' where d: "delete_lines 2 2 False three_lines = Some (True, s')" by blast
  with t have "buffer_inv s' [2, 4] \<and> map (line_text (heap s')) [2, 4] = [(0, 1), (2, 1)] \<and>
      last_addr s' = 2 \<and> current_addr s' = 2 \<and> modified s' \<and>
      (\<exists>ys'. yank_inv s' [2, 4] ys' \<and> set ys' \<inter> set [2, 3, 4] = {} \<and>
              map (line_text (heap s')) ys' = [(1, 1)]) \<and>
      map (line_text (heap s')) [3] = [(1, 1)]"
    unfolding tx tk la unfolding ls by auto
  with d three_lines_inv r show ?thesis by auto
qed

lemma link_forw: "q_forw (link_nodes p n h a) = (if a = p then n else q_forw (h a))"
  by (simp add: link_nodes_def Let_def)

lemma link_back: "q_back (link_nodes p n h a) = (if a = n then p else q_back (h a))"
  by (simp add: link_nodes_def Let_def)

lemma link_pos: "pos (link_nodes p n h a) = pos (h a)"
  by (simp add: link_nodes_def Let_def)

lemma link_len: "len (link_nodes p n h a) = len (h a)"
  by (simp add: link_nodes_def Let_def)

lemma heap_eqI:
  assumes "\<And>a. q_forw (h' a) = q_forw (h a)" "\<And>a. q_back (h' a) = q_back (h a)"
    "\<And>a. pos (h' a) = pos (h a)" "\<And>a. len (h' a) = len (h a)"
  shows "h' = (h :: addr \<Rightarrow> line_t)"
proof
  fix a show "h' a = h a" using assms[of a] by (intro line_t.equality) simp_all
qed

lemma add_then_del:
  assumes ok: "add_ok h u"
  shows "undo_del (undo_add h u) u = h" and "del_ok (undo_add h u) u"
proof -
  define H where "H = head u"
  define T where "T = tail u"
  define P where "P = q_back (h H)"
  define N where "N = q_forw (h T)"
  from ok have pf: "q_forw (h P) = H" and nb: "q_back (h N) = T" and ne: "T \<noteq> P"
    by (simp_all add: add_ok_def H_def T_def P_def N_def)
  have hn: "H \<noteq> N"
  proof
    assume "H = N"
    then have "q_back (h H) = T" using nb by simp
    then show False using ne by (simp add: P_def)
  qed
  define h1 where "h1 = link_nodes P N h"
  have a1: "undo_add h u = h1" by (simp add: undo_add_def h1_def H_def T_def P_def N_def)
  have b1: "q_back (h1 H) = P" using hn by (simp add: h1_def link_back P_def)
  define h2 where "h2 = link_nodes P H h1"
  have f2: "q_forw (h2 T) = N" using ne by (simp add: h2_def h1_def link_forw N_def)
  define h3 where "h3 = link_nodes T N h2"
  have d: "undo_del h1 u = h3"
    by (simp add: undo_del_def Let_def H_def[symmetric] T_def[symmetric] b1 h2_def[symmetric] f2 h3_def)
  have "h3 = h"
  proof (rule heap_eqI)
    fix a
    show "q_forw (h3 a) = q_forw (h a)"
      using pf ne by (simp add: h3_def h2_def h1_def link_forw N_def)
    show "q_back (h3 a) = q_back (h a)"
      using nb hn by (auto simp: h3_def h2_def h1_def link_back P_def)
    show "pos (h3 a) = pos (h a)" by (simp add: h3_def h2_def h1_def link_pos)
    show "len (h3 a) = len (h a)" by (simp add: h3_def h2_def h1_def link_len)
  qed
  then show "undo_del (undo_add h u) u = h" using a1 d by simp
  show "del_ok (undo_add h u) u"
    unfolding a1 del_ok_def H_def[symmetric] T_def[symmetric]
    using ne hn by (simp add: h1_def link_forw link_back N_def[symmetric] P_def[symmetric])
qed

lemma del_then_add:
  assumes ok: "del_ok h u"
  shows "undo_add (undo_del h u) u = h" and "add_ok (undo_del h u) u"
proof -
  define H where "H = head u"
  define T where "T = tail u"
  define P where "P = q_back (h H)"
  define N where "N = q_forw (h T)"
  from ok have pf: "q_forw (h P) = N" and nb: "q_back (h N) = P" and ne: "T \<noteq> P" and hn: "H \<noteq> N"
    by (simp_all add: del_ok_def H_def T_def P_def N_def)
  define h1 where "h1 = link_nodes P H h"
  have f1: "q_forw (h1 T) = N" using ne by (simp add: h1_def link_forw N_def)
  define h2 where "h2 = link_nodes T N h1"
  have d: "undo_del h u = h2"
    by (simp add: undo_del_def Let_def H_def[symmetric] T_def[symmetric] P_def[symmetric]
          h1_def[symmetric] f1 h2_def)
  have b2: "q_back (h2 H) = P" using hn by (simp add: h2_def h1_def link_back P_def)
  have f2: "q_forw (h2 T) = N" by (simp add: h2_def link_forw)
  define h3 where "h3 = link_nodes P N h2"
  have a: "undo_add h2 u = h3"
    by (simp add: undo_add_def H_def[symmetric] T_def[symmetric] b2 f2 h3_def)
  have "h3 = h"
  proof (rule heap_eqI)
    fix a
    show "q_forw (h3 a) = q_forw (h a)"
      using pf ne by (auto simp: h3_def h2_def h1_def link_forw N_def)
    show "q_back (h3 a) = q_back (h a)"
      using nb hn by (auto simp: h3_def h2_def h1_def link_back P_def)
    show "pos (h3 a) = pos (h a)" by (simp add: h3_def h2_def h1_def link_pos)
    show "len (h3 a) = len (h a)" by (simp add: h3_def h2_def h1_def link_len)
  qed
  then show "undo_add (undo_del h u) u = h" using a d by simp
  show "add_ok (undo_del h u) u"
    unfolding d add_ok_def H_def[symmetric] T_def[symmetric] b2 f2
    using ne hn by (simp add: h2_def h1_def link_forw link_back)
qed

lemma mov_then_mov:
  assumes ok: "mov_ok h v u"
  shows "undo_mov (undo_mov h v u) u v = h" and "mov_ok (undo_mov h v u) u v"
proof -
  define b1 where "b1 = head v"
  define a1 where "a1 = tail v"
  define b2 where "b2 = head u"
  define a2 where "a2 = tail u"
  define F where "F = q_forw (h b2)"
  define S where "S = q_back (h a2)"
  from ok have mv: "is_mov v" "is_mov u"
    and g1: "q_forw (h b1) = a1" and g2: "q_back (h a1) = b1"
    and r1: "q_back (h F) = b2" and r2: "q_forw (h S) = a2"
    and n1: "b1 \<noteq> b2" and n2: "b1 \<noteq> S" and n3: "F \<noteq> a2"
    by (simp_all add: mov_ok_def b1_def a1_def b2_def a2_def F_def S_def)
  have n4: "a1 \<noteq> F"
  proof
    assume "a1 = F" then have "b1 = b2" using g2 r1 by simp
    then show False using n1 by simp
  qed
  have n5: "a1 \<noteq> a2"
  proof
    assume "a1 = a2" then have "b1 = S" using g2 by (simp add: S_def)
    then show False using n2 by simp
  qed
  have n6: "b2 \<noteq> S"
  proof
    assume "b2 = S" then have "F = a2" using r2 by (simp add: F_def)
    then show False using n3 by simp
  qed
  define k1 where "k1 = link_nodes b1 F h"
  have s1: "q_back (k1 a2) = S" using n3 by (simp add: k1_def link_back S_def)
  define k2 where "k2 = link_nodes S a1 k1"
  define k3 where "k3 = link_nodes b2 a2 k2"
  have m1: "undo_mov h v u = k3"
    by (simp add: undo_mov_def Let_def b1_def[symmetric] a1_def[symmetric] b2_def[symmetric]
          a2_def[symmetric] F_def[symmetric] k1_def[symmetric] s1 k2_def[symmetric] k3_def)
  have F': "q_forw (k3 b1) = F" using n1 n2 by (simp add: k3_def k2_def k1_def link_forw)
  define j1 where "j1 = link_nodes b2 F k3"
  have S': "q_back (j1 a1) = S" using n4 n5 by (simp add: j1_def k3_def k2_def k1_def link_back)
  define j2 where "j2 = link_nodes S a2 j1"
  define j3 where "j3 = link_nodes b1 a1 j2"
  have m2: "undo_mov k3 u v = j3"
    by (simp add: undo_mov_def Let_def b1_def[symmetric] a1_def[symmetric] b2_def[symmetric]
          a2_def[symmetric] F' j1_def[symmetric] S' j2_def[symmetric] j3_def)
  have "j3 = h"
  proof (rule heap_eqI)
    fix a
    show "q_forw (j3 a) = q_forw (h a)"
      using g1 r2 n1 n2 n6 by (auto simp: j3_def j2_def j1_def k3_def k2_def k1_def link_forw F_def)
    show "q_back (j3 a) = q_back (h a)"
      using g2 r1 n3 n4 n5 by (auto simp: j3_def j2_def j1_def k3_def k2_def k1_def link_back S_def)
    show "pos (j3 a) = pos (h a)"
      by (simp add: j3_def j2_def j1_def k3_def k2_def k1_def link_pos)
    show "len (j3 a) = len (h a)"
      by (simp add: j3_def j2_def j1_def k3_def k2_def k1_def link_len)
  qed
  then show "undo_mov (undo_mov h v u) u v = h" using m1 m2 by simp
  have "q_forw (k3 b2) = a2" "q_back (k3 a2) = b2" by (simp_all add: k3_def link_forw link_back)
  moreover have "q_back (k3 (q_forw (k3 b1))) = b1"
    unfolding F' using n3 n4 by (simp add: k3_def k2_def k1_def link_back)
  moreover have sb: "q_back (k3 a1) = S" using n5 by (simp add: k3_def k2_def link_back)
  moreover have "q_forw (k3 S) = a1" using n6 by (simp add: k3_def k2_def link_forw)
  moreover have "b2 \<noteq> b1" "b2 \<noteq> S" "F \<noteq> a1" using n1 n6 n4 by auto
  ultimately show "mov_ok (undo_mov h v u) u v"
    unfolding m1 mov_ok_def b1_def[symmetric] a1_def[symmetric] b2_def[symmetric]
          a2_def[symmetric] using mv F' by simp
qed

lemma flip_simps [simp]: "head (flip u) = head u" "tail (flip u) = tail u" "type (flip u) = xor1 (type u)"
  by (simp_all add: flip_def)

lemma is_mov_flip: "is_mov (flip u) = is_mov u"
  by (cases "type u") (simp_all add: is_mov_def)

lemma undo_flip:
  "undo_add h (flip u) = undo_add h u" "undo_del h (flip u) = undo_del h u"
  "undo_mov h (flip v) u = undo_mov h v u" "undo_mov h v (flip u) = undo_mov h v u"
  "add_ok h (flip u) = add_ok h u" "del_ok h (flip u) = del_ok h u"
  "mov_ok h (flip v) u = mov_ok h v u" "mov_ok h v (flip u) = mov_ok h v u"
  by (simp_all add: undo_add_def undo_del_def undo_mov_def add_ok_def del_ok_def mov_ok_def is_mov_flip)

lemma undo_loop_neg: "n < 0 \<Longrightarrow> undo_loop n us h = Some (us, h)"
  by (subst undo_loop.simps) simp

lemma undo_loop_pass:
  "undo_loop (int (length L) - 1) (rev L @ post) h =
     map_option (\<lambda>(r, h'). (rev r @ post, h')) (undo_pass h L)"
proof (induction h L arbitrary: post rule: undo_pass.induct)
  case (1 h)
  show ?case by (simp add: undo_loop_neg)
next
  case (2 h u)
  show ?case
    by (subst undo_loop.simps, cases "type u")
       (simp_all add: Let_def undo_add_def undo_del_def flip_def undo_loop_neg)
next
  case (3 h u v rest)
  have n: "nat (int (length (u # v # rest)) - 1) = Suc (length rest)" by simp
  have nth_u: "(rev (u # v # rest) @ post) ! Suc (length rest) = u"
    by (simp add: nth_append)
  have nth_v: "(rev (u # v # rest) @ post) ! length rest = v"
    by (simp add: nth_append)
  have upd_u: "\<And>w. (rev (u # v # rest) @ post)[Suc (length rest) := w] = rev (v # rest) @ (w # post)"
    by (simp add: list_update_append)
  have upd_v: "\<And>w. (rev (u # v # rest) @ post)[length rest := w] = rev rest @ (w # u # post)"
    by (simp add: list_update_append)
  show ?case
  proof (cases "type u")
    case UADD
    have "undo_loop (int (length (u # v # rest)) - 1) (rev (u # v # rest) @ post) h =
          undo_loop (int (length (v # rest)) - 1) (rev (v # rest) @ (flip u # post)) (undo_add h u)"
      apply (subst undo_loop.simps)
      apply (simp only: n nth_u Let_def UADD utype.case upd_u)
      apply (simp add: undo_add_def flip_def UADD)
      done
    also have "\<dots> = map_option (\<lambda>(r, h'). (rev r @ (flip u # post), h')) (undo_pass (undo_add h u) (v # rest))"
      by (rule "3.IH"(1)[OF UADD])
    finally show ?thesis using UADD by (simp add: option.map_comp comp_def split_def)
  next
    case UDEL
    have "undo_loop (int (length (u # v # rest)) - 1) (rev (u # v # rest) @ post) h =
          undo_loop (int (length (v # rest)) - 1) (rev (v # rest) @ (flip u # post)) (undo_del h u)"
      apply (subst undo_loop.simps)
      apply (simp only: n nth_u Let_def UDEL utype.case upd_u)
      apply (simp add: undo_del_def flip_def UDEL Let_def)
      done
    also have "\<dots> = map_option (\<lambda>(r, h'). (rev r @ (flip u # post), h')) (undo_pass (undo_del h u) (v # rest))"
      by (rule "3.IH"(2)[OF UDEL])
    finally show ?thesis using UDEL by (simp add: option.map_comp comp_def split_def)
  next
    case UMOV
    have "undo_loop (int (length (u # v # rest)) - 1) (rev (u # v # rest) @ post) h =
          undo_loop (int (length rest) - 1) (rev rest @ (flip v # u # post)) (undo_mov h v u)"
      apply (subst undo_loop.simps)
      apply (simp only: n nth_u Let_def UMOV utype.case)
      apply (simp add: undo_mov_def flip_def Let_def nth_append list_update_append)
      done
    also have "\<dots> = map_option (\<lambda>(r, h'). (rev r @ (flip v # u # post), h')) (undo_pass (undo_mov h v u) rest)"
      by (rule "3.IH"(3)[OF UMOV])
    finally show ?thesis using UMOV by (simp add: option.map_comp comp_def split_def)
  next
    case VMOV
    have "undo_loop (int (length (u # v # rest)) - 1) (rev (u # v # rest) @ post) h =
          undo_loop (int (length rest) - 1) (rev rest @ (flip v # u # post)) (undo_mov h v u)"
      apply (subst undo_loop.simps)
      apply (simp only: n nth_u Let_def VMOV utype.case)
      apply (simp add: undo_mov_def flip_def Let_def nth_append list_update_append)
      done
    also have "\<dots> = map_option (\<lambda>(r, h'). (rev r @ (flip v # u # post), h')) (undo_pass (undo_mov h v u) rest)"
      by (rule "3.IH"(4)[OF VMOV])
    finally show ?thesis using VMOV by (simp add: option.map_comp comp_def split_def)
  qed
qed

lemma reverse_ustack_nth:
  "0 \<le> n \<Longrightarrow> 2 * n \<le> int (length us) \<Longrightarrow>
   length (reverse_ustack n us) = length us \<and>
   (\<forall>i < length us. reverse_ustack n us ! i =
       (if n \<le> int i \<and> int i < int (length us) - n then us ! (length us - 1 - i) else us ! i))"
proof (induction n us rule: reverse_ustack.induct)
  case (1 n us)
  show ?case
  proof (cases "2 * n < int (length us) - 1")
    case False
    then have e: "reverse_ustack n us = us" by (subst reverse_ustack.simps) simp
    have "\<And>i. i < length us \<Longrightarrow> n \<le> int i \<Longrightarrow> int i < int (length us) - n \<Longrightarrow> length us - 1 - i = i"
      using False "1.prems" by linarith
    then show ?thesis unfolding e by auto
  next
    case True
    define j where "j = nat (int (length us) - 1 - n)"
    define k where "k = nat n"
    define us2 where "us2 = (us[k := us ! j])[j := us ! k]"
    have kj: "k < j" "j < length us" "int k = n" "int j = int (length us) - 1 - n"
      using True "1.prems" by (simp_all add: j_def k_def)
    have e: "reverse_ustack n us = reverse_ustack (n + 1) us2"
      using True by (subst reverse_ustack.simps) (simp add: Let_def us2_def j_def k_def)
    have l2: "length us2 = length us" by (simp add: us2_def)
    have p: "0 \<le> n + 1" "2 * (n + 1) \<le> int (length us2)" using True "1.prems" by (simp_all add: l2)
    have IH: "length (reverse_ustack (n + 1) us2) = length us2 \<and>
       (\<forall>i < length us2. reverse_ustack (n + 1) us2 ! i =
           (if n + 1 \<le> int i \<and> int i < int (length us2) - (n + 1) then us2 ! (length us2 - 1 - i) else us2 ! i))"
      using "1.IH"[OF True refl refl refl p[unfolded us2_def j_def k_def]]
      by (simp add: us2_def j_def k_def)
    have nth2: "\<And>i. i < length us \<Longrightarrow> us2 ! i = (if i = j then us ! k else if i = k then us ! j else us ! i)"
      using kj by (simp add: us2_def nth_list_update)
    show ?thesis
    proof (intro conjI allI impI)
      show "length (reverse_ustack n us) = length us" using IH e l2 by simp
    next
      fix i assume i: "i < length us"
      have r: "reverse_ustack n us ! i =
           (if n + 1 \<le> int i \<and> int i < int (length us) - (n + 1) then us2 ! (length us - 1 - i) else us2 ! i)"
        using IH i e l2 by simp
      consider (lo) "int i < n" | (eq1) "i = k" | (mid) "n + 1 \<le> int i" "int i < int (length us) - (n + 1)"
        | (eq2) "i = j" | (hi) "int (length us) - n \<le> int i"
        using kj by linarith
      then show "reverse_ustack n us ! i =
           (if n \<le> int i \<and> int i < int (length us) - n then us ! (length us - 1 - i) else us ! i)"
      proof cases
        case lo
        then have "i \<noteq> j" "i \<noteq> k" using kj by linarith+
        with lo r nth2[OF i] show ?thesis by simp
      next
        case eq1
        then have "length us - 1 - i = j" using kj by linarith
        with eq1 r nth2[OF i] kj show ?thesis by simp
      next
        case mid
        then have a: "length us - 1 - i < length us" "length us - 1 - i \<noteq> j" "length us - 1 - i \<noteq> k"
          using kj i by linarith+
        with mid r nth2[OF a(1)] show ?thesis by simp
      next
        case eq2
        then have "length us - 1 - i = k" using kj by linarith
        with eq2 r nth2[OF i] kj show ?thesis by simp
      next
        case hi
        then have "i \<noteq> j" "i \<noteq> k" using kj by linarith+
        with hi r nth2[OF i] show ?thesis by simp
      qed
    qed
  qed
qed

lemma reverse_ustack_rev: "reverse_ustack 0 us = rev us"
proof (rule nth_equalityI)
  show "length (reverse_ustack 0 us) = length (rev us)"
    using reverse_ustack_nth[of 0 us] by simp
next
  fix i assume "i < length (reverse_ustack 0 us)"
  then have i: "i < length us" using reverse_ustack_nth[of 0 us] by simp
  then show "reverse_ustack 0 us ! i = rev us ! i"
    using reverse_ustack_nth[of 0 us] by (simp add: rev_nth)
qed

lemma undo_pass_append:
  "undo_pass h L1 = Some (r1, h1) \<Longrightarrow>
   undo_pass h (L1 @ L2) = map_option (\<lambda>(r2, h2). (r1 @ r2, h2)) (undo_pass h1 L2)"
proof (induction h L1 arbitrary: r1 rule: undo_pass.induct)
  case (1 h)
  then show ?case by (simp add: option.map_ident split_def)
next
  case (2 h u)
  show ?case
  proof (cases L2)
    case Nil
    with 2 show ?thesis by simp
  next
    case (Cons w L2')
    with 2 show ?thesis
      by (cases "type u") (auto simp: option.map_comp comp_def split_def)
  qed
next
  case (3 h u v rest)
  show ?case
  proof (cases "type u")
    case UADD
    with "3.prems" obtain r0 where
      p: "undo_pass (undo_add h u) (v # rest) = Some (r0, h1)" and r1: "r1 = flip u # r0"
      by auto
    from "3.IH"(1)[OF UADD p] UADD r1 show ?thesis
      by (simp add: option.map_comp comp_def split_def)
  next
    case UDEL
    with "3.prems" obtain r0 where
      p: "undo_pass (undo_del h u) (v # rest) = Some (r0, h1)" and r1: "r1 = flip u # r0"
      by auto
    from "3.IH"(2)[OF UDEL p] UDEL r1 show ?thesis
      by (simp add: option.map_comp comp_def split_def)
  next
    case UMOV
    with "3.prems" obtain r0 where
      p: "undo_pass (undo_mov h v u) rest = Some (r0, h1)" and r1: "r1 = u # flip v # r0"
      by auto
    from "3.IH"(3)[OF UMOV p] UMOV r1 show ?thesis
      by (simp add: option.map_comp comp_def split_def)
  next
    case VMOV
    with "3.prems" obtain r0 where
      p: "undo_pass (undo_mov h v u) rest = Some (r0, h1)" and r1: "r1 = u # flip v # r0"
      by auto
    from "3.IH"(4)[OF VMOV p] VMOV r1 show ?thesis
      by (simp add: option.map_comp comp_def split_def)
  qed
qed

lemma frame_ok_append:
  "frame_ok h L1 \<Longrightarrow> undo_pass h L1 = Some (r1, h1) \<Longrightarrow> frame_ok h1 L2 \<Longrightarrow> frame_ok h (L1 @ L2)"
proof (induction h L1 arbitrary: r1 rule: frame_ok.induct)
  case (1 h)
  then show ?case by simp
next
  case (2 h u)
  show ?case
  proof (cases L2)
    case Nil
    with 2 show ?thesis by simp
  next
    case (Cons w L2')
    with 2 show ?thesis by (cases "type u") auto
  qed
next
  case (3 h u v rest)
  show ?case
  proof (cases "type u")
    case UADD
    with "3.prems" obtain r0 where
      p: "undo_pass (undo_add h u) (v # rest) = Some (r0, h1)" and f: "frame_ok (undo_add h u) (v # rest)"
        and a: "add_ok h u"
      by auto
    from "3.IH"(1)[OF UADD f p "3.prems"(3)] UADD a show ?thesis by simp
  next
    case UDEL
    with "3.prems" obtain r0 where
      p: "undo_pass (undo_del h u) (v # rest) = Some (r0, h1)" and f: "frame_ok (undo_del h u) (v # rest)"
        and a: "del_ok h u"
      by auto
    from "3.IH"(2)[OF UDEL f p "3.prems"(3)] UDEL a show ?thesis by simp
  next
    case UMOV
    with "3.prems" obtain r0 where
      p: "undo_pass (undo_mov h v u) rest = Some (r0, h1)" and f: "frame_ok (undo_mov h v u) rest"
        and a: "mov_ok h v u"
      by auto
    from "3.IH"(3)[OF UMOV f p "3.prems"(3)] UMOV a show ?thesis by simp
  next
    case VMOV
    with "3.prems" obtain r0 where
      p: "undo_pass (undo_mov h v u) rest = Some (r0, h1)" and f: "frame_ok (undo_mov h v u) rest"
        and a: "mov_ok h v u"
      by auto
    from "3.IH"(4)[OF VMOV f p "3.prems"(3)] VMOV a show ?thesis by simp
  qed
qed

lemma xor1_mov: "is_mov u \<Longrightarrow> type (flip u) = UMOV \<or> type (flip u) = VMOV"
  by (auto simp: is_mov_def)

lemma undo_pass_twice:
  "frame_ok h L \<Longrightarrow>
   \<exists>r h' r'. undo_pass h L = Some (r, h') \<and> length r = length L \<and>
      frame_ok h' (rev r) \<and> undo_pass h' (rev r) = Some (r', h) \<and>
      map head r = map head L \<and> map tail r = map tail L"
proof (induction h L rule: frame_ok.induct)
  case (1 h)
  then show ?case by simp
next
  case (2 h u)
  show ?case
  proof (cases "type u")
    case UADD
    with 2 have ok: "add_ok h u" by simp
    from add_then_del[OF ok] UADD show ?thesis by (simp add: undo_flip)
  next
    case UDEL
    with 2 have ok: "del_ok h u" by simp
    from del_then_add[OF ok] UDEL show ?thesis by (simp add: undo_flip)
  next
    case UMOV with 2 show ?thesis by simp
  next
    case VMOV with 2 show ?thesis by simp
  qed
next
  case (3 h u v rest)
  show ?case
  proof (cases "type u")
    case UADD
    with "3.prems" have ok: "add_ok h u" and f: "frame_ok (undo_add h u) (v # rest)" by simp_all
    from "3.IH"(1)[OF UADD f] obtain r0 h0 r0' where
      p: "undo_pass (undo_add h u) (v # rest) = Some (r0, h0)" and l: "length r0 = length (v # rest)" and
      f0: "frame_ok h0 (rev r0)" and p0: "undo_pass h0 (rev r0) = Some (r0', undo_add h u)" and
      m: "map head r0 = map head (v # rest)" "map tail r0 = map tail (v # rest)"
      by blast
    have last_ok: "frame_ok (undo_add h u) [flip u]"
      using add_then_del(2)[OF ok] UADD by (simp add: undo_flip)
    have last_pass: "undo_pass (undo_add h u) [flip u] = Some ([flip (flip u)], h)"
      using add_then_del(1)[OF ok] UADD by (simp add: undo_flip)
    have "undo_pass h (u # v # rest) = Some (flip u # r0, h0)" using UADD p by simp
    moreover have "frame_ok h0 (rev (flip u # r0))"
      using frame_ok_append[OF f0 p0 last_ok] by simp
    moreover have "undo_pass h0 (rev (flip u # r0)) = Some (r0' @ [flip (flip u)], h)"
      using undo_pass_append[OF p0, of "[flip u]"] last_pass by simp
    ultimately show ?thesis using l m by simp
  next
    case UDEL
    with "3.prems" have ok: "del_ok h u" and f: "frame_ok (undo_del h u) (v # rest)" by simp_all
    from "3.IH"(2)[OF UDEL f] obtain r0 h0 r0' where
      p: "undo_pass (undo_del h u) (v # rest) = Some (r0, h0)" and l: "length r0 = length (v # rest)" and
      f0: "frame_ok h0 (rev r0)" and p0: "undo_pass h0 (rev r0) = Some (r0', undo_del h u)" and
      m: "map head r0 = map head (v # rest)" "map tail r0 = map tail (v # rest)"
      by blast
    have last_ok: "frame_ok (undo_del h u) [flip u]"
      using del_then_add(2)[OF ok] UDEL by (simp add: undo_flip)
    have last_pass: "undo_pass (undo_del h u) [flip u] = Some ([flip (flip u)], h)"
      using del_then_add(1)[OF ok] UDEL by (simp add: undo_flip)
    have "undo_pass h (u # v # rest) = Some (flip u # r0, h0)" using UDEL p by simp
    moreover have "frame_ok h0 (rev (flip u # r0))"
      using frame_ok_append[OF f0 p0 last_ok] by simp
    moreover have "undo_pass h0 (rev (flip u # r0)) = Some (r0' @ [flip (flip u)], h)"
      using undo_pass_append[OF p0, of "[flip u]"] last_pass by simp
    ultimately show ?thesis using l m by simp
  next
    case UMOV
    with "3.prems" have ok: "mov_ok h v u" and f: "frame_ok (undo_mov h v u) rest" by simp_all
    from "3.IH"(3)[OF UMOV f] obtain r0 h0 r0' where
      p: "undo_pass (undo_mov h v u) rest = Some (r0, h0)" and l: "length r0 = length rest" and
      f0: "frame_ok h0 (rev r0)" and p0: "undo_pass h0 (rev r0) = Some (r0', undo_mov h v u)" and
      m: "map head r0 = map head rest" "map tail r0 = map tail rest"
      by blast
    from ok have mv: "is_mov v" by (simp add: mov_ok_def)
    have tv: "type (flip v) = UMOV \<or> type (flip v) = VMOV" by (rule xor1_mov[OF mv])
    have last_ok: "frame_ok (undo_mov h v u) [flip v, u]"
      using mov_then_mov(2)[OF ok] tv by (auto simp: undo_flip)
    have last_pass: "undo_pass (undo_mov h v u) [flip v, u] = Some ([flip v, flip u], h)"
      using mov_then_mov(1)[OF ok] tv by (auto simp: undo_flip)
    have "undo_pass h (u # v # rest) = Some (u # flip v # r0, h0)" using UMOV p by simp
    moreover have "frame_ok h0 (rev (u # flip v # r0))"
      using frame_ok_append[OF f0 p0 last_ok] by simp
    moreover have "undo_pass h0 (rev (u # flip v # r0)) = Some (r0' @ [flip v, flip u], h)"
      using undo_pass_append[OF p0, of "[flip v, u]"] last_pass by simp
    ultimately show ?thesis using l m by simp
  next
    case VMOV
    with "3.prems" have ok: "mov_ok h v u" and f: "frame_ok (undo_mov h v u) rest" by simp_all
    from "3.IH"(4)[OF VMOV f] obtain r0 h0 r0' where
      p: "undo_pass (undo_mov h v u) rest = Some (r0, h0)" and l: "length r0 = length rest" and
      f0: "frame_ok h0 (rev r0)" and p0: "undo_pass h0 (rev r0) = Some (r0', undo_mov h v u)" and
      m: "map head r0 = map head rest" "map tail r0 = map tail rest"
      by blast
    from ok have mv: "is_mov v" by (simp add: mov_ok_def)
    have tv: "type (flip v) = UMOV \<or> type (flip v) = VMOV" by (rule xor1_mov[OF mv])
    have last_ok: "frame_ok (undo_mov h v u) [flip v, u]"
      using mov_then_mov(2)[OF ok] tv by (auto simp: undo_flip)
    have last_pass: "undo_pass (undo_mov h v u) [flip v, u] = Some ([flip v, flip u], h)"
      using mov_then_mov(1)[OF ok] tv by (auto simp: undo_flip)
    have "undo_pass h (u # v # rest) = Some (u # flip v # r0, h0)" using VMOV p by simp
    moreover have "frame_ok h0 (rev (u # flip v # r0))"
      using frame_ok_append[OF f0 p0 last_ok] by simp
    moreover have "undo_pass h0 (rev (u # flip v # r0)) = Some (r0' @ [flip v, flip u], h)"
      using undo_pass_append[OF p0, of "[flip v, u]"] last_pass by simp
    ultimately show ?thesis using l m by simp
  qed
qed

lemma search_line_node_fields:
  "\<exists>lp oa. search_line_node a s = (lp, s\<lparr>lp_cache := lp, o_addr := oa\<rparr>)"
  by (auto simp: search_line_node_def Let_def)

lemma undo_run:
  assumes ne: "ustack s \<noteq> []" and u: "0 \<le> u_current_addr s" "0 \<le> u_last_addr s"
    and p: "undo_pass (heap s) (rev (ustack s)) = Some (r, h')"
  shows "\<exists>lp oa. undo False s =
           Some (True, s\<lparr>lp_cache := lp, o_addr := oa, heap := h', ustack := r,
                          current_addr := u_current_addr s, u_current_addr := current_addr s,
                          last_addr := u_last_addr s, u_last_addr := last_addr s,
                          modified := u_modified s, u_modified := modified s\<rparr>)"
proof -
  from search_line_node_fields[of 0 s] obtain lp oa where
    e: "search_line_node 0 s = (lp, s\<lparr>lp_cache := lp, o_addr := oa\<rparr>)" by blast
  have len: "\<not> int (length (ustack s)) \<le> 0" using ne by simp
  have lp: "undo_loop (int (length (ustack s)) - 1) (ustack s) (heap s) = Some (rev r, h')"
    using undo_loop_pass[of "rev (ustack s)" "[]" "heap s"] p by simp
  show ?thesis
    using len u e lp
    by (intro exI[of _ lp] exI[of _ oa]) (simp add: undo_def Let_def reverse_ustack_rev)
qed

text \<open>
  Claim C1. In a state with a well-formed undo frame (the stack is not empty, the snapshots
  are recorded, and each atom fits the heap when \<open>undo\<close> reaches it), \<open>undo\<close> outside a
  global command succeeds twice in a row. The first call installs the snapshot; after the
  second, \<open>current_addr\<close>, \<open>last_addr\<close>, \<open>modified\<close> and every node of the heap, and with
  them the line sequence, are as before the first.
\<close>

theorem undo_involution:
  assumes ok: "undo_frame_ok s" and ne: "ustack s \<noteq> []"
    and u: "0 \<le> u_current_addr s" "0 \<le> u_last_addr s"
    and c: "0 \<le> current_addr s" "0 \<le> last_addr s"
  shows "\<exists>s1 s2. undo False s = Some (True, s1) \<and> undo False s1 = Some (True, s2) \<and>
           current_addr s1 = u_current_addr s \<and> last_addr s1 = u_last_addr s \<and>
           modified s1 = u_modified s \<and>
           current_addr s2 = current_addr s \<and> last_addr s2 = last_addr s \<and>
           modified s2 = modified s \<and> heap s2 = heap s \<and>
           buffer_lines s2 = buffer_lines s"
proof -
  from ok have f: "frame_ok (heap s) (rev (ustack s))" by (simp add: undo_frame_ok_def)
  from undo_pass_twice[OF f] obtain r h' r' where
    p1: "undo_pass (heap s) (rev (ustack s)) = Some (r, h')" and
    l: "length r = length (rev (ustack s))" and
    p2: "undo_pass h' (rev r) = Some (r', heap s)"
    by blast
  from undo_run[OF ne u p1] obtain lp oa where
    u1: "undo False s =
           Some (True, s\<lparr>lp_cache := lp, o_addr := oa, heap := h', ustack := r,
                          current_addr := u_current_addr s, u_current_addr := current_addr s,
                          last_addr := u_last_addr s, u_last_addr := last_addr s,
                          modified := u_modified s, u_modified := modified s\<rparr>)"
    by blast
  define s1 where "s1 = s\<lparr>lp_cache := lp, o_addr := oa, heap := h', ustack := r,
                          current_addr := u_current_addr s, u_current_addr := current_addr s,
                          last_addr := u_last_addr s, u_last_addr := last_addr s,
                          modified := u_modified s, u_modified := modified s\<rparr>"
  have ne1: "ustack s1 \<noteq> []" using ne l by (auto simp: s1_def)
  have uc1: "0 \<le> u_current_addr s1" "0 \<le> u_last_addr s1" using c by (simp_all add: s1_def)
  have p2': "undo_pass (heap s1) (rev (ustack s1)) = Some (r', heap s)" using p2 by (simp add: s1_def)
  from undo_run[OF ne1 uc1 p2'] obtain lp2 oa2 where
    u2: "undo False s1 =
           Some (True, s1\<lparr>lp_cache := lp2, o_addr := oa2, heap := heap s, ustack := r',
                          current_addr := u_current_addr s1, u_current_addr := current_addr s1,
                          last_addr := u_last_addr s1, u_last_addr := last_addr s1,
                          modified := u_modified s1, u_modified := modified s1\<rparr>)"
    by blast
  define s2 where "s2 = s1\<lparr>lp_cache := lp2, o_addr := oa2, heap := heap s, ustack := r',
                          current_addr := u_current_addr s1, u_current_addr := current_addr s1,
                          last_addr := u_last_addr s1, u_last_addr := last_addr s1,
                          modified := u_modified s1, u_modified := modified s1\<rparr>"
  have a: "undo False s = Some (True, s1)" using u1 by (simp add: s1_def)
  have b: "undo False s1 = Some (True, s2)" using u2 by (simp add: s2_def)
  have f1: "current_addr s1 = u_current_addr s" "last_addr s1 = u_last_addr s"
    "modified s1 = u_modified s" by (simp_all add: s1_def)
  have f2: "current_addr s2 = current_addr s" "last_addr s2 = last_addr s"
    "modified s2 = modified s" "heap s2 = heap s" by (simp_all add: s2_def s1_def)
  have bl: "buffer_lines s2 = buffer_lines s" by (simp add: buffer_lines_def f2)
  show ?thesis using a b f1 f2 bl by blast
qed

lemma ring_mid_back:
  assumes r: "ring h x (A @ R)"
  shows "q_back (h (hd (R @ [x]))) = last (x # A)"
proof -
  obtain e R' where eb: "R @ [x] = e # R'" by (cases R) auto
  from r have "dpath h x ((A @ R) @ [x]) x" by (simp only: ring_def)
  then have "dpath h x (A @ e # R') x" by (simp add: eb)
  then obtain m where m: "dpath h x A m" "dpath h m (e # R') x" unfolding dpath_append by blast
  from dpath_last[OF m(1)] m(2) show ?thesis by (simp add: eb)
qed

lemma delete_lines_frame_ok:
  assumes inv: "buffer_inv s ns" and yi: "yank_inv s ns ys"
    and rng: "1 \<le> from" "from \<le> to" "to \<le> last_addr s"
    and emp: "ustack s = []"
    and res: "delete_lines from to isglobal s = Some (True, s')"
  shows "undo_frame_ok s' \<and> ustack s' \<noteq> [] \<and>
         u_current_addr s' = u_current_addr s \<and> u_last_addr s' = u_last_addr s \<and>
         u_modified s' = u_modified s"
proof -
  define A where "A = take (nat (from - 1)) ns"
  define D where "D = take (nat (to - from + 1)) (drop (nat (from - 1)) ns)"
  define B where "B = drop (nat to) ns"
  from inv have l: "last_addr s = int (length ns)" and r: "ring (heap s) buffer_head ns"
    by (simp_all add: buffer_inv_def)
  have lA: "length A = nat (from - 1)" using rng l by (simp add: A_def)
  have lD: "length D = nat (to - from + 1)" using rng l by (simp add: D_def)
  have "drop (nat (to - from + 1)) (drop (nat (from - 1)) ns) = B"
    using rng by (simp add: B_def nat_add_distrib[symmetric])
  then have ns: "ns = A @ D @ B"
    unfolding A_def D_def by (metis append_take_drop_id)
  have Dne: "D \<noteq> []" using lD rng by auto
  have f: "from = int (length A) + 1" using lA rng by simp
  have t: "to = int (length A + length D)" using lA lD rng by simp
  from delete_lines_core[OF inv yi ns Dne f t, of isglobal] res have
    inv': "buffer_inv s' (A @ B)" and
    us: "ustack s' = ustack s @ [\<lparr>type = UDEL, head = hd D, tail = last D\<rparr>]" and
    ag: "\<forall>a \<in> set D. heap s' a = heap s a" and
    uf: "u_current_addr s' = u_current_addr s" "u_last_addr s' = u_last_addr s"
        "u_modified s' = u_modified s"
    by blast+
  from inv' have r': "ring (heap s') buffer_head (A @ B)" by (simp add: buffer_inv_def)
  define p where "p = last (buffer_head # A)"
  define n where "n = hd (B @ [buffer_head])"
  have hD: "hd D \<in> set D" "last D \<in> set D" using Dne by simp_all
  have r0: "ring (heap s) buffer_head (A @ D @ B)" using r by (simp add: ns)
  have r1: "ring (heap s) buffer_head ((A @ D) @ B)" using r by (simp add: ns)
  have dist: "distinct (buffer_head # A @ D @ B)" using r0 by (simp add: ring_def)
  have bH: "q_back (heap s' (hd D)) = p"
    using ring_mid_back[OF r0] ag hD Dne by (simp add: p_def hd_append)
  have fT: "q_forw (heap s' (last D)) = n"
    using ring_mid_forw[OF r1] ag hD Dne by (simp add: n_def)
  have fp: "q_forw (heap s' p) = n" using ring_mid_forw[OF r'] by (simp add: p_def n_def)
  have bn: "q_back (heap s' n) = p" using ring_mid_back[OF r'] by (simp add: p_def n_def)
  have pin: "p \<in> set (buffer_head # A)" unfolding p_def by (rule last_in)
  have nin: "n \<in> set (buffer_head # B)" unfolding n_def by (cases B) auto
  have ne1: "last D \<noteq> p" using hD(2) pin dist by auto
  have ne2: "hd D \<noteq> n" using hD(1) nin dist by auto
  have "del_ok (heap s') \<lparr>type = UDEL, head = hd D, tail = last D\<rparr>"
    by (simp add: del_ok_def bH fT fp bn ne1 ne2)
  then have "undo_frame_ok s'" by (simp add: undo_frame_ok_def us emp)
  then show ?thesis using us uf by simp
qed

theorem undo_involution_witness:
  "undo_frame_ok after_2d \<and> ustack after_2d \<noteq> [] \<and>
   0 \<le> u_current_addr after_2d \<and> 0 \<le> u_last_addr after_2d \<and>
   0 \<le> current_addr after_2d \<and> 0 \<le> last_addr after_2d \<and>
   (\<exists>s1 s2. undo False after_2d = Some (True, s1) \<and> undo False s1 = Some (True, s2) \<and>
      current_addr s1 = 3 \<and> last_addr s1 = 3 \<and> \<not> modified s1 \<and>
      current_addr s2 = 2 \<and> last_addr s2 = 2 \<and> modified s2 \<and>
      heap s2 = heap after_2d \<and> buffer_lines s2 = [(2, 0, 1), (4, 2, 1)])"
proof -
  have ok: "undo_frame_ok after_2d"
    by (simp add: undo_frame_ok_def after_2d_def three_lines_def init_state_def node_def del_ok_def)
  have ne: "ustack after_2d \<noteq> []" by (simp add: after_2d_def)
  have u: "0 \<le> u_current_addr after_2d" "0 \<le> u_last_addr after_2d"
    by (simp_all add: after_2d_def three_lines_def)
  have c: "0 \<le> current_addr after_2d" "0 \<le> last_addr after_2d"
    by (simp_all add: after_2d_def)
  have bl: "buffer_lines after_2d = [(2, 0, 1), (4, 2, 1)]"
    by (simp add: buffer_lines_def after_2d_def three_lines_def init_state_def node_def
          buffer_head_def numeral_2_eq_2 upt_rec)
  have v: "u_current_addr after_2d = 3" "u_last_addr after_2d = 3" "\<not> u_modified after_2d"
    "current_addr after_2d = 2" "last_addr after_2d = 2" "modified after_2d"
    by (simp_all add: after_2d_def three_lines_def init_state_def)
  from undo_involution[OF ok ne u c] ok ne u c v show ?thesis
    unfolding bl by auto
qed

section \<open>Properties of writing lines\<close>

lemma same_buffer_refl: "same_buffer s s"
  by (simp add: same_buffer_def)

lemma same_buffer_trans: "same_buffer s s1 \<Longrightarrow> same_buffer s1 s2 \<Longrightarrow> same_buffer s s2"
  by (simp add: same_buffer_def)

lemma written_line_same: "same_buffer s s' \<Longrightarrow> written_line s' ns a = written_line s ns a"
  by (simp add: same_buffer_def written_line_def node_text_def)

lemma alloc_block_fields:
  "alloc_block s = (ok, s1) \<Longrightarrow> s1 = s\<lparr>alloc_oracle := alloc_oracle s1\<rparr>"
  by (auto simp: alloc_block_def split: list.splits)

lemma resize_static_fields:
  assumes "resize_static sz m s = (r, s1)"
  shows "s1 = s\<lparr>alloc_oracle := alloc_oracle s1, errmsg := errmsg s1\<rparr>"
proof -
  obtain ok s0 where a: "(if sz < m \<and> \<not> m \<ge> INT_MAX then alloc_block s else (True, s)) = (ok, s0)"
    by (cases "if sz < m \<and> \<not> m \<ge> INT_MAX then alloc_block s else (True, s)")
  then have s0: "s0 = s\<lparr>alloc_oracle := alloc_oracle s0\<rparr>"
    using alloc_block_fields[of s ok s0] by (auto split: if_splits)
  from assms a have "s1 = s0 \<or> (\<exists>msg. s1 = set_error_msg msg s0)"
    by (auto simp: resize_static_def split: sum.splits)
  then show ?thesis
  proof
    assume "s1 = s0" then show ?thesis using s0 by (metis (no_types) ed_state.surjective ed_state.update_convs(3,26) ed_state.select_convs(26))
  next
    assume "\<exists>msg. s1 = set_error_msg msg s0"
    then obtain msg where "s1 = set_error_msg msg s0" by blast
    then have "s1 = s\<lparr>alloc_oracle := alloc_oracle s0, errmsg := take 79 msg\<rparr>"
      by (subst (asm) s0) (simp add: set_error_msg_def)
    then show ?thesis by simp
  qed
qed

lemma after_seek_fields:
  "heap (after_seek lp s) = heap s" "last_addr (after_seek lp s) = last_addr s"
  "isbinary (after_seek lp s) = isbinary s" "unterminated_line (after_seek lp s) = unterminated_line s"
  "sfile (after_seek lp s) = sfile s" "o_addr (after_seek lp s) = o_addr s"
  "lp_cache (after_seek lp s) = lp_cache s" "sfpos (after_seek lp s) = pos (heap s lp)"
  "alloc_oracle (after_seek lp s) = alloc_oracle s" "sbuf_bufsz (after_seek lp s) = sbuf_bufsz s"
  by (simp_all add: after_seek_def)

lemma get_sbuf_line_eq:
  assumes "lp \<noteq> buffer_head"
  shows "get_sbuf_line lp s =
     (if sfpos s \<noteq> pos (heap s lp) \<and> pos (heap s lp) < 0
      then (None, set_error_msg ''Cannot seek temp file'' (after_seek lp s))
      else (case resize_static (sbuf_bufsz s) (word_of_int (len (heap s lp) + 1)) (after_seek lp s) of
              (None, s3) \<Rightarrow> (None, s3)
            | (Some c, s3) \<Rightarrow>
                if len (heap s lp) < 0 \<or> sfpos s3 < 0 \<or>
                   int (length (take (nat (len (heap s lp))) (drop (nat (sfpos s3)) (sfile s3)))) \<noteq> len (heap s lp)
                then (None, set_error_msg ''Cannot read temp file'' (s3\<lparr>sbuf_bufsz := c\<rparr>))
                else (Some (take (nat (len (heap s lp))) (drop (nat (sfpos s3)) (sfile s3))),
                      s3\<lparr>sbuf_bufsz := c, sfpos := sfpos s3 + len (heap s lp)\<rparr>)))"
  using assms
  by (auto simp add: get_sbuf_line_def Let_def after_seek_def simp del: of_int_add
           split: prod.splits option.splits)

lemma get_sbuf_line_same:
  assumes g: "get_sbuf_line lp s = (r, s1)"
  shows "same_buffer s s1 \<and> o_addr s1 = o_addr s \<and> lp_cache s1 = lp_cache s \<and>
         (\<forall>p. r = Some p \<longrightarrow> p = node_text s lp \<and> lp \<noteq> buffer_head)"
proof (cases "lp = buffer_head")
  case True
  with g show ?thesis by (auto simp: get_sbuf_line_def same_buffer_def)
next
  case False
  note eq = get_sbuf_line_eq[OF False, of s]
  show ?thesis
  proof (cases "sfpos s \<noteq> pos (heap s lp) \<and> pos (heap s lp) < 0")
    case True
    with g eq have "r = None" "s1 = set_error_msg ''Cannot seek temp file'' (after_seek lp s)"
      by auto
    then show ?thesis by (simp add: same_buffer_def set_error_msg_def after_seek_fields)
  next
    case nf: False
    obtain r3 s3 where rs: "resize_static (sbuf_bufsz s) (word_of_int (len (heap s lp) + 1)) (after_seek lp s) = (r3, s3)"
      by (cases "resize_static (sbuf_bufsz s) (word_of_int (len (heap s lp) + 1)) (after_seek lp s)")
    from resize_static_fields[OF rs]
    have e3: "s3 = (after_seek lp s)\<lparr>alloc_oracle := alloc_oracle s3, errmsg := errmsg s3\<rparr>" .
    have f3: "heap s3 = heap s" "last_addr s3 = last_addr s" "isbinary s3 = isbinary s"
      "unterminated_line s3 = unterminated_line s" "sfile s3 = sfile s" "o_addr s3 = o_addr s"
      "lp_cache s3 = lp_cache s" "sfpos s3 = pos (heap s lp)"
      by (subst e3, simp add: after_seek_fields)+
    show ?thesis
    proof (cases r3)
      case None
      with g eq nf rs have "r = None" "s1 = s3" by (simp_all del: of_int_add)
      then show ?thesis using f3 by (simp add: same_buffer_def)
    next
      case (Some c)
      show ?thesis
      proof (cases "len (heap s lp) < 0 \<or> sfpos s3 < 0 \<or>
                   int (length (take (nat (len (heap s lp))) (drop (nat (sfpos s3)) (sfile s3)))) \<noteq> len (heap s lp)")
        case True
        with g eq nf rs Some have "r = None"
          "s1 = set_error_msg ''Cannot read temp file'' (s3\<lparr>sbuf_bufsz := c\<rparr>)"
          by (simp_all del: of_int_add)
        then show ?thesis using f3 by (simp add: same_buffer_def set_error_msg_def)
      next
        case False
        with g eq nf rs Some have
          "r = Some (take (nat (len (heap s lp))) (drop (nat (sfpos s3)) (sfile s3)))"
          "s1 = s3\<lparr>sbuf_bufsz := c, sfpos := sfpos s3 + len (heap s lp)\<rparr>"
          by (simp_all del: of_int_add)
        then show ?thesis using f3 \<open>lp \<noteq> buffer_head\<close> by (simp add: same_buffer_def node_text_def)
      qed
    qed
  qed
qed

lemma resize_static_ok:
  assumes "alloc_oracle s = []" "0 \<le> n" "n < int_max"
  shows "\<exists>c. resize_static sz (word_of_int n) s = (Some c, s)"
proof -
  have nl: "\<not> INT_MAX \<le> (word_of_int n :: 32 word)"
    using assms by (intro word_of_int_less_INT_MAX)
  have ab: "alloc_block s = (True, s)" using assms(1) by (simp add: alloc_block_def)
  show ?thesis
    using nl ab by (auto simp: resize_static_def resize_buffer_def Let_def)
qed

lemma get_sbuf_line_ok:
  assumes "lp \<noteq> buffer_head" "readable s lp" "alloc_oracle s = []"
  shows "\<exists>s1. get_sbuf_line lp s = (Some (node_text s lp), s1) \<and> alloc_oracle s1 = []"
proof -
  from assms(2) have rd: "0 \<le> pos (heap s lp)" "0 \<le> len (heap s lp)"
    "pos (heap s lp) + len (heap s lp) \<le> int (length (sfile s))" "len (heap s lp) + 1 < int_max"
    by (simp_all add: readable_def)
  have ao: "alloc_oracle (after_seek lp s) = []" using assms(3) by (simp add: after_seek_fields)
  have n1: "0 \<le> len (heap s lp) + 1" using rd by simp
  from resize_static_ok[OF ao n1 rd(4), of "sbuf_bufsz s"] obtain c where
    rs: "resize_static (sbuf_bufsz s) (word_of_int (len (heap s lp) + 1)) (after_seek lp s) =
           (Some c, after_seek lp s)"
    by blast
  have lg: "int (length (take (nat (len (heap s lp))) (drop (nat (pos (heap s lp))) (sfile s)))) = len (heap s lp)"
    using rd by simp
  have "get_sbuf_line lp s =
          (Some (node_text s lp),
           (after_seek lp s)\<lparr>sbuf_bufsz := c, sfpos := pos (heap s lp) + len (heap s lp)\<rparr>)"
    unfolding get_sbuf_line_eq[OF assms(1)] rs using rd(1,2) lg
    by (simp add: after_seek_fields node_text_def)
  then show ?thesis using ao by auto
qed

lemma readable_same: "same_buffer s s' \<Longrightarrow> readable s' lp = readable s lp"
  by (simp add: same_buffer_def readable_def)

lemma node_text_same: "same_buffer s s' \<Longrightarrow> node_text s' lp = node_text s lp"
  by (simp add: same_buffer_def node_text_def)

lemma put_bytes_written:
  "put_bytes bs fp = (True, fp1) \<Longrightarrow> written fp1 = written fp @ bs"
proof (induction bs arbitrary: fp)
  case Nil
  then show ?case by simp
next
  case (Cons c cs)
  from Cons.prems obtain fp0 where f: "fputc c fp = Some fp0" and p: "put_bytes cs fp0 = (True, fp1)"
    by (auto split: option.splits)
  from f have "written fp0 = written fp @ [c]"
    by (auto simp: fputc_def split: option.splits nat.splits)
  with Cons.IH[OF p] show ?case by simp
qed

lemma put_bytes_ok:
  "room fp = None \<Longrightarrow> \<exists>fp1. put_bytes bs fp = (True, fp1) \<and> room fp1 = None"
proof (induction bs arbitrary: fp)
  case Nil
  then show ?case by simp
next
  case (Cons c cs)
  have f: "fputc c fp = Some (fp\<lparr>written := written fp @ [c]\<rparr>)"
    using Cons.prems by (simp add: fputc_def)
  have "room (fp\<lparr>written := written fp @ [c]\<rparr>) = None" using Cons.prems by simp
  from Cons.IH[OF this] show ?case using f by simp
qed

lemma unterminated_last_line_spec:
  assumes inv: "buffer_inv s ns" and u: "unterminated_last_line s = (u, s')"
  shows "same_buffer s s' \<and> buffer_inv s' ns \<and> alloc_oracle s' = alloc_oracle s \<and>
         u = (unterminated_line s = Some ((buffer_head # ns) ! nat (last_addr s)))"
proof (cases "unterminated_line s = None")
  case True
  with u inv show ?thesis by (auto simp: unterminated_last_line_def same_buffer_def)
next
  case False
  have l: "0 \<le> last_addr s" using inv by (simp add: buffer_inv_def)
  note sl = search_line_node_ring[OF inv l order_refl]
  from u False have s': "s' = s\<lparr>lp_cache := (buffer_head # ns) ! nat (last_addr s), o_addr := last_addr s\<rparr>"
    and uu: "u = (unterminated_line s = Some ((buffer_head # ns) ! nat (last_addr s)))"
    by (auto simp: unterminated_last_line_def sl)
  have "buffer_inv s' ns" using inv l unfolding s' by (simp add: buffer_inv_def)
  then show ?thesis using uu by (simp add: s' same_buffer_def)
qed

lemma write_step:
  assumes inv: "buffer_inv s ns" and f: "1 \<le> from" "from \<le> last_addr s"
    and lp: "lp = (buffer_head # ns) ! nat from"
    and g: "get_sbuf_line lp s = (Some p, s1)"
    and d: "(if from \<noteq> last_addr s1 \<or> \<not> isbinary s1 then (True, s1)
             else (let (u, s') = unterminated_last_line s1 in (\<not> u, s'))) = (nl, s2)"
  shows "same_buffer s s2 \<and> buffer_inv s2 ns \<and> alloc_oracle s2 = alloc_oracle s1 \<and>
         (if nl then p @ [10] else p) = written_line s ns from \<and>
         (from < last_addr s \<longrightarrow> q_forw (heap s2 lp) = (buffer_head # ns) ! nat (from + 1))"
proof -
  from get_sbuf_line_same[OF g] have sb1: "same_buffer s s1" and o1: "o_addr s1 = o_addr s"
    and c1: "lp_cache s1 = lp_cache s" and p: "p = node_text s lp" by auto
  have inv1: "buffer_inv s1 ns"
    using inv sb1 o1 c1 buffer_inv_cong[of s1 s ns] by (simp add: same_buffer_def)
  have fl: "last_addr s1 = last_addr s" "isbinary s1 = isbinary s"
    "unterminated_line s1 = unterminated_line s"
    using sb1 by (simp_all add: same_buffer_def)
  have main: "same_buffer s s2 \<and> buffer_inv s2 ns \<and> alloc_oracle s2 = alloc_oracle s1 \<and>
         (if nl then p @ [10] else p) = written_line s ns from"
  proof (cases "from \<noteq> last_addr s1 \<or> \<not> isbinary s1")
    case True
    with d have "nl" "s2 = s1" by auto
    then show ?thesis using True sb1 inv1 p lp fl by (auto simp: written_line_def)
  next
    case False
    obtain u s' where ul: "unterminated_last_line s1 = (u, s')"
      by (cases "unterminated_last_line s1")
    from d False ul have nl: "nl = (\<not> u)" and s2: "s2 = s'" by auto
    from unterminated_last_line_spec[OF inv1 ul]
    have a: "same_buffer s1 s'" "buffer_inv s' ns" "alloc_oracle s' = alloc_oracle s1"
      "u = (unterminated_line s1 = Some ((buffer_head # ns) ! nat (last_addr s1)))" by auto
    have "(if nl then p @ [10] else p) = written_line s ns from"
      using False nl a(4) p lp fl by (auto simp: written_line_def)
    then show ?thesis using a same_buffer_trans[OF sb1 a(1)] s2 by simp
  qed
  have "from < last_addr s \<longrightarrow> q_forw (heap s2 lp) = (buffer_head # ns) ! nat (from + 1)"
  proof
    assume lt: "from < last_addr s"
    from inv have r: "ring (heap s) buffer_head ns" and l: "last_addr s = int (length ns)"
      by (simp_all add: buffer_inv_def)
    have i: "nat from < length ns" using lt l f by simp
    have "q_forw (heap s lp) = ns ! nat from" unfolding lp by (rule ring_forw_nth[OF r i])
    moreover have "nat (from + 1) = Suc (nat from)" using f by simp
    moreover have "heap s2 = heap s" using main by (simp add: same_buffer_def)
    ultimately show "q_forw (heap s2 lp) = (buffer_head # ns) ! nat (from + 1)" by simp
  qed
  with main show ?thesis by simp
qed

lemma upto_first: "from \<le> to \<Longrightarrow> [from..to] = from # [from + 1..to]"
  by (simp add: upto.simps)

lemma write_loop_spec:
  assumes "buffer_inv s ns" "1 \<le> from" "to \<le> last_addr s"
    "from \<le> to \<longrightarrow> lp = (buffer_head # ns) ! nat from"
    "write_loop from to lp sz fp s = (r, fp', s')"
  shows "same_buffer s s' \<and>
         (\<forall>size. r = Some size \<longrightarrow>
            written fp' = written fp @ concat (map (written_line s ns) [from..to]) \<and>
            size = sz + int (length (concat (map (written_line s ns) [from..to]))))"
  using assms
proof (induction "from" to lp sz fp s rule: write_loop.induct)
  case (1 "from" to lp sz fp s)
  show ?case
  proof (cases "from \<le> to")
    case False
    with "1.prems"(5) have "r = Some sz" "fp' = fp" "s' = s"
      by (simp_all add: write_loop.simps[of "from" to])
    then show ?thesis using False by (simp add: same_buffer_refl)
  next
    case True
    then have c: "from \<noteq> 0 \<and> from \<le> to" using "1.prems"(2) by simp
    have lp: "lp = (buffer_head # ns) ! nat from" using "1.prems"(4) True by simp
    have fl: "from \<le> last_addr s" using True "1.prems"(3) by simp
    obtain r1 s1 where g: "get_sbuf_line lp s = (r1, s1)" by (cases "get_sbuf_line lp s")
    show ?thesis
    proof (cases r1)
      case None
      with "1.prems"(5) c g have "r = None" "s' = s1"
        by (simp_all add: write_loop.simps[of "from" to])
      then show ?thesis using get_sbuf_line_same[OF g] by simp
    next
      case (Some p)
      note g' = g[unfolded Some]
      obtain nl s2 where d: "(if from \<noteq> last_addr s1 \<or> \<not> isbinary s1 then (True, s1)
             else (let (u, s') = unterminated_last_line s1 in (\<not> u, s'))) = (nl, s2)"
        by (cases "(if from \<noteq> last_addr s1 \<or> \<not> isbinary s1 then (True, s1)
             else (let (u, s') = unterminated_last_line s1 in (\<not> u, s')))")
      from write_step[OF "1.prems"(1,2) fl lp g' d]
      have sb2: "same_buffer s s2" and inv2: "buffer_inv s2 ns"
        and bt: "(if nl then p @ [10] else p) = written_line s ns from"
        and nx: "from < last_addr s \<longrightarrow> q_forw (heap s2 lp) = (buffer_head # ns) ! nat (from + 1)"
        by auto
      obtain ok fp1 where pb: "put_bytes (written_line s ns from) fp = (ok, fp1)"
        by (cases "put_bytes (written_line s ns from) fp")
      have unf: "write_loop from to lp sz fp s =
                   (if ok then write_loop (from + 1) to (q_forw (heap s2 lp))
                                 (sz + int (length (written_line s ns from))) fp1 s2
                    else (None, fp1, set_error_msg ''Cannot write file'' s2))"
        using c g' d pb bt
        by (subst write_loop.simps) (simp add: Let_def)
      show ?thesis
      proof (cases ok)
        case False
        with unf "1.prems"(5) have "r = None" "s' = set_error_msg ''Cannot write file'' s2" by simp_all
        then show ?thesis using sb2 by (simp add: same_buffer_def set_error_msg_def)
      next
        case ok: True
        with unf "1.prems"(5) have
          wl: "write_loop (from + 1) to (q_forw (heap s2 lp))
                 (sz + int (length (written_line s ns from))) fp1 s2 = (r, fp', s')" by simp
        have l2: "last_addr s2 = last_addr s" using sb2 by (simp add: same_buffer_def)
        have p2: "1 \<le> from + 1" using "1.prems"(2) by simp
        have p3: "to \<le> last_addr s2" using "1.prems"(3) l2 by simp
        have p4: "from + 1 \<le> to \<longrightarrow> q_forw (heap s2 lp) = (buffer_head # ns) ! nat (from + 1)"
          using nx "1.prems"(3) by auto
        have pbT: "put_bytes (if nl then p @ [10] else p) fp = (True, fp1)"
          using pb ok bt by simp
        have ih: "same_buffer s2 s' \<and>
           (\<forall>size. r = Some size \<longrightarrow>
              written fp' = written fp1 @ concat (map (written_line s2 ns) [from + 1..to]) \<and>
              size = sz + int (length (written_line s ns from)) +
                     int (length (concat (map (written_line s2 ns) [from + 1..to]))))"
          using "1.IH"[OF c g'[symmetric] refl d[symmetric] refl refl refl pbT[symmetric] refl
                          inv2 p2 p3 p4] wl bt
          by simp
        have wls: "written_line s2 ns = written_line s ns"
          using written_line_same[OF sb2] by (intro ext) simp
        have w1: "written fp1 = written fp @ written_line s ns from"
          using put_bytes_written pb ok by simp
        show ?thesis
          using ih same_buffer_trans[OF sb2] w1 unfolding wls upto_first[OF True]
          by auto
      qed
    qed
  qed
qed

lemma write_loop_ok:
  assumes "buffer_inv s ns" "1 \<le> from" "to \<le> last_addr s"
    "from \<le> to \<longrightarrow> lp = (buffer_head # ns) ! nat from"
    "alloc_oracle s = []" "room fp = None"
    "\<forall>a \<in> set [from..to]. readable s ((buffer_head # ns) ! nat a)"
  shows "\<exists>size fp' s'. write_loop from to lp sz fp s = (Some size, fp', s')"
  using assms
proof (induction "from" to lp sz fp s rule: write_loop.induct)
  case (1 "from" to lp sz fp s)
  show ?case
  proof (cases "from \<le> to")
    case False
    then show ?thesis by (simp add: write_loop.simps[of "from" to])
  next
    case True
    then have c: "from \<noteq> 0 \<and> from \<le> to" using "1.prems"(2) by simp
    have lp: "lp = (buffer_head # ns) ! nat from" using "1.prems"(4) True by simp
    have fl: "from \<le> last_addr s" using True "1.prems"(3) by simp
    from "1.prems"(1) have r: "ring (heap s) buffer_head ns" and l: "last_addr s = int (length ns)"
      by (simp_all add: buffer_inv_def)
    have "lp \<in> set ns" unfolding lp using "1.prems"(2) fl l
      by (cases "nat from") auto
    then have nh: "lp \<noteq> buffer_head" using r by (auto simp: ring_def)
    have rd: "readable s lp" using "1.prems"(7) True lp by simp
    from get_sbuf_line_ok[OF nh rd "1.prems"(5)] obtain s1 where
      g: "get_sbuf_line lp s = (Some (node_text s lp), s1)" and a1: "alloc_oracle s1 = []"
      by blast
    obtain nl s2 where d: "(if from \<noteq> last_addr s1 \<or> \<not> isbinary s1 then (True, s1)
           else (let (u, s') = unterminated_last_line s1 in (\<not> u, s'))) = (nl, s2)"
      by (cases "(if from \<noteq> last_addr s1 \<or> \<not> isbinary s1 then (True, s1)
           else (let (u, s') = unterminated_last_line s1 in (\<not> u, s')))")
    from write_step[OF "1.prems"(1,2) fl lp g d]
    have sb2: "same_buffer s s2" and inv2: "buffer_inv s2 ns"
      and a2: "alloc_oracle s2 = alloc_oracle s1"
      and bt: "(if nl then node_text s lp @ [10] else node_text s lp) = written_line s ns from"
      and nx: "from < last_addr s \<longrightarrow> q_forw (heap s2 lp) = (buffer_head # ns) ! nat (from + 1)"
      by auto
    from put_bytes_ok[OF "1.prems"(6)] obtain fp1 where
      pb: "put_bytes (written_line s ns from) fp = (True, fp1)" and r1: "room fp1 = None"
      by blast
    have unf: "write_loop from to lp sz fp s =
                 write_loop (from + 1) to (q_forw (heap s2 lp))
                            (sz + int (length (written_line s ns from))) fp1 s2"
      using c g d pb bt
      by (subst write_loop.simps) (simp add: Let_def)
    have l2: "last_addr s2 = last_addr s" using sb2 by (simp add: same_buffer_def)
    have p2: "1 \<le> from + 1" using "1.prems"(2) by simp
    have p3: "to \<le> last_addr s2" using "1.prems"(3) l2 by simp
    have p4: "from + 1 \<le> to \<longrightarrow> q_forw (heap s2 lp) = (buffer_head # ns) ! nat (from + 1)"
      using nx "1.prems"(3) by auto
    have p5: "alloc_oracle s2 = []" using a1 a2 by simp
    have p7: "\<forall>a \<in> set [from + 1..to]. readable s2 ((buffer_head # ns) ! nat a)"
      using "1.prems"(7) readable_same[OF sb2] by simp
    have pbT: "put_bytes (if nl then node_text s lp @ [10] else node_text s lp) fp = (True, fp1)"
      using pb bt by simp
    show ?thesis
      unfolding unf
      using "1.IH"[OF c g[symmetric] refl d[symmetric] refl refl refl pbT[symmetric] refl
                      inv2 p2 p3 p4 p5 r1 p7] bt
      by simp
  qed
qed

lemma write_stream_start:
  assumes inv: "buffer_inv s ns" and f: "0 \<le> from" "from \<le> last_addr s"
  shows "write_stream from to fp s =
           write_loop from to ((buffer_head # ns) ! nat from) 0 fp
             (s\<lparr>lp_cache := (buffer_head # ns) ! nat from, o_addr := from\<rparr>)"
  by (simp add: write_stream_def search_line_node_ring[OF inv f])

lemma start_state:
  assumes inv: "buffer_inv s ns" and f: "0 \<le> from" "from \<le> last_addr s"
  shows "buffer_inv (s\<lparr>lp_cache := (buffer_head # ns) ! nat from, o_addr := from\<rparr>) ns"
    "same_buffer s (s\<lparr>lp_cache := (buffer_head # ns) ! nat from, o_addr := from\<rparr>)"
  using inv f by (simp_all add: buffer_inv_def same_buffer_def)

text \<open>
  Claim C6. In a buffer that holds the lines \<open>ns\<close>, \<open>write_stream\<close> for the range \<open>from\<close> to
  \<open>to\<close> with \<open>1 \<le> from \<le> last_addr\<close> and \<open>to \<le> last_addr\<close>: when it returns a size, the
  stream has got, for each line of the range in order, the bytes of the line followed by
  a newline, except that the last line of the buffer is written without the newline when
  the buffer is binary and \<open>unterminated_line\<close> points to that line; the size returned is
  the number of bytes written, and the buffer is the same. It does return a size when the
  stream never fails, every allocation succeeds and the lines of the range can be read
  from the scratch file.
\<close>

theorem write_stream_newline_rule:
  assumes "buffer_inv s ns" "1 \<le> from" "from \<le> last_addr s" "to \<le> last_addr s"
  shows "(\<forall>size fp' s'. write_stream from to fp s = (Some size, fp', s') \<longrightarrow>
            written fp' = written fp @ concat (map (written_line s ns) [from..to]) \<and>
            size = int (length (concat (map (written_line s ns) [from..to]))) \<and>
            same_buffer s s') \<and>
         (alloc_oracle s = [] \<and> room fp = None \<and>
          (\<forall>a \<in> set [from..to]. readable s ((buffer_head # ns) ! nat a)) \<longrightarrow>
          (\<exists>size fp' s'. write_stream from to fp s = (Some size, fp', s')))"
proof -
  let ?s0 = "s\<lparr>lp_cache := (buffer_head # ns) ! nat from, o_addr := from\<rparr>"
  have f0: "0 \<le> from" using assms(2) by simp
  note st = write_stream_start[OF assms(1) f0 assms(3), of to fp]
  note ss = start_state[OF assms(1) f0 assms(3)]
  have l0: "to \<le> last_addr ?s0" using assms(4) by simp
  have wl0: "written_line ?s0 ns = written_line s ns"
    using written_line_same[OF ss(2)] by (intro ext) simp
  have A: "\<forall>size fp' s'. write_stream from to fp s = (Some size, fp', s') \<longrightarrow>
            written fp' = written fp @ concat (map (written_line s ns) [from..to]) \<and>
            size = int (length (concat (map (written_line s ns) [from..to]))) \<and>
            same_buffer s s'"
  proof (intro allI impI)
    fix size fp' s'
    assume "write_stream from to fp s = (Some size, fp', s')"
    then have w: "write_loop from to ((buffer_head # ns) ! nat from) 0 fp ?s0 = (Some size, fp', s')"
      unfolding st .
    from write_loop_spec[OF ss(1) assms(2) l0 _ w]
    have "same_buffer ?s0 s'"
      "written fp' = written fp @ concat (map (written_line ?s0 ns) [from..to])"
      "size = 0 + int (length (concat (map (written_line ?s0 ns) [from..to])))"
      by auto
    then show "written fp' = written fp @ concat (map (written_line s ns) [from..to]) \<and>
            size = int (length (concat (map (written_line s ns) [from..to]))) \<and>
            same_buffer s s'"
      unfolding wl0 using same_buffer_trans[OF ss(2)] by simp
  qed
  have B: "alloc_oracle s = [] \<and> room fp = None \<and>
          (\<forall>a \<in> set [from..to]. readable s ((buffer_head # ns) ! nat a)) \<longrightarrow>
          (\<exists>size fp' s'. write_stream from to fp s = (Some size, fp', s'))"
  proof
    assume h: "alloc_oracle s = [] \<and> room fp = None \<and>
          (\<forall>a \<in> set [from..to]. readable s ((buffer_head # ns) ! nat a))"
    then have a0: "alloc_oracle ?s0 = []" and r0: "room fp = None"
      and rd0: "\<forall>a \<in> set [from..to]. readable ?s0 ((buffer_head # ns) ! nat a)"
      using readable_same[OF ss(2)] by simp_all
    from write_loop_ok[OF ss(1) assms(2) l0 _ a0 r0 rd0, of "(buffer_head # ns) ! nat from" 0]
    show "\<exists>size fp' s'. write_stream from to fp s = (Some size, fp', s')"
      unfolding st by simp
  qed
  from A B show ?thesis by (rule conjI)
qed

lemma binary_lines_inv: "buffer_inv binary_lines [2, 3, 4]"
  by (simp add: buffer_inv_def ring_def binary_lines_def three_lines_def init_state_def node_def
        buffer_head_def)

lemma binary_lines_text:
  "concat (map (written_line binary_lines [2, 3, 4]) [2..3]) = [121, 10, 122]"
proof -
  have "[2..3] = [2, 3::int]" by (simp add: upto.simps)
  then show ?thesis
    by (simp add: written_line_def node_text_def binary_lines_def three_lines_def init_state_def
          node_def buffer_head_def)
qed

theorem write_stream_newline_rule_witness:
  "buffer_inv binary_lines [2, 3, 4] \<and> (1::int) \<le> 2 \<and> 2 \<le> last_addr binary_lines \<and>
   3 \<le> last_addr binary_lines \<and> alloc_oracle binary_lines = [] \<and> room stdout0 = None \<and>
   readable binary_lines 3 \<and> readable binary_lines 4 \<and>
   (\<exists>fp' s'. write_stream 2 3 stdout0 binary_lines = (Some 3, fp', s') \<and>
              written fp' = [121, 10, 122] \<and> same_buffer binary_lines s')"
proof -
  have l: "last_addr binary_lines = 3" "alloc_oracle binary_lines = []" "room stdout0 = None"
    "written stdout0 = []"
    by (simp_all add: binary_lines_def three_lines_def init_state_def stdout0_def)
  have u: "[2..3] = [2, 3::int]" by (simp add: upto.simps)
  have rd: "\<forall>a \<in> set [2..3]. readable binary_lines ((buffer_head # [2, 3, 4]) ! nat a)"
    unfolding u
    by (simp add: readable_def binary_lines_def three_lines_def init_state_def node_def int_max_def)
  have p: "(1::int) \<le> 2" "2 \<le> last_addr binary_lines" "3 \<le> last_addr binary_lines"
    using l by simp_all
  note t = write_stream_newline_rule[OF binary_lines_inv p, of stdout0]
  from t l rd obtain size fp' s' where
    w: "write_stream 2 3 stdout0 binary_lines = (Some size, fp', s')" by blast
  with t have "written fp' = written stdout0 @ concat (map (written_line binary_lines [2, 3, 4]) [2..3])"
    "size = int (length (concat (map (written_line binary_lines [2, 3, 4]) [2..3])))"
    "same_buffer binary_lines s'" by blast+
  then have "written fp' = [121, 10, 122]" "size = 3" "same_buffer binary_lines s'"
    unfolding binary_lines_text using l by simp_all
  with w have "\<exists>fp' s'. write_stream 2 3 stdout0 binary_lines = (Some 3, fp', s') \<and>
              written fp' = [121, 10, 122] \<and> same_buffer binary_lines s'" by blast
  moreover have "readable binary_lines 3" "readable binary_lines 4"
    using rd unfolding u by simp_all
  ultimately show ?thesis using binary_lines_inv p l by blast
qed

section \<open>Commands in an empty buffer\<close>

lemma extract_none:
  assumes "\<not> isdigit c" "\<not> isspace c \<or> c = NL"
    "c \<notin> set [CHR ''+'', CHR ''-'', CHR ''.'', CHR ''$'', CHR ''/'', CHR ''?'', CHR 0x27, CHR ''%'', CHR '','', CHR '';'']"
  shows "extract_addresses E (c # rest) s =
           Some (0, c # rest, s\<lparr>first_addr := current_addr s, second_addr := current_addr s\<rparr>)"
proof -
  have sb: "skip_blanks (c # rest) = c # rest"
    using assms(2) by (auto simp: skip_blanks_def)
  have nb: "c \<noteq> CHR 0x09" "c \<noteq> CHR '' ''"
    using assms(2) by (auto simp: isspace_def NL_def)
  show ?thesis
    unfolding extract_addresses_def sb
    apply (subst extract_loop.simps)
    using assms(1,3) nb by (simp add: peek_def Let_def)
qed

lemma invalid_address_errmsg: "errmsg (invalid_address s) = ''Invalid address''"
  by (simp add: invalid_address_def set_error_msg_def)

lemma check_addr_range_empty:
  assumes "last_addr s = 0"
  shows "check_addr_range n m addr_cnt s =
           (False, invalid_address (if addr_cnt = 0 then s\<lparr>first_addr := n, second_addr := m\<rparr> else s))"
  using assms by (auto simp: check_addr_range_def Let_def)

lemma check_second_addr_empty:
  assumes "last_addr s = 0"
  shows "check_second_addr a addr_cnt s =
           (False, invalid_address (if addr_cnt = 0 then s\<lparr>second_addr := a\<rparr> else s))"
  using assms by (auto simp: check_second_addr_def Let_def)

lemma sw_c:
  assumes "last_addr s = 0"
  shows "fails_invalid (exec_switch E CHR ''c'' addr_cnt ib prev isglobal s)"
  by (simp add: fails_invalid_def exec_switch_def exec_c_def check_addr_range2_def
        check_addr_range_empty[OF assms] check_second_addr_empty[OF assms] invalid_address_errmsg)

lemma sw_d:
  assumes "last_addr s = 0"
  shows "fails_invalid (exec_switch E CHR ''d'' addr_cnt ib prev isglobal s)"
  by (simp add: fails_invalid_def exec_switch_def exec_d_def check_addr_range2_def
        check_addr_range_empty[OF assms] check_second_addr_empty[OF assms] invalid_address_errmsg)

lemma sw_j:
  assumes "last_addr s = 0"
  shows "fails_invalid (exec_switch E CHR ''j'' addr_cnt ib prev isglobal s)"
  by (simp add: fails_invalid_def exec_switch_def exec_j_def check_addr_range2_def
        check_addr_range_empty[OF assms] check_second_addr_empty[OF assms] invalid_address_errmsg)

lemma sw_l:
  assumes "last_addr s = 0"
  shows "fails_invalid (exec_switch E CHR ''l'' addr_cnt ib prev isglobal s)"
  by (simp add: fails_invalid_def exec_switch_def exec_p_def check_addr_range2_def
        check_addr_range_empty[OF assms] check_second_addr_empty[OF assms] invalid_address_errmsg)

lemma sw_m:
  assumes "last_addr s = 0"
  shows "fails_invalid (exec_switch E CHR ''m'' addr_cnt ib prev isglobal s)"
  by (simp add: fails_invalid_def exec_switch_def exec_m_def check_addr_range2_def
        check_addr_range_empty[OF assms] check_second_addr_empty[OF assms] invalid_address_errmsg)

lemma sw_n:
  assumes "last_addr s = 0"
  shows "fails_invalid (exec_switch E CHR ''n'' addr_cnt ib prev isglobal s)"
  by (simp add: fails_invalid_def exec_switch_def exec_p_def check_addr_range2_def
        check_addr_range_empty[OF assms] check_second_addr_empty[OF assms] invalid_address_errmsg)

lemma sw_p:
  assumes "last_addr s = 0"
  shows "fails_invalid (exec_switch E CHR ''p'' addr_cnt ib prev isglobal s)"
  by (simp add: fails_invalid_def exec_switch_def exec_p_def check_addr_range2_def
        check_addr_range_empty[OF assms] check_second_addr_empty[OF assms] invalid_address_errmsg)

lemma sw_s:
  assumes "last_addr s = 0"
  shows "fails_invalid (exec_switch E CHR ''s'' addr_cnt ib prev isglobal s)"
  by (simp add: fails_invalid_def exec_switch_def exec_s_def command_s_def check_addr_range2_def
        check_addr_range_empty[OF assms] check_second_addr_empty[OF assms] invalid_address_errmsg)

lemma sw_t:
  assumes "last_addr s = 0"
  shows "fails_invalid (exec_switch E CHR ''t'' addr_cnt ib prev isglobal s)"
  by (simp add: fails_invalid_def exec_switch_def exec_t_def check_addr_range2_def
        check_addr_range_empty[OF assms] check_second_addr_empty[OF assms] invalid_address_errmsg)

lemma sw_y:
  assumes "last_addr s = 0"
  shows "fails_invalid (exec_switch E CHR ''y'' addr_cnt ib prev isglobal s)"
  by (simp add: fails_invalid_def exec_switch_def exec_y_def check_addr_range2_def
        check_addr_range_empty[OF assms] check_second_addr_empty[OF assms] invalid_address_errmsg)

lemma sw_z:
  assumes "last_addr s = 0"
  shows "fails_invalid (exec_switch E CHR ''z'' addr_cnt ib prev isglobal s)"
  by (simp add: fails_invalid_def exec_switch_def exec_z_def check_addr_range2_def
        check_addr_range_empty[OF assms] check_second_addr_empty[OF assms] invalid_address_errmsg)

lemma sw_k:
  assumes "second_addr s = 0"
  shows "fails_invalid (exec_switch E CHR ''k'' addr_cnt ib prev isglobal s)"
  using assms by (simp add: fails_invalid_def exec_switch_def exec_k_def Let_def invalid_address_errmsg)

lemma sw_newline:
  assumes "last_addr s = 0"
  shows "fails_invalid (exec_switch E NL addr_cnt ib prev isglobal s)"
  by (simp add: fails_invalid_def exec_switch_def exec_newline_def NL_def
        check_second_addr_empty[OF assms] invalid_address_errmsg)

lemma sw_g:
  assumes "last_addr s = 0" "c = CHR ''g'' \<or> c = CHR ''v'' \<or> c = CHR ''G'' \<or> c = CHR ''V''"
  shows "fails_invalid (exec_switch E c addr_cnt ib prev False s)"
proof -
  have "exec_switch E c addr_cnt ib prev False s = exec_g E c addr_cnt ib False s"
    using assms(2) by (auto simp: exec_switch_def)
  then show ?thesis
    by (simp add: fails_invalid_def exec_g_def check_addr_range_empty[OF assms(1)] invalid_address_errmsg)
qed

lemma exec_switch_empty:
  assumes "last_addr s = 0" "second_addr s = 0"
    and "c \<in> set ''cdjklmnpstyz'' \<or> c = NL \<or> (c \<in> set ''gvGV'' \<and> \<not> isglobal)"
  shows "fails_invalid (exec_switch E c addr_cnt ib prev isglobal s)"
  using assms(3)
proof (elim disjE conjE)
  assume "c \<in> set ''cdjklmnpstyz''"
  then have "c = CHR ''c'' \<or> c = CHR ''d'' \<or> c = CHR ''j'' \<or> c = CHR ''k''
    \<or> c = CHR ''l'' \<or> c = CHR ''m'' \<or> c = CHR ''n'' \<or> c = CHR ''p'' \<or> c = CHR ''s''
    \<or> c = CHR ''t'' \<or> c = CHR ''y'' \<or> c = CHR ''z''" by simp
  then show ?thesis
    by (elim disjE)
       (simp_all only: sw_c[OF assms(1)] sw_d[OF assms(1)] sw_j[OF assms(1)] sw_k[OF assms(2)]
          sw_l[OF assms(1)] sw_m[OF assms(1)] sw_n[OF assms(1)] sw_p[OF assms(1)]
          sw_s[OF assms(1)] sw_t[OF assms(1)] sw_y[OF assms(1)] sw_z[OF assms(1)])
next
  assume "c = NL"
  then show ?thesis by (simp only: sw_newline[OF assms(1)])
next
  assume "c \<in> set ''gvGV''" "\<not> isglobal"
  then have "c = CHR ''g'' \<or> c = CHR ''v'' \<or> c = CHR ''G'' \<or> c = CHR ''V''" "isglobal = False"
    by simp_all
  then show ?thesis using sw_g[OF assms(1)] by simp
qed

text \<open>
  Claim C5. In an empty buffer (\<open>last_addr\<close> and \<open>current_addr\<close> are 0), a command line
  that begins with one of the commands \<open>c\<close>, \<open>d\<close>, \<open>j\<close>, \<open>k\<close>, \<open>l\<close>, \<open>m\<close>, \<open>n\<close>, \<open>p\<close>, \<open>s\<close>, \<open>t\<close>,
  \<open>y\<close>, \<open>z\<close> or is empty, and so gives no address, makes \<open>exec_command\<close> return \<open>ERR\<close> with
  the message \<open>Invalid address\<close>; so do \<open>g\<close>, \<open>v\<close>, \<open>G\<close> and \<open>V\<close> outside a global command.
\<close>

theorem empty_buffer_invalid_address:
  assumes "last_addr s = 0" "current_addr s = 0"
    and "c \<in> set ''cdjklmnpstyz'' \<or> c = NL \<or> (c \<in> set ''gvGV'' \<and> \<not> isglobal)"
  shows "\<exists>ib' s'. exec_command E (c # rest) prev_status isglobal s = Some (ERR, ib', s') \<and>
                   errmsg s' = ''Invalid address''"
proof -
  have nd: "\<not> isdigit c" and ns: "\<not> isspace c \<or> c = NL"
    and nl: "c \<notin> set [CHR ''+'', CHR ''-'', CHR ''.'', CHR ''$'', CHR ''/'', CHR ''?'', CHR 0x27,
                       CHR ''%'', CHR '','', CHR '';'']"
    using assms(3) by (auto simp: isdigit_def isspace_def NL_def)
  let ?s1 = "s\<lparr>first_addr := current_addr s, second_addr := current_addr s\<rparr>"
  have ea: "extract_addresses E (c # rest) s = Some (0, c # rest, ?s1)"
    by (rule extract_none[OF nd ns nl])
  have sb: "skip_blanks (c # rest) = c # rest"
    using ns by (auto simp: skip_blanks_def)
  have l1: "last_addr ?s1 = 0" "second_addr ?s1 = 0" using assms(1,2) by simp_all
  from exec_switch_empty[OF l1 assms(3), of E 0 rest prev_status]
  obtain pf ib' s' where sw: "exec_switch E c 0 rest prev_status isglobal ?s1 = Some (ERR, pf, ib', s')"
    and em: "errmsg s' = ''Invalid address''"
    unfolding fails_invalid_def by blast
  have "exec_command E (c # rest) prev_status isglobal s = Some (ERR, ib', s')"
    using sw by (simp add: exec_command_def ea sb peek_def ERR_def)
  with em show ?thesis by blast
qed

lemma init_state_empty: "last_addr init_state = 0" "current_addr init_state = 0"
  by (simp_all add: init_state_def)

theorem empty_buffer_invalid_address_witness:
  "last_addr init_state = 0 \<and> current_addr init_state = 0 \<and> CHR ''d'' \<in> set ''cdjklmnpstyz'' \<and>
   (\<exists>ib' s'. exec_command quiet_env (''d'' @ [NL]) 0 False init_state = Some (ERR, ib', s') \<and>
              errmsg s' = ''Invalid address'')"
  using empty_buffer_invalid_address[of init_state "CHR ''d''" False quiet_env "[NL]" 0]
  by (simp add: init_state_def)

text \<open>
  The command \<open>w\<close> is not among the exceptions of the claim, and its default range is
  the whole buffer: given without an address in an empty buffer that has a default
  filename, it writes an empty file and returns 0.
\<close>

theorem empty_buffer_write_counterexample:
  "last_addr named_empty = 0 \<and>
   (case exec_command quiet_env (''w'' @ [NL]) 0 False named_empty of
      Some (st, ib, s') \<Rightarrow> st = 0 \<and> fs s' ''f'' = Some []
    | None \<Rightarrow> False)"
  by code_simp

section \<open>The move command with a destination in its range\<close>



































section \<open>The addresses after a command that changes the buffer\<close>


























































































end
